(* ===== verification/Prelude.thy ===== *)
theory Prelude
  imports Complex_Main "HOL-Library.Word" "HOL-Library.Monad_Syntax" "HOL-Library.Sublist"
begin

section \<open>Prelude: bytes, the fallible monad, the allocator\<close>

text \<open>
  What every component shares: the type of C byte strings, reads that can fail, the
  collections of rewrite rules the component proofs use, a model of the allocator that
  cJSON is written against, and the generic state-transition locale in which the
  invariants of the event-driven parts are proved once.

  A C \<open>char\<close> or \<open>unsigned char\<close> is an element of HOL's 8-bit type \<open>char\<close>;
  \<open>of_char c\<close> is its value as an \<open>unsigned char\<close> and \<open>char_of n\<close> is the C conversion of an
  integer to a byte (it keeps the low eight bits).  A computation of type
  \<open>'a option\<close> has the value \<open>None\<close> when the C code would have no defined behaviour
  (a read outside an object, a null pointer dereference) or when a fuel bound is exhausted.
\<close>

named_theorems run_simps \<open>rules that evaluate sequencing in the option monad\<close>
named_theorems byte_simps \<open>rules on bytes, terminators and C strings\<close>
named_theorems heap_simps \<open>rules on the allocator's counters\<close>

type_synonym bytes = "char list"

abbreviation NUL :: char where
  "NUL \<equiv> CHR 0x00"

abbreviation DQUOTE :: char where
  "DQUOTE \<equiv> CHR 0x22"

abbreviation BACKSLASH :: char where
  "BACKSLASH \<equiv> CHR 0x5C"

abbreviation ch :: "char \<Rightarrow> nat" where
  "ch c \<equiv> of_char c"

text \<open>Reading one element of an object: outside it there is no value.\<close>

definition rd :: "'a list \<Rightarrow> nat \<Rightarrow> 'a option" where
  "rd xs i = (if i < length xs then Some (xs ! i) else None)"

lemma rd_Some_iff [run_simps]: "rd xs i = Some x \<longleftrightarrow> i < length xs \<and> x = xs ! i"
  by (auto simp: rd_def)

lemma rd_None_iff [run_simps]: "rd xs i = None \<longleftrightarrow> length xs \<le> i"
  by (auto simp: rd_def)

lemma rd_in_range [simp]: "i < length xs \<Longrightarrow> rd xs i = Some (xs ! i)"
  by (simp add: rd_def)

declare Option.bind_eq_Some_conv [run_simps]

lemma bind_not_None [run_simps]:
  "Option.bind m f \<noteq> None \<longleftrightarrow> (\<exists>x. m = Some x \<and> f x \<noteq> None)"
  by (cases m) auto

subsection \<open>Bytes\<close>

lemma of_char_lt_256 [simp]: "ch c < 256"
  using of_char_mod_256 [of c, where ?'a = nat] mod_less_divisor [of 256 "ch c"] by simp

lemma char_of_of_char [byte_simps]: "char_of (ch c) = c"
  by simp

lemma of_char_char_of_lt [byte_simps]: "n < 256 \<Longrightarrow> ch (char_of n) = n"
  by (simp add: of_char_of)

lemma of_char_inj_iff [byte_simps]: "ch c = ch d \<longleftrightarrow> c = d"
  by simp

lemma of_char_zero_iff [byte_simps]: "ch c = 0 \<longleftrightarrow> c = NUL"
proof
  assume "ch c = 0"
  then have "ch c = ch NUL" by simp
  then show "c = NUL" by (simp only: of_char_inj_iff)
qed simp

text \<open>The range of \<open>int\<close>.\<close>

definition INT_MAX :: int where
  "INT_MAX = 2147483647"

definition INT_MIN :: int where
  "INT_MIN = - 2147483648"

subsection \<open>The part of an object that C reads as a string\<close>

text \<open>
  \<open>c_str m\<close> is the string that starts at the first byte of \<open>m\<close>: it ends before the first
  terminator.  All uses apply it to a block that is followed by a terminator.
\<close>

definition c_str :: "bytes \<Rightarrow> bytes" where
  "c_str m = takeWhile (\<lambda>c. c \<noteq> NUL) m"

lemma c_str_Nil [simp]: "c_str [] = []"
  by (simp add: c_str_def)

lemma c_str_Cons [simp]: "c_str (c # m) = (if c = NUL then [] else c # c_str m)"
  by (simp add: c_str_def)

lemma NUL_notin_c_str [simp]: "NUL \<notin> set (c_str m)"
  by (induction m) auto

lemma c_str_no_NUL: "NUL \<notin> set m \<Longrightarrow> c_str m = m"
  by (induction m) auto

lemma c_str_idem [simp]: "c_str (c_str m) = c_str m"
  by (simp add: c_str_no_NUL)

lemma length_c_str [simp]: "length (c_str m) \<le> length m"
  by (simp add: c_str_def length_takeWhile_le)

lemma c_str_append_NUL [simp]: "c_str (m @ NUL # r) = c_str m"
  by (induction m) auto

lemma c_str_append: "NUL \<notin> set m \<Longrightarrow> c_str (m @ r) = m @ c_str r"
  by (induction m) auto

lemma c_str_full: "length (c_str m) = length m \<Longrightarrow> c_str m = m"
proof (induction m)
  case (Cons c m)
  then show ?case by (cases "c = NUL") auto
qed simp

subsection \<open>The allocator\<close>

text \<open>
  \<open>malloc\<close> may fail at any call.  Which calls fail is the environment's choice: \<open>oom n\<close> says
  that the \<open>n\<close>-th call fails.  \<open>live\<close> counts the blocks that are allocated and not yet
  freed; it is an integer so that freeing too much would show as a negative count.
\<close>

record heap =
  oom :: "nat \<Rightarrow> bool"
  allocs :: nat
  live :: int

definition malloc :: "heap \<Rightarrow> bool \<times> heap" where
  "malloc h =
     (let h' = h\<lparr>allocs := Suc (allocs h)\<rparr>
      in if oom h (allocs h) then (False, h') else (True, h'\<lparr>live := live h + 1\<rparr>))"

definition dealloc :: "heap \<Rightarrow> heap" where
  "dealloc h = h\<lparr>live := live h - 1\<rparr>"

lemma malloc_cases:
  obtains (fail) h' where "malloc h = (False, h')" "live h' = live h" "oom h' = oom h"
  | (ok) h' where "malloc h = (True, h')" "live h' = live h + 1" "oom h' = oom h"
  by (cases "oom h (allocs h)") (simp_all add: malloc_def Let_def that)

lemma malloc_live [heap_simps]:
  "malloc h = (ok, h') \<Longrightarrow> live h' = live h + of_bool ok"
  by (auto simp: malloc_def Let_def split: if_splits)

lemma malloc_oom [heap_simps]: "malloc h = (ok, h') \<Longrightarrow> oom h' = oom h"
  by (auto simp: malloc_def Let_def split: if_splits)

lemma live_dealloc [heap_simps, simp]: "live (dealloc h) = live h - 1"
  by (simp add: dealloc_def)

lemma oom_dealloc [heap_simps, simp]: "oom (dealloc h) = oom h"
  by (simp add: dealloc_def)

text \<open>A heap on which no allocation fails, with no block allocated.\<close>

definition fresh_heap :: heap where
  "fresh_heap = \<lparr>oom = (\<lambda>_. False), allocs = 0, live = 0\<rparr>"

lemma malloc_never_fails: "oom h = (\<lambda>_. False) \<Longrightarrow> fst (malloc h)"
  by (simp add: malloc_def Let_def)

subsection \<open>State transition systems\<close>

text \<open>
  The server is driven by events.  A component supplies its initial states, its partial step
  function and an invariant; the locale proves that the invariant holds after every run.
\<close>

locale transition_system =
  fixes init :: "'s \<Rightarrow> bool"
    and step :: "'e \<Rightarrow> 's \<Rightarrow> 's option"
    and inv :: "'s \<Rightarrow> bool"
  assumes init_inv: "init s \<Longrightarrow> inv s"
    and step_inv: "inv s \<Longrightarrow> step e s = Some t \<Longrightarrow> inv t"
begin

fun run :: "'e list \<Rightarrow> 's \<Rightarrow> 's option" where
  "run [] s = Some s"
| "run (e # es) s = Option.bind (step e s) (run es)"

lemma run_append: "run (es @ fs) s = Option.bind (run es s) (run fs)"
  by (induction es arbitrary: s) (auto split: bind_splits)

lemma run_inv: "inv s \<Longrightarrow> run es s = Some t \<Longrightarrow> inv t"
  by (induction es arbitrary: s) (auto simp: run_simps intro: step_inv)

lemma run_init_inv: "init s \<Longrightarrow> run es s = Some t \<Longrightarrow> inv t"
  using init_inv run_inv by blast

end

end
