(* ===== verification/CString.thy ===== *)
theory CString
  imports Prelude
begin

section \<open>The parts of the C string library the program calls\<close>

text \<open>
  Functions of \<open>string.h\<close>, \<open>ctype.h\<close> and \<open>stdio.h\<close> as the sources use them, on byte lists.
  A string argument stands for a block that carries a terminator after its last byte, so
  every function looks at its \<open>c_str\<close> only.  Nothing here is code of the repository.
\<close>

subsection \<open>Comparison\<close>

fun strcmp_aux :: "bytes \<Rightarrow> bytes \<Rightarrow> int" where
  "strcmp_aux [] [] = 0"
| "strcmp_aux [] (d # t) = - int (ch d)"
| "strcmp_aux (c # s) [] = int (ch c)"
| "strcmp_aux (c # s) (d # t) = (if c = d then strcmp_aux s t else int (ch c) - int (ch d))"

definition strcmp :: "bytes \<Rightarrow> bytes \<Rightarrow> int" where
  "strcmp s t = strcmp_aux (c_str s) (c_str t)"

lemma strcmp_aux_eq_0_iff:
  "NUL \<notin> set s \<Longrightarrow> NUL \<notin> set t \<Longrightarrow> strcmp_aux s t = 0 \<longleftrightarrow> s = t"
  by (induction s t rule: strcmp_aux.induct) (auto simp: byte_simps)

lemma strcmp_eq_0_iff [byte_simps]: "strcmp s t = 0 \<longleftrightarrow> c_str s = c_str t"
  by (simp add: strcmp_def strcmp_aux_eq_0_iff)

lemma strcmp_aux_anti: "strcmp_aux s t = - strcmp_aux t s"
  by (induction s t rule: strcmp_aux.induct) auto

definition strncmp_eq :: "bytes \<Rightarrow> bytes \<Rightarrow> nat \<Rightarrow> bool" where
  "strncmp_eq s t n \<longleftrightarrow> c_str (take n s) = c_str (take n t)"

subsection \<open>Letters and digits\<close>

definition is_digit :: "char \<Rightarrow> bool" where
  "is_digit c \<longleftrightarrow> ch CHR ''0'' \<le> ch c \<and> ch c \<le> ch CHR ''9''"

definition digit_val :: "char \<Rightarrow> nat" where
  "digit_val c = ch c - ch CHR ''0''"

definition digit_char :: "nat \<Rightarrow> char" where
  "digit_char d = char_of (ch CHR ''0'' + d)"

definition tolower :: "char \<Rightarrow> char" where
  "tolower c = (if ch CHR ''A'' \<le> ch c \<and> ch c \<le> ch CHR ''Z'' then char_of (ch c + 32) else c)"

lemma digit_char_val: "d < 10 \<Longrightarrow> digit_val (digit_char d) = d"
  by (simp add: digit_val_def digit_char_def of_char_of)

lemma is_digit_digit_char: "d < 10 \<Longrightarrow> is_digit (digit_char d)"
  by (simp add: is_digit_def digit_char_def of_char_of)

lemma digit_val_lt: "is_digit c \<Longrightarrow> digit_val c < 10"
  unfolding is_digit_def digit_val_def by simp linarith

lemma digit_char_of_val: "is_digit c \<Longrightarrow> digit_char (digit_val c) = c"
  by (simp add: is_digit_def digit_val_def digit_char_def)

subsection \<open>Searching\<close>

text \<open>\<open>strstr\<close>: the suffix of the first string at the first occurrence of the second.\<close>

fun strstr_aux :: "bytes \<Rightarrow> bytes \<Rightarrow> bytes option" where
  "strstr_aux [] n = (if n = [] then Some [] else None)"
| "strstr_aux (c # s) n = (if prefix n (c # s) then Some (c # s) else strstr_aux s n)"

definition strstr :: "bytes \<Rightarrow> bytes \<Rightarrow> bytes option" where
  "strstr s n = strstr_aux (c_str s) (c_str n)"

lemma strstr_aux_None_iff: "strstr_aux s n = None \<longleftrightarrow> \<not> sublist n s"
  by (induction s) (auto simp: sublist_Cons_right)

lemma strstr_None_iff: "strstr s n = None \<longleftrightarrow> \<not> sublist (c_str n) (c_str s)"
  by (simp add: strstr_def strstr_aux_None_iff)

subsection \<open>Decimal and hexadecimal output\<close>

fun show_nat :: "nat \<Rightarrow> bytes" where
  "show_nat n = (if n < 10 then [digit_char n] else show_nat (n div 10) @ [digit_char (n mod 10)])"

declare show_nat.simps [simp del]

definition show_int :: "int \<Rightarrow> bytes" where
  "show_int i = (if i < 0 then CHR ''-'' # show_nat (nat (- i)) else show_nat (nat i))"

definition hex_char :: "nat \<Rightarrow> char" where
  "hex_char d = (if d < 10 then char_of (48 + d) else char_of (87 + d))"

text \<open>The conversion \<open>%04x\<close> of a value below \<open>65536\<close>.\<close>

definition show_hex4 :: "nat \<Rightarrow> bytes" where
  "show_hex4 n = [hex_char (n div 4096 mod 16), hex_char (n div 256 mod 16),
                  hex_char (n div 16 mod 16), hex_char (n mod 16)]"

lemma length_show_hex4 [simp]: "length (show_hex4 n) = 4"
  by (simp add: show_hex4_def)

lemma show_nat_not_Nil [simp]: "show_nat n \<noteq> []"
  by (subst show_nat.simps) simp

lemma show_nat_digits: "\<forall>c \<in> set (show_nat n). is_digit c"
proof (induction n rule: show_nat.induct)
  case (1 n)
  then show ?case
    by (cases "n < 10") (auto simp: show_nat.simps [of n] is_digit_digit_char)
qed

lemma is_digit_not_NUL: "is_digit c \<Longrightarrow> c \<noteq> NUL"
  by (auto simp: is_digit_def)

lemma show_nat_no_NUL [simp]: "NUL \<notin> set (show_nat n)"
  using show_nat_digits is_digit_not_NUL by blast

lemma show_int_no_NUL [simp]: "NUL \<notin> set (show_int i)"
  by (simp add: show_int_def)

text \<open>\<open>digits_val\<close> reads a digit string back.\<close>

definition digits_val :: "bytes \<Rightarrow> nat" where
  "digits_val ds = foldl (\<lambda>a c. 10 * a + digit_val c) 0 ds"

lemma digits_val_snoc: "digits_val (ds @ [c]) = 10 * digits_val ds + digit_val c"
  by (simp add: digits_val_def)

lemma digits_val_Nil [simp]: "digits_val [] = 0"
  by (simp add: digits_val_def)

lemma digits_val_show_nat [simp]: "digits_val (show_nat n) = n"
proof (induction n rule: show_nat.induct)
  case (1 n)
  show ?case
  proof (cases "n < 10")
    case True
    then show ?thesis
      using digits_val_snoc [of "[]"] by (simp add: show_nat.simps [of n] digit_char_val)
  next
    case False
    with 1 show ?thesis
      by (simp add: show_nat.simps [of n] digits_val_snoc digit_char_val)
  qed
qed

subsection \<open>Lengths of decimal output\<close>

lemma length_show_nat_le: "n < 10 ^ k \<Longrightarrow> 0 < k \<Longrightarrow> length (show_nat n) \<le> k"
proof (induction n arbitrary: k rule: show_nat.induct)
  case (1 n)
  show ?case
  proof (cases "n < 10")
    case True
    with 1 show ?thesis by (simp add: show_nat.simps [of n])
  next
    case False
    from "1.prems" obtain j where k: "k = Suc j"
      by (cases k) auto
    with False "1.prems" have "0 < j"
      by (cases j) auto
    moreover from "1.prems" k have "n div 10 < 10 ^ j"
      by (simp add: less_mult_imp_div_less mult.commute)
    ultimately have "length (show_nat (n div 10)) \<le> j"
      using "1.IH" False by blast
    with False k show ?thesis by (simp add: show_nat.simps [of n])
  qed
qed

end
