(* ===== verification/MgBase64.thy ===== *)
theory MgBase64
  imports CString
begin

unbundle bit_operations_syntax

section \<open>Mongoose: base64\<close>

text \<open>
  \<open>cs_base64.c\<close> as it is amalgamated into \<open>mongoose.c\<close>: the encoder of a whole block, the encoder
  that is fed in pieces and hands each character to a callback, and the decoder.  The values of
  \<open>int\<close> variables that stay in the range of a byte are natural numbers with the operations on
  their bits; the counter of written characters is checked against \<open>INT_MAX\<close>.  The reference is
  RFC 4648: three bytes are one number of 24 bits, written as four digits to the base 64.
\<close>

definition b64_alphabet :: bytes where
  "b64_alphabet = ''ABCDEFGHIJKLMNOPQRSTUVWXYZabcdefghijklmnopqrstuvwxyz0123456789+/''"

subsection \<open>Encoding a block\<close>

text \<open>
  The macro \<open>BASE64_ENCODE_BODY\<close> is used with two meanings of \<open>BASE64_OUT\<close>, which are the argument
  \<open>out\<close>; each of them counts in \<open>j\<close>.
\<close>

definition base64_put :: "(char \<Rightarrow> 's \<Rightarrow> 's option) \<Rightarrow> char \<Rightarrow> nat \<times> 's \<Rightarrow> (nat \<times> 's) option" where
  "base64_put out c js =
     (case js of (j, s) \<Rightarrow> if int j < INT_MAX then map_option (Pair (j + 1)) (out c s) else None)"

function base64_pad :: "(char \<Rightarrow> 's \<Rightarrow> 's option) \<Rightarrow> nat \<Rightarrow> 's \<Rightarrow> (nat \<times> 's) option" where
  "base64_pad out j s =
     (if j mod 4 \<noteq> 0
      then case base64_put out CHR ''='' (j, s) of None \<Rightarrow> None | Some (_, s') \<Rightarrow> base64_pad out (j + 1) s'
      else Some (j, s))"
  by pat_completeness auto
termination
  by (relation "measure (\<lambda>(out, j, s). (4 - j mod 4) mod 4)") (auto simp: mod_Suc)

function base64_loop ::
  "(char \<Rightarrow> 's \<Rightarrow> 's option) \<Rightarrow> bytes \<Rightarrow> nat \<Rightarrow> nat \<times> 's \<Rightarrow> (nat \<times> 's) option" where
  "base64_loop out src i js =
     (if i < length src
      then let a = ch (src ! i);
               b = if length src \<le> i + 1 then 0 else ch (src ! (i + 1));
               c = if length src \<le> i + 2 then 0 else ch (src ! (i + 2))
           in do { js \<leftarrow> base64_put out (b64_alphabet ! drop_bit 2 a) js;
                   js \<leftarrow> base64_put out (b64_alphabet ! (push_bit 4 (a AND 3) OR drop_bit 4 b)) js;
                   js \<leftarrow> (if i + 1 < length src
                         then base64_put out (b64_alphabet ! (push_bit 2 (b AND 15) OR drop_bit 6 c)) js
                         else Some js);
                   js \<leftarrow> (if i + 2 < length src then base64_put out (b64_alphabet ! (c AND 63)) js else Some js);
                   base64_loop out src (i + 3) js }
      else Some js)"
  by pat_completeness auto
termination
  by (relation "measure (\<lambda>(out, src, i, js). length src - i)") auto

declare base64_loop.simps [simp del] base64_pad.simps [simp del]

definition base64_encode_body ::
  "(char \<Rightarrow> 's \<Rightarrow> 's option) \<Rightarrow> bytes \<Rightarrow> 's \<Rightarrow> (nat \<times> 's) option" where
  "base64_encode_body out src s =
     do { (j, s) \<leftarrow> base64_loop out src 0 (0, s); base64_pad out j s }"

text \<open>Into a block of \<open>cap\<close> bytes, and into a file.\<close>

definition dst_put :: "nat \<Rightarrow> char \<Rightarrow> bytes \<Rightarrow> bytes option" where
  "dst_put cap c dst = (if length dst < cap then Some (dst @ [c]) else None)"

definition cs_base64_encode :: "nat \<Rightarrow> bytes \<Rightarrow> bytes option" where
  "cs_base64_encode cap src =
     do { js \<leftarrow> base64_encode_body (dst_put cap) src [];
          (_, dst) \<leftarrow> base64_put (dst_put cap) NUL js;
          Some dst }"

definition cs_fprint_base64 :: "bytes \<Rightarrow> bytes \<Rightarrow> bytes option" where
  "cs_fprint_base64 f src = map_option snd (base64_encode_body (\<lambda>c f. Some (f @ [c])) src f)"

subsection \<open>Encoding in pieces\<close>

text \<open>
  \<open>struct cs_base64_ctx\<close>; the callback is a function on the user data, of any type.
\<close>

record 'u base64_ctx =
  b64_putc :: "char \<Rightarrow> 'u \<Rightarrow> 'u"
  chunk :: bytes
  chunk_size :: nat
  user_data :: 'u

definition b64_call :: "char \<Rightarrow> 'u base64_ctx \<Rightarrow> 'u base64_ctx" where
  "b64_call c ctx = ctx\<lparr>user_data := b64_putc ctx c (user_data ctx)\<rparr>"

definition cs_base64_emit_code :: "nat \<Rightarrow> 'u base64_ctx \<Rightarrow> 'u base64_ctx" where
  "cs_base64_emit_code v ctx =
     (if v < 26 then b64_call (char_of (v + ch CHR ''A'')) ctx
      else if v < 52 then b64_call (char_of (v - 26 + ch CHR ''a'')) ctx
      else if v < 62 then b64_call (char_of (v - 52 + ch CHR ''0'')) ctx
      else b64_call (if v - 52 - 10 = 0 then CHR ''+'' else CHR ''/'') ctx)"

definition cs_base64_emit_chunk :: "'u base64_ctx \<Rightarrow> 'u base64_ctx" where
  "cs_base64_emit_chunk ctx =
     (let a = ch (chunk ctx ! 0); b = ch (chunk ctx ! 1); c = ch (chunk ctx ! 2);
          ctx = cs_base64_emit_code (drop_bit 2 a) ctx;
          ctx = cs_base64_emit_code (push_bit 4 (a AND 3) OR drop_bit 4 b) ctx;
          ctx = (if 1 < chunk_size ctx
                 then cs_base64_emit_code (push_bit 2 (b AND 15) OR drop_bit 6 c) ctx else ctx)
      in if 2 < chunk_size ctx then cs_base64_emit_code (c AND 63) ctx else ctx)"

definition cs_base64_init :: "(char \<Rightarrow> 'u \<Rightarrow> 'u) \<Rightarrow> 'u \<Rightarrow> 'u base64_ctx \<Rightarrow> 'u base64_ctx" where
  "cs_base64_init putc u ctx = ctx\<lparr>chunk_size := 0, b64_putc := putc, user_data := u\<rparr>"

definition b64_push :: "char \<Rightarrow> 'u base64_ctx \<Rightarrow> 'u base64_ctx" where
  "b64_push c ctx =
     (let ctx = ctx\<lparr>chunk := (chunk ctx)[chunk_size ctx := c], chunk_size := chunk_size ctx + 1\<rparr>
      in if chunk_size ctx = 3 then (cs_base64_emit_chunk ctx)\<lparr>chunk_size := 0\<rparr> else ctx)"

definition cs_base64_update :: "bytes \<Rightarrow> 'u base64_ctx \<Rightarrow> 'u base64_ctx" where
  "cs_base64_update str ctx = fold b64_push str ctx"

fun b64_equals :: "nat \<Rightarrow> 'u base64_ctx \<Rightarrow> 'u base64_ctx" where
  "b64_equals 0 ctx = ctx"
| "b64_equals (Suc n) ctx = b64_equals n (b64_call CHR ''='' ctx)"

definition cs_base64_finish :: "'u base64_ctx \<Rightarrow> 'u base64_ctx" where
  "cs_base64_finish ctx =
     (if 0 < chunk_size ctx
      then let n = 3 - chunk_size ctx;
               ctx = ctx\<lparr>chunk := take (chunk_size ctx) (chunk ctx) @ replicate n NUL\<rparr>;
               ctx = cs_base64_emit_chunk ctx
           in b64_equals n ctx
      else ctx)"

subsection \<open>The decoder\<close>

definition b64_table :: "nat list" where
  "b64_table =
     replicate 43 255 @ [62, 255, 255, 255, 63] @ [52..<62] @ [255, 255, 255, 200, 255, 255, 255]
     @ [0..<26] @ replicate 6 255 @ [26..<52] @ replicate 5 255"

definition from_b64 :: "char \<Rightarrow> nat" where
  "from_b64 c = b64_table ! (ch c AND 127)"

text \<open>One round of the loop: the bytes it writes and whether it ends the loop.\<close>

definition decode_quad :: "nat \<Rightarrow> nat \<Rightarrow> nat \<Rightarrow> nat \<Rightarrow> bytes \<times> bool" where
  "decode_quad a b c d =
     (if a = 200 \<or> b = 200 then ([], True)
      else let x = char_of (push_bit 2 a OR drop_bit 4 b)
      in if c = 200 then ([x], True)
      else let y = char_of (push_bit 4 b OR drop_bit 2 c)
      in if d = 200 then ([x, y], True)
      else ([x, y, char_of (push_bit 6 c OR d)], False))"

function base64_decode_loop :: "bytes \<Rightarrow> bytes \<Rightarrow> bytes \<times> bytes" where
  "base64_decode_loop s dst =
     (if 4 \<le> length s \<and> (\<forall>i \<in> {0, 1, 2, 3}. from_b64 (s ! i) \<noteq> 255)
      then case decode_quad (from_b64 (s ! 0)) (from_b64 (s ! 1)) (from_b64 (s ! 2)) (from_b64 (s ! 3)) of
             (out, stop) \<Rightarrow> if stop then (drop 4 s, dst @ out) else base64_decode_loop (drop 4 s) (dst @ out)
      else (s, dst))"
  by pat_completeness auto
termination
  by (relation "measure (\<lambda>(s, dst). length s)") auto

declare base64_decode_loop.simps [simp del]

definition cs_base64_decode :: "bytes \<Rightarrow> nat \<times> bytes \<times> nat" where
  "cs_base64_decode s =
     (case base64_decode_loop s [] of (rest, dst) \<Rightarrow> (length s - length rest, dst @ [NUL], length dst))"

text \<open>The wrappers of \<open>mg_util.c\<close>.\<close>

definition mg_base64_encode :: "nat \<Rightarrow> bytes \<Rightarrow> bytes option" where
  "mg_base64_encode cap src = cs_base64_encode cap src"

definition mg_base64_decode :: "bytes \<Rightarrow> nat \<times> bytes" where
  "mg_base64_decode s = (case cs_base64_decode s of (n, dst, _) \<Rightarrow> (n, dst))"

subsection \<open>Reference\<close>

definition b64_group :: "char \<Rightarrow> char \<Rightarrow> char \<Rightarrow> bytes" where
  "b64_group a b c =
     (let n = ch a * 65536 + ch b * 256 + ch c
      in map ((!) b64_alphabet) [n div 262144, n div 4096 mod 64, n div 64 mod 64, n mod 64])"

fun base64_text :: "bytes \<Rightarrow> bytes" where
  "base64_text [] = []"
| "base64_text [a] = take 2 (b64_group a NUL NUL) @ ''==''"
| "base64_text [a, b] = take 3 (b64_group a b NUL) @ ''=''"
| "base64_text (a # b # c # s) = b64_group a b c @ base64_text s"

lemma push_or_add:
  fixes x y :: nat
  assumes "y < 2 ^ n"
  shows "push_bit n x OR y = x * 2 ^ n + y"
proof -
  have "\<not> bit y k" if "n \<le> k" for k
    using assms that by (metis bit_take_bit_iff linorder_not_less take_bit_nat_eq_self)
  then have "push_bit n x AND y = 0"
    by (intro bit_eqI) (auto simp: bit_simps linorder_not_le)
  then show ?thesis
    by (simp add: disjunctive_add_eq_or [symmetric] push_bit_eq_mult)
qed

lemma and_low_bits:
  fixes x :: nat
  shows "x AND 3 = x mod 4" "x AND 15 = x mod 16" "x AND 63 = x mod 64" "x AND 127 = x mod 128"
  using take_bit_eq_mask [of 2 x] take_bit_eq_mask [of 4 x] take_bit_eq_mask [of 6 x] take_bit_eq_mask [of 7 x]
  by (simp_all add: take_bit_eq_mod mask_eq_exp_minus_1)

lemma b64_indices:
  fixes a b c :: nat
  assumes "a < 256" "b < 256" "c < 256"
  defines "n \<equiv> a * 65536 + b * 256 + c"
  shows "drop_bit 2 a = n div 262144"
    and "push_bit 4 (a AND 3) OR drop_bit 4 b = n div 4096 mod 64"
    and "push_bit 2 (b AND 15) OR drop_bit 6 c = n div 64 mod 64"
    and "c AND 63 = n mod 64"
proof -
  have "b div 16 < 2 ^ 4" "c div 64 < 2 ^ 2" using assms by auto
  note or = push_or_add [OF this(1), of "a mod 4"] push_or_add [OF this(2), of "b mod 16"]
  define a1 a0 b1 b0 c1 c0 where "a1 = a div 4" "a0 = a mod 4" "b1 = b div 16" "b0 = b mod 16"
    "c1 = c div 64" "c0 = c mod 64"
  note parts = this
  have dec: "a = 4 * a1 + a0" "b = 16 * b1 + b0" "c = 64 * c1 + c0"
    unfolding parts by simp_all
  have lt: "a0 < 4" "b1 < 16" "b0 < 16" "c1 < 4" "c0 < 64" using assms unfolding parts by auto
  show "drop_bit 2 a = n div 262144" using assms by (simp add: drop_bit_eq_div)
  show "push_bit 4 (a AND 3) OR drop_bit 4 b = n div 4096 mod 64"
  proof -
    have "n = 4096 * (64 * a1 + 16 * a0 + b1) + (256 * b0 + c)" unfolding n_def dec by simp
    moreover have "256 * b0 + c < 4096" using lt assms(3) by linarith
    ultimately have "n div 4096 = 64 * a1 + (16 * a0 + b1)" by simp
    moreover have "16 * a0 + b1 < 64" using lt by linarith
    ultimately show ?thesis
      unfolding and_low_bits drop_bit_eq_div using or(1) by (simp add: parts)
  qed
  show "push_bit 2 (b AND 15) OR drop_bit 6 c = n div 64 mod 64"
  proof -
    have "n = 64 * (64 * (16 * a + b1) + (4 * b0 + c1)) + c0" unfolding n_def dec(2,3) by simp
    then have "n div 64 = 64 * (16 * a + b1) + (4 * b0 + c1)" using lt by simp
    moreover have "4 * b0 + c1 < 64" using lt by linarith
    ultimately have "n div 64 mod 64 = 4 * b0 + c1" by (simp only: mod_mult_self4 mod_less)
    then show ?thesis
      unfolding and_low_bits drop_bit_eq_div using or(2) by (simp add: parts)
  qed
  show "c AND 63 = n mod 64"
    using mod_mult_self3 [of "1024 * a + 4 * b" 64 c] unfolding n_def by (simp add: and_low_bits algebra_simps)
qed

subsection \<open>The encoder writes the reference\<close>

fun put_all :: "(char \<Rightarrow> 's \<Rightarrow> 's option) \<Rightarrow> bytes \<Rightarrow> nat \<times> 's \<Rightarrow> (nat \<times> 's) option" where
  "put_all out [] js = Some js"
| "put_all out (c # cs) js = Option.bind (base64_put out c js) (put_all out cs)"

lemma put_all_eta:
  "put_all out [] = Some"
  "put_all out (c # cs) = (\<lambda>js. Option.bind (base64_put out c js) (put_all out cs))"
  by (simp_all add: fun_eq_iff)

lemma put_all_append: "put_all out (cs @ ds) js = Option.bind (put_all out cs js) (put_all out ds)"
  by (induction cs arbitrary: js) (auto split: bind_splits)

lemma put_all_count: "put_all out cs js = Some js' \<Longrightarrow> fst js' = fst js + length cs"
  by (induction cs arbitrary: js) (auto simp: base64_put_def run_simps split: if_splits)

fun b64_body :: "bytes \<Rightarrow> bytes" where
  "b64_body [] = []"
| "b64_body [a] = take 2 (b64_group a NUL NUL)"
| "b64_body [a, b] = take 3 (b64_group a b NUL)"
| "b64_body (a # b # c # s) = b64_group a b c @ b64_body s"

lemma b64_group_unfold:
  "b64_group a b c =
     [b64_alphabet ! drop_bit 2 (ch a),
      b64_alphabet ! (push_bit 4 (ch a AND 3) OR drop_bit 4 (ch b)),
      b64_alphabet ! (push_bit 2 (ch b AND 15) OR drop_bit 6 (ch c)),
      b64_alphabet ! (ch c AND 63)]"
  unfolding b64_group_def Let_def list.map
  by (simp only: b64_indices [OF of_char_lt_256 [of a] of_char_lt_256 [of b] of_char_lt_256 [of c]])

lemma length_b64_group [simp]: "length (b64_group a b c) = 4"
  by (simp add: b64_group_def Let_def)

lemma base64_loop_eq: "base64_loop out src i js = put_all out (b64_body (drop i src)) js"
proof (induction out src i js rule: base64_loop.induct)
  case (1 out src i js)
  show ?case
  proof (cases "i < length src")
    case False
    then show ?thesis by (simp add: base64_loop.simps [of out src i])
  next
    case True
    then consider "drop i src = [src ! i]" "length src = i + 1"
      | "drop i src = [src ! i, src ! (i + 1)]" "length src = i + 2"
      | "drop i src = src ! i # src ! (i + 1) # src ! (i + 2) # drop (i + 3) src" "i + 2 < length src"
      by (smt (verit) Cons_nth_drop_Suc One_nat_def Suc_1 Suc_eq_plus1 add_2_eq_Suc' drop_all linorder_not_le
          not_less_eq_eq numeral_3_eq_3 add_Suc_right le_antisym less_or_eq_imp_le linorder_neqE_nat)
    then show ?thesis
    proof cases
      case 1
      then show ?thesis
        by (simp add: base64_loop.simps [of out src i] base64_loop.simps [of out src "i + 3"]
            b64_group_unfold put_all_eta Let_def)
    next
      case 2
      then show ?thesis
        by (simp add: base64_loop.simps [of out src i] base64_loop.simps [of out src "i + 3"]
            b64_group_unfold put_all_eta Let_def)
    next
      case 3
      note IH = "1.IH" [OF True refl refl refl]
      from 3 show ?thesis
        by (simp add: base64_loop.simps [of out src i] IH b64_group_unfold put_all_eta Let_def
            cong: Option.bind_cong)
    qed
  qed
qed

lemma base64_pad_eq: "base64_pad out j s = put_all out (replicate ((4 - j mod 4) mod 4) CHR ''='') (j, s)"
proof (induction out j s rule: base64_pad.induct)
  case (1 out j s)
  show ?case
  proof (cases "j mod 4 = 0")
    case True
    then show ?thesis by (simp add: base64_pad.simps [of out j])
  next
    case False
    then have suc: "(4 - j mod 4) mod 4 = Suc ((4 - (j + 1) mod 4) mod 4)"
      by (cases "j mod 4 = 3") (auto simp: mod_Suc)
    show ?thesis
    proof (cases "base64_put out CHR ''='' (j, s)")
      case None
      then show ?thesis using False suc by (simp add: base64_pad.simps [of out j])
    next
      case (Some js)
      then obtain s' where "js = (j + 1, s')" by (auto simp: base64_put_def split: if_splits)
      then show ?thesis using False suc Some "1.IH" [OF False Some] by (simp add: base64_pad.simps [of out j])
    qed
  qed
qed

lemma base64_text_body:
  "base64_text src = b64_body src @ replicate ((4 - length (b64_body src) mod 4) mod 4) CHR ''=''"
  by (induction src rule: b64_body.induct) (simp_all add: numeral_2_eq_2)

lemma base64_encode_body_eq: "base64_encode_body out src s = put_all out (base64_text src) (0, s)"
  by (auto simp: base64_encode_body_def base64_loop_eq base64_pad_eq base64_text_body put_all_append
      dest!: put_all_count split: bind_splits intro!: Option.bind_cong)

lemma put_all_dst:
  "length dst \<le> cap \<Longrightarrow> int (length dst) \<le> INT_MAX \<Longrightarrow>
   put_all (dst_put cap) cs (length dst, dst) =
     (if length dst + length cs \<le> cap \<and> int (length dst + length cs) \<le> INT_MAX
      then Some (length dst + length cs, dst @ cs) else None)"
proof (induction cs arbitrary: dst)
  case (Cons c cs)
  show ?case
    using Cons.IH [of "dst @ [c]"] Cons.prems by (simp add: base64_put_def dst_put_def)
qed simp

lemma length_base64_text: "length (base64_text src) = 4 * ((length src + 2) div 3)"
proof (induction src rule: base64_text.induct)
  case (4 a b c s)
  moreover have "(length (a # b # c # s) + 2) div 3 = (length s + 2) div 3 + 1" by simp
  ultimately show ?case by simp
qed simp_all

text \<open>The whole encoder: it has room and stays in the range of \<open>int\<close>, or has no defined behaviour.\<close>

theorem cs_base64_encode_eq:
  "cs_base64_encode cap src =
     (let n = 4 * ((length src + 2) div 3) + 1
      in if n \<le> cap \<and> int n \<le> INT_MAX then Some (base64_text src @ [NUL]) else None)"
  using put_all_dst [of "[]" cap "base64_text src"]
  by (auto simp: cs_base64_encode_def base64_encode_body_eq base64_put_def dst_put_def length_base64_text
      Let_def INT_MAX_def)

subsection \<open>The streaming encoder\<close>

lemma b64_call_fields [simp]:
  "b64_putc (b64_call c ctx) = b64_putc ctx" "chunk (b64_call c ctx) = chunk ctx"
  "chunk_size (b64_call c ctx) = chunk_size ctx"
  "user_data (b64_call c ctx) = b64_putc ctx c (user_data ctx)"
  by (simp_all add: b64_call_def)

lemma emit_code_alphabet: "v < 64 \<Longrightarrow> cs_base64_emit_code v ctx = b64_call (b64_alphabet ! v) ctx"
proof -
  assume "v < 64"
  have "\<forall>v < 64. (if v < 26 then char_of (v + ch CHR ''A'')
      else if v < 52 then char_of (v - 26 + ch CHR ''a'')
      else if v < 62 then char_of (v - 52 + ch CHR ''0'')
      else if v - 52 - 10 = 0 then CHR ''+'' else CHR ''/'') = b64_alphabet ! v"
    unfolding b64_alphabet_def by code_simp
  with \<open>v < 64\<close> show ?thesis by (auto simp: cs_base64_emit_code_def)
qed

lemma from_b64_alphabet: "v < 64 \<Longrightarrow> from_b64 (b64_alphabet ! v) = v"
proof -
  have "map (\<lambda>c. ch c mod 128) b64_alphabet = [65..<91] @ [97..<123] @ [48..<58] @ [43, 47]"
    unfolding b64_alphabet_def by code_simp
  moreover have "map ((!) b64_table) ([65..<91] @ [97..<123] @ [48..<58] @ [43, 47]) = [0..<64]"
    unfolding b64_table_def by code_simp
  ultimately have "map from_b64 b64_alphabet = [0..<64]"
    by (metis (no_types, lifting) and_low_bits(4) from_b64_def list.map_comp list.map_cong0 comp_apply)
  then show "v < 64 \<Longrightarrow> ?thesis"
    by (metis diff_zero length_map length_upt nth_map nth_upt plus_nat.add_0)
qed

lemma fold_b64_call: "fold b64_call cs ctx = ctx\<lparr>user_data := fold (b64_putc ctx) cs (user_data ctx)\<rparr>"
  by (induction cs arbitrary: ctx) (simp_all add: b64_call_def)

lemma group_indices_lt:
  "drop_bit 2 (ch a) < 64" "push_bit 4 (ch a AND 3) OR drop_bit 4 (ch b) < 64"
  "push_bit 2 (ch b AND 15) OR drop_bit 6 (ch c) < 64" "ch c AND 63 < 64"
  unfolding b64_indices [OF of_char_lt_256 [of a] of_char_lt_256 [of b] of_char_lt_256 [of c]]
    b64_indices(1) [OF of_char_lt_256 [of a] of_char_lt_256 [of b] of_char_lt_256 [of c]]
  using of_char_lt_256 [of a] of_char_lt_256 [of b] of_char_lt_256 [of c]
  by (simp_all add: div_less_iff_less_mult del: of_char_lt_256)

lemma emit_chunk_eq:
  assumes "chunk ctx = [a, b, c]" "chunk_size ctx \<in> {1, 2, 3}"
  shows "cs_base64_emit_chunk ctx = fold b64_call (take (chunk_size ctx + 1) (b64_group a b c)) ctx"
  using assms(2)
  by (elim insertE emptyE)
    (simp_all add: cs_base64_emit_chunk_def assms(1) emit_code_alphabet group_indices_lt b64_group_unfold Let_def
      del: push_bit_and)

definition b64_inv :: "'u base64_ctx \<Rightarrow> bool" where
  "b64_inv ctx \<longleftrightarrow> length (chunk ctx) = 3 \<and> chunk_size ctx < 3"

lemma b64_inv_cases:
  assumes "b64_inv ctx"
  obtains a b c where "chunk ctx = [a, b, c]" "chunk_size ctx \<in> {0, 1, 2}"
proof -
  from assms have "length (chunk ctx) = 3" "chunk_size ctx \<in> {0, 1, 2}" by (auto simp: b64_inv_def)
  with that show thesis by (auto simp: numeral_3_eq_3 length_Suc_conv)
qed

lemma finish_eq:
  assumes "b64_inv ctx"
  shows "user_data (cs_base64_finish ctx) =
           fold (b64_putc ctx) (base64_text (take (chunk_size ctx) (chunk ctx))) (user_data ctx)"
proof (rule b64_inv_cases [OF assms])
  fix a b c
  assume *: "chunk ctx = [a, b, c]" "chunk_size ctx \<in> {0, 1, 2}"
  then show ?thesis
    by (elim insertE emptyE)
      (simp_all add: cs_base64_finish_def emit_chunk_eq fold_b64_call eval_nat_numeral Let_def)
qed

lemma push_eq:
  assumes "b64_inv ctx"
  shows "b64_inv (b64_push x ctx)" "b64_putc (b64_push x ctx) = b64_putc ctx"
    "fold (b64_putc ctx) (base64_text (take (chunk_size (b64_push x ctx)) (chunk (b64_push x ctx)) @ str))
       (user_data (b64_push x ctx)) =
     fold (b64_putc ctx) (base64_text (take (chunk_size ctx) (chunk ctx) @ x # str)) (user_data ctx)"
proof (atomize (full), rule b64_inv_cases [OF assms])
  fix a b c
  assume *: "chunk ctx = [a, b, c]" "chunk_size ctx \<in> {0, 1, 2}"
  then show "b64_inv (b64_push x ctx) \<and> b64_putc (b64_push x ctx) = b64_putc ctx \<and>
    fold (b64_putc ctx) (base64_text (take (chunk_size (b64_push x ctx)) (chunk (b64_push x ctx)) @ str))
       (user_data (b64_push x ctx)) =
     fold (b64_putc ctx) (base64_text (take (chunk_size ctx) (chunk ctx) @ x # str)) (user_data ctx)"
    by (elim insertE emptyE)
      (simp_all add: b64_push_def b64_inv_def emit_chunk_eq fold_b64_call numeral_2_eq_2 Let_def)
qed

lemma update_finish:
  "b64_inv ctx \<Longrightarrow>
   user_data (cs_base64_finish (cs_base64_update str ctx)) =
     fold (b64_putc ctx) (base64_text (take (chunk_size ctx) (chunk ctx) @ str)) (user_data ctx)"
proof (induction str arbitrary: ctx)
  case Nil
  then show ?case by (simp add: cs_base64_update_def finish_eq)
next
  case (Cons x str)
  show ?case
    using Cons.IH [OF push_eq(1) [OF Cons.prems]] push_eq [OF Cons.prems]
    by (simp add: cs_base64_update_def)
qed

lemma cs_base64_update_append:
  "cs_base64_update (s @ t) ctx = cs_base64_update t (cs_base64_update s ctx)"
  by (simp add: cs_base64_update_def)

lemma fold_update: "fold cs_base64_update parts ctx = cs_base64_update (concat parts) ctx"
  by (induction parts arbitrary: ctx) (simp_all add: cs_base64_update_append, simp add: cs_base64_update_def)

text \<open>
  C19. Feeding the encoder with any pieces gives the callback the characters that the encoder of
  whole blocks writes for the concatenation of the pieces, in the same order, whatever the
  callback does with them; the terminator is not passed on.
\<close>

theorem streamed_encoding:
  assumes "length (chunk ctx) = 3"
    and "cs_base64_encode cap (concat parts) = Some dst"
  shows "user_data (cs_base64_finish (fold cs_base64_update parts (cs_base64_init putc u ctx))) =
           fold putc (butlast dst) u"
proof -
  have inv: "b64_inv (cs_base64_init putc u ctx)"
    using assms(1) by (simp add: b64_inv_def cs_base64_init_def)
  moreover have "butlast dst = base64_text (concat parts)"
    using assms(2) by (auto simp: cs_base64_encode_eq Let_def split: if_splits)
  ultimately show ?thesis
    using update_finish [OF inv, of "concat parts"] by (simp add: fold_update cs_base64_init_def)
qed

lemma encode_hello: "cs_base64_encode 9 ''hello'' = Some (base64_text ''hello'' @ [NUL])"
  by (simp add: cs_base64_encode_eq INT_MAX_def)

lemma streamed_encoding_witness:
  "user_data (cs_base64_finish (fold cs_base64_update [''he'', [], ''llo'']
     (cs_base64_init (\<lambda>c u. u + ch c) 0
       \<lparr>b64_putc = (\<lambda>c u. u), chunk = ''xyz'', chunk_size = 2, user_data = 0\<rparr>))) =
   fold (\<lambda>c u. u + ch c) (butlast (base64_text ''hello'' @ [NUL])) 0"
  by (rule streamed_encoding [where cap = 9]) (simp_all add: encode_hello)

subsection \<open>Decoding\<close>

lemma from_b64_equals [simp]: "from_b64 CHR ''='' = 200"
  unfolding from_b64_def b64_table_def by code_simp

lemma decode_group:
  fixes a b c :: char
  defines "n \<equiv> ch a * 65536 + ch b * 256 + ch c"
  shows "char_of (push_bit 2 (n div 262144) OR drop_bit 4 (n div 4096 mod 64)) = a"
    and "char_of (push_bit 4 (n div 4096 mod 64) OR drop_bit 2 (n div 64 mod 64)) = b"
    and "char_of (push_bit 6 (n div 64 mod 64) OR n mod 64) = c"
proof -
  have split: "y * (x div y mod z) + x mod y = x mod (y * z)" for x y z :: nat
    by (simp add: mod_mult2_eq)
  have shift: "x div y mod (z * w) div z = x div (y * z) mod w" for x y z w :: nat
    by (cases "z = 0") (simp_all add: div_mult2_eq mod_mult2_eq)
  have n: "n div 65536 = ch a" "n div 256 mod 256 = ch b" "n mod 256 = ch c"
  proof -
    have "n = ch c + 256 * (ch b + 256 * ch a)" unfolding n_def by simp
    then have "n div 256 = ch b + 256 * ch a" "n mod 256 = ch c" by (simp_all del: distrib_left_numeral)
    moreover from this(1) have "n div 256 div 256 = ch a" "n div 256 mod 256 = ch b" by simp_all
    ultimately show "n div 65536 = ch a" "n div 256 mod 256 = ch b" "n mod 256 = ch c"
      by (simp_all add: div_mult2_eq [of n 256 256, simplified])
  qed
  have 1: "drop_bit 4 (n div 4096 mod 64) = n div 65536 mod 4"
    using shift [of n 4096 16 4] by (simp add: drop_bit_eq_div)
  have 2: "drop_bit 2 (n div 64 mod 64) = n div 256 mod 16"
    using shift [of n 64 4 16] by (simp add: drop_bit_eq_div)
  have "push_bit 2 (n div 262144) OR drop_bit 4 (n div 4096 mod 64) = n div 65536"
    unfolding 1 using push_or_add [of "n div 65536 mod 4" 2 "n div 262144"]
    by (simp add: div_mult2_eq [of n 65536 4, simplified])
  then show "char_of (push_bit 2 (n div 262144) OR drop_bit 4 (n div 4096 mod 64)) = a"
    by (simp add: n)
  have "push_bit 4 (n div 4096 mod 64) OR drop_bit 2 (n div 64 mod 64) = n div 256 mod 1024"
    unfolding 2 using push_or_add [of "n div 256 mod 16" 4 "n div 4096 mod 64"] split [of 16 "n div 256" 64]
    by (simp add: div_mult2_eq [of n 256 16, simplified])
  moreover have "n div 256 mod 1024 mod 256 = ch b"
    using n(2) by (simp add: mod_mod_cancel)
  ultimately show "char_of (push_bit 4 (n div 4096 mod 64) OR drop_bit 2 (n div 64 mod 64)) = b"
    by (simp add: char_of_eq_iff take_bit_eq_mod)
  have "push_bit 6 (n div 64 mod 64) OR n mod 64 = n mod 4096"
    using push_or_add [of "n mod 64" 6 "n div 64 mod 64"] split [of 64 n 64] by simp
  moreover have "n mod 4096 mod 256 = ch c" using n(3) by (simp add: mod_mod_cancel)
  ultimately show "char_of (push_bit 6 (n div 64 mod 64) OR n mod 64) = c"
    by (simp add: char_of_eq_iff take_bit_eq_mod)
qed

lemma group_decodes:
  obtains P Q R S where "b64_group a b c = [P, Q, R, S]"
    "from_b64 P < 64" "from_b64 Q < 64" "from_b64 R < 64" "from_b64 S < 64"
    "char_of (push_bit 2 (from_b64 P) OR drop_bit 4 (from_b64 Q)) = a"
    "char_of (push_bit 4 (from_b64 Q) OR drop_bit 2 (from_b64 R)) = b"
    "char_of (push_bit 6 (from_b64 R) OR from_b64 S) = c"
proof -
  define n where "n = ch a * 65536 + ch b * 256 + ch c"
  have "n div 262144 < 64"
    using of_char_lt_256 [of a] of_char_lt_256 [of b] of_char_lt_256 [of c] unfolding n_def
    by (simp add: div_less_iff_less_mult del: of_char_lt_256)
  with decode_group [of a b c, folded n_def] show thesis
    by (intro that [of "b64_alphabet ! (n div 262144)" "b64_alphabet ! (n div 4096 mod 64)"
          "b64_alphabet ! (n div 64 mod 64)" "b64_alphabet ! (n mod 64)"])
      (simp_all add: b64_group_def from_b64_alphabet Let_def flip: n_def)
qed

lemma decode_text: "base64_decode_loop (base64_text src) dst = ([], dst @ src)"
proof (induction src arbitrary: dst rule: base64_text.induct)
  case 1
  then show ?case by (simp add: base64_decode_loop.simps)
next
  case (2 a)
  show ?case
    by (rule group_decodes [of a NUL NUL])
      (simp add: base64_decode_loop.simps [of "_ # _"] decode_quad_def numeral_2_eq_2)
next
  case (3 a b)
  show ?case
    by (rule group_decodes [of a b NUL])
      (simp add: base64_decode_loop.simps [of "_ # _"] decode_quad_def numeral_3_eq_3)
next
  case (4 a b c s)
  show ?case
    by (rule group_decodes [of a b c])
      (simp add: base64_decode_loop.simps [of "_ # _"] decode_quad_def "4.IH")
qed

text \<open>
  C18. Whatever block the encoder has written, the decoder reads it to its end and gives back the
  source, of every length and with every byte, followed by a terminator.
\<close>

theorem base64_round:
  assumes "cs_base64_encode cap src = Some dst"
  shows "cs_base64_decode (butlast dst) = (length dst - 1, src @ [NUL], length src)"
  using assms
  by (auto simp: cs_base64_encode_eq cs_base64_decode_def decode_text Let_def split: if_splits)

lemma base64_round_witness:
  "cs_base64_decode (butlast (base64_text ''hello'' @ [NUL])) = (8, ''hello'' @ [NUL], 5)"
  using base64_round [OF encode_hello] by (simp add: length_base64_text)

text \<open>
  The decoder looks at the low seven bits of a byte only, so bytes that are not ASCII are digits,
  and it does not ask that the bits behind the last byte are zero.
\<close>

lemma decode_not_ascii: "cs_base64_decode [CHR 0xD1, CHR ''Q'', CHR ''='', CHR ''=''] = cs_base64_decode ''QQ==''"
  by code_simp

lemma decode_loose: "cs_base64_decode ''QR=='' = cs_base64_decode ''QQ==''"
  by code_simp

lemma decode_length: "length (snd (base64_decode_loop s dst)) \<le> length dst + 3 * (length s div 4)"
proof (induction s dst rule: base64_decode_loop.induct)
  case (1 s dst)
  show ?case
  proof (cases "4 \<le> length s \<and> (\<forall>i \<in> {0, 1, 2, 3}. from_b64 (s ! i) \<noteq> 255)")
    case False
    then show ?thesis by (subst base64_decode_loop.simps) auto
  next
    case True
    obtain out stop where q:
      "decode_quad (from_b64 (s ! 0)) (from_b64 (s ! 1)) (from_b64 (s ! 2)) (from_b64 (s ! 3)) = (out, stop)"
      by fastforce
    then have "length out \<le> 3" by (auto simp: decode_quad_def Let_def split: if_splits)
    moreover have "length s div 4 = Suc ((length s - 4) div 4)" using True by (simp add: le_div_geq)
    ultimately show ?thesis
      using True q "1.IH" [OF True q [symmetric]]
      by (cases stop) (simp_all add: base64_decode_loop.simps [of s])
  qed
qed

end
