(* ===== verification/MgStr.thy ===== *)
theory MgStr
  imports MgBase64
begin

unbundle bit_operations_syntax

section \<open>Mongoose: strings with a length\<close>

text \<open>
  \<open>mg_str.c\<close> and \<open>str_util.c\<close>, as they are amalgamated into \<open>mongoose.c\<close>: strings that carry their
  length, comparison, searching, hexadecimal text, comma separated lists and patterns.  A string is
  the bytes it spans; an argument that C ends with a terminator is a block, of which the functions
  see \<open>c_str\<close>.  The patterns are related to the syntax that \<open>mongoose.h\<close> documents, as an inductive
  relation.
\<close>

text \<open>A \<open>char\<close> as the \<open>int\<close> it is converted to; \<open>sc\<close> says whether \<open>char\<close> is signed.\<close>

definition char_int :: "bool \<Rightarrow> char \<Rightarrow> int" where
  "char_int sc c = (if sc \<and> 128 \<le> ch c then int (ch c) - 256 else int (ch c))"

lemma char_int_inj [simp]: "char_int sc c = char_int sc d \<longleftrightarrow> c = d"
  using of_char_lt_256 [of c] of_char_lt_256 [of d] by (auto simp: char_int_def byte_simps simp del: of_char_lt_256)

definition isspace :: "char \<Rightarrow> bool" where
  "isspace c \<longleftrightarrow> c = CHR '' '' \<or> 9 \<le> ch c \<and> ch c \<le> 13"

definition isxdigit :: "char \<Rightarrow> bool" where
  "isxdigit c \<longleftrightarrow> is_digit c \<or> 97 \<le> ch (tolower c) \<and> ch (tolower c) \<le> 102"

definition isalnum :: "char \<Rightarrow> bool" where
  "isalnum c \<longleftrightarrow> is_digit c \<or> 97 \<le> ch (tolower c) \<and> ch (tolower c) \<le> 122"

definition isprint :: "char \<Rightarrow> bool" where
  "isprint c \<longleftrightarrow> 32 \<le> ch c \<and> ch c < 127"

text \<open>\<open>struct mg_str\<close>: \<open>None\<close> for a null pointer of length zero.\<close>

type_synonym mg_str = "bytes option"

definition span :: "mg_str \<Rightarrow> bytes" where
  "span s = (case s of None \<Rightarrow> [] | Some b \<Rightarrow> b)"

definition mg_mk_str :: "bytes option \<Rightarrow> mg_str" where
  "mg_mk_str s = map_option c_str s"

definition mg_mk_str_n :: "bytes \<Rightarrow> nat \<Rightarrow> mg_str option" where
  "mg_mk_str_n s n = (if n \<le> length s then Some (Some (take n s)) else None)"

definition SIZE_MAX :: nat where
  "SIZE_MAX = 2 ^ 64 - 1"

text \<open>The conversion of a difference of two sizes to \<open>int\<close>.\<close>

definition size_diff :: "nat \<Rightarrow> nat \<Rightarrow> int" where
  "size_diff m n = sint (word_of_int (int m - int n) :: 32 word)"

fun ncase_loop :: "bytes \<Rightarrow> bytes \<Rightarrow> nat \<Rightarrow> int option" where
  "ncase_loop (c # s) (d # t) n =
     (let diff = int (ch (tolower c)) - int (ch (tolower d))
      in if diff = 0 \<and> c \<noteq> NUL \<and> 1 < n then ncase_loop s t (n - 1) else Some diff)"
| "ncase_loop s t n = None"

text \<open>\<open>None\<close>: a byte outside the two objects is read.\<close>

definition mg_ncasecmp :: "bytes \<Rightarrow> bytes \<Rightarrow> nat \<Rightarrow> int option" where
  "mg_ncasecmp s t n = (if 0 < n then ncase_loop s t n else Some 0)"

definition mg_casecmp :: "bytes \<Rightarrow> bytes \<Rightarrow> int option" where
  "mg_casecmp s t = mg_ncasecmp (c_str s @ [NUL]) (c_str t @ [NUL]) SIZE_MAX"

definition mg_vcmp :: "bytes \<Rightarrow> bytes \<Rightarrow> int" where
  "mg_vcmp s t =
     (let n2 = length (c_str t); n1 = length s; n = min n1 n2;
          r = strcmp_aux (c_str (take n s)) (take n (c_str t))
      in if r = 0 then size_diff n1 n2 else r)"

definition mg_vcasecmp :: "bytes \<Rightarrow> bytes \<Rightarrow> int option" where
  "mg_vcasecmp s t =
     (let n2 = length (c_str t); n1 = length s
      in case mg_ncasecmp s (c_str t @ [NUL]) (min n1 n2) of
           None \<Rightarrow> None
         | Some r \<Rightarrow> Some (if r = 0 then size_diff n1 n2 else r))"

text \<open>The copy: its block and its length.\<close>

definition mg_strdup_common :: "mg_str \<Rightarrow> bool \<Rightarrow> heap \<Rightarrow> (bytes option \<times> nat) \<times> heap" where
  "mg_strdup_common s nul_terminate h =
     (case s of
        Some b \<Rightarrow>
          if 0 < length b
          then let (ok, h) = malloc h
               in if ok then ((Some (b @ (if nul_terminate then [NUL] else [])), length b), h)
                  else ((None, 0), h)
          else ((None, 0), h)
      | None \<Rightarrow> ((None, 0), h))"

definition mg_strdup :: "mg_str \<Rightarrow> heap \<Rightarrow> (bytes option \<times> nat) \<times> heap" where
  "mg_strdup s h = mg_strdup_common s False h"

definition mg_strdup_nul :: "mg_str \<Rightarrow> heap \<Rightarrow> (bytes option \<times> nat) \<times> heap" where
  "mg_strdup_nul s h = mg_strdup_common s True h"

text \<open>The index of the first byte with that value.\<close>

fun strchr_from :: "bool \<Rightarrow> nat \<Rightarrow> bytes \<Rightarrow> int \<Rightarrow> nat option" where
  "strchr_from sc i [] c = None"
| "strchr_from sc i (x # s) c = (if char_int sc x = c then Some i else strchr_from sc (i + 1) s c)"

definition mg_strchr :: "bool \<Rightarrow> bytes \<Rightarrow> int \<Rightarrow> nat option" where
  "mg_strchr sc s c = strchr_from sc 0 s c"

fun mg_strcmp :: "bool \<Rightarrow> bytes \<Rightarrow> bytes \<Rightarrow> int" where
  "mg_strcmp sc (c # s) (d # t) =
     (if char_int sc c < char_int sc d then -1 else if char_int sc d < char_int sc c then 1 else mg_strcmp sc s t)"
| "mg_strcmp sc (c # s) [] = 1"
| "mg_strcmp sc [] (d # t) = -1"
| "mg_strcmp sc [] [] = 0"

definition mg_strncmp :: "bool \<Rightarrow> bytes \<Rightarrow> bytes \<Rightarrow> nat \<Rightarrow> int" where
  "mg_strncmp sc s t n = mg_strcmp sc (if n < length s then take n s else s) (if n < length t then take n t else t)"

fun mg_strcasecmp :: "bool \<Rightarrow> bytes \<Rightarrow> bytes \<Rightarrow> int" where
  "mg_strcasecmp sc (c # s) (d # t) =
     (let c1 = char_int sc (tolower c); c2 = char_int sc (tolower d)
      in if c1 < c2 then -1 else if c2 < c1 then 1 else mg_strcasecmp sc s t)"
| "mg_strcasecmp sc (c # s) [] = 1"
| "mg_strcasecmp sc [] (d # t) = -1"
| "mg_strcasecmp sc [] [] = 0"

definition mg_strfree :: "mg_str \<Rightarrow> heap \<Rightarrow> mg_str \<times> heap" where
  "mg_strfree s h = (None, if s \<noteq> None then dealloc h else h)"

fun strstr_from :: "nat \<Rightarrow> nat \<Rightarrow> bytes \<Rightarrow> bytes \<Rightarrow> nat option" where
  "strstr_from 0 i h n = None"
| "strstr_from (Suc k) i h n =
     (if take (length n) h = n then Some i else strstr_from k (i + 1) (drop 1 h) n)"

definition mg_strstr :: "bytes \<Rightarrow> bytes \<Rightarrow> nat option" where
  "mg_strstr haystack needle =
     (if length haystack < length needle then None
      else strstr_from (length haystack - length needle + 1) 0 haystack needle)"

fun strip_end :: "nat \<Rightarrow> bytes \<Rightarrow> bytes" where
  "strip_end 0 s = []"
| "strip_end (Suc n) s = (if isspace (s ! n) then strip_end n s else take (Suc n) s)"

fun mg_strstrip :: "bytes \<Rightarrow> bytes" where
  "mg_strstrip [] = []"
| "mg_strstrip (c # s) = (if isspace c then mg_strstrip s else strip_end (length (c # s)) (c # s))"

definition mg_str_starts_with :: "bool \<Rightarrow> bytes \<Rightarrow> bytes \<Rightarrow> bool" where
  "mg_str_starts_with sc s p \<longleftrightarrow> \<not> length s < length p \<and> mg_strcmp sc (take (length p) s) p = 0"

function strnlen_from :: "bytes \<Rightarrow> nat \<Rightarrow> nat \<Rightarrow> nat option" where
  "strnlen_from s l n =
     (if l < n
      then case rd s l of None \<Rightarrow> None | Some c \<Rightarrow> if c \<noteq> NUL then strnlen_from s (l + 1) n else Some l
      else Some l)"
  by pat_completeness auto
termination
  by (relation "measure (\<lambda>(s, l, n). n - l)") auto

declare strnlen_from.simps [simp del]

definition c_strnlen :: "bytes \<Rightarrow> nat \<Rightarrow> nat option" where
  "c_strnlen s maxlen = strnlen_from s 0 maxlen"

text \<open>\<open>c_strnstr\<close> on a block that carries a terminator.\<close>

function strnstr_from :: "bytes \<Rightarrow> bytes \<Rightarrow> nat \<Rightarrow> nat \<Rightarrow> nat option" where
  "strnstr_from s needle i slen =
     (if i < slen
      then if slen < i + length needle then None
           else if strncmp_eq (drop i s) needle (length needle) then Some i
           else strnstr_from s needle (i + 1) slen
      else None)"
  by pat_completeness auto
termination
  by (relation "measure (\<lambda>(s, needle, i, slen). slen - i)") auto

declare strnstr_from.simps [simp del]

definition c_strnstr :: "bytes \<Rightarrow> bytes \<Rightarrow> nat \<Rightarrow> nat option" where
  "c_strnstr s needle slen = strnstr_from s (c_str needle) 0 slen"

subsection \<open>Hexadecimal\<close>

definition hex_digits :: bytes where
  "hex_digits = ''0123456789abcdef''"

fun cs_to_hex :: "bytes \<Rightarrow> bytes" where
  "cs_to_hex [] = [NUL]"
| "cs_to_hex (c # p) = hex_digits ! drop_bit 4 (ch c) # hex_digits ! (ch c AND 15) # cs_to_hex p"

definition fourbit :: "char \<Rightarrow> nat" where
  "fourbit c =
     (if ch CHR ''0'' \<le> ch c \<and> ch c \<le> ch CHR ''9'' then ch c - ch CHR ''0''
      else if ch CHR ''a'' \<le> ch c \<and> ch c \<le> ch CHR ''f'' then ch c - ch CHR ''a'' + 10
      else if ch CHR ''A'' \<le> ch c \<and> ch c \<le> ch CHR ''F'' then ch c - ch CHR ''A'' + 10
      else 0)"

text \<open>With an odd length the loop reads one byte more than \<open>len\<close>.\<close>

function from_hex_loop :: "bytes \<Rightarrow> nat \<Rightarrow> nat \<Rightarrow> bytes option" where
  "from_hex_loop p i n =
     (if i < n
      then do { a \<leftarrow> rd p i; b \<leftarrow> rd p (i + 1); r \<leftarrow> from_hex_loop p (i + 2) n;
                Some (char_of (push_bit 4 (fourbit a) + fourbit b) # r) }
      else Some [NUL])"
  by pat_completeness auto
termination
  by (relation "measure (\<lambda>(p, i, n). n - i)") auto

declare from_hex_loop.simps [simp del]

definition cs_from_hex :: "bytes \<Rightarrow> nat \<Rightarrow> bytes option" where
  "cs_from_hex p n = from_hex_loop p 0 n"

subsection \<open>Lists separated by commas\<close>

text \<open>
  The entry, what is behind its equals sign (\<open>None\<close> for a null pointer), and the rest of the list;
  \<open>None\<close> at the end of the list.
\<close>

definition mg_next_comma_list_entry_n ::
  "bool \<Rightarrow> mg_str \<Rightarrow> bool \<Rightarrow> (bytes \<times> bytes option \<times> bytes) option" where
  "mg_next_comma_list_entry_n sc list want_eq =
     (if length (span list) = 0 then None
      else let l = span list;
               (v, rest) = (case mg_strchr sc l (ch CHR '','') of
                              Some k \<Rightarrow> (take k l, drop (k + 1) l)
                            | None \<Rightarrow> (l, []));
               (v, eq) = (if want_eq
                          then case mg_strchr sc v (ch CHR ''='') of
                                 Some k \<Rightarrow> (take k v, Some (drop (k + 1) v))
                               | None \<Rightarrow> (v, None)
                          else (v, None))
           in Some (v, eq, rest))"

definition mg_next_comma_list_entry :: "bool \<Rightarrow> bytes option \<Rightarrow> bool \<Rightarrow> (bytes \<times> bytes option \<times> bytes) option" where
  "mg_next_comma_list_entry sc list want_eq = mg_next_comma_list_entry_n sc (mg_mk_str list) want_eq"

subsection \<open>Patterns\<close>

text \<open>The first bar, and if there is none the first comma, divides a pattern.\<close>

definition alternatives :: "bytes \<Rightarrow> (bytes \<times> bytes) option" where
  "alternatives p =
     (let cut = (\<lambda>c. let a = takeWhile (\<lambda>x. x \<noteq> c) p in (a, drop (length a + 1) p))
      in if CHR ''|'' \<in> set p then Some (cut CHR ''|'')
         else if CHR '','' \<in> set p then Some (cut CHR '','') else None)"

lemma alternatives_length:
  assumes "alternatives p = Some (a, b)"
  shows "length a < length p" "length b < length p"
proof -
  obtain c where c: "c \<in> set p" "a = takeWhile (\<lambda>x. x \<noteq> c) p" "b = drop (length a + 1) p"
    using assms by (auto simp: alternatives_def Let_def split: if_splits)
  have "length (takeWhile (\<lambda>x. x \<noteq> c) p) < length p"
    using c(1) length_takeWhile_le [of "\<lambda>x. x \<noteq> c" p]
    by (metis (full_types) le_neq_implies_less set_takeWhileD takeWhile_eq_take take_all_iff order_refl)
  with c show "length a < length p" "length b < length p" by auto
qed

text \<open>What is decided behind the loop, with \<open>j\<close> bytes of the string behind and \<open>s\<close> ahead.\<close>

definition match_end :: "bytes \<Rightarrow> bytes \<Rightarrow> nat \<Rightarrow> nat" where
  "match_end p s j =
     (if p \<noteq> [] \<and> hd p = CHR ''$'' then if s = [] then j else 0
      else if p = [] then j else 0)"

definition star_reach :: "bytes \<Rightarrow> bytes \<Rightarrow> bytes \<times> nat" where
  "star_reach p s =
     (if p \<noteq> [] \<and> hd p = CHR ''*'' then (tl p, length s)
      else (p, length (takeWhile (\<lambda>c. c \<noteq> CHR ''/'') s)))"

lemma star_reach_length: "star_reach p s = (p2, len) \<Longrightarrow> length p2 \<le> length p \<and> len \<le> length s"
  by (auto simp: star_reach_def length_takeWhile_le split: if_splits)

function mg_match_prefix_n :: "bytes \<Rightarrow> bytes \<Rightarrow> nat"
  and match_loop :: "bytes \<Rightarrow> bytes \<Rightarrow> nat \<Rightarrow> nat"
  and match_star :: "bytes \<Rightarrow> bytes \<Rightarrow> nat \<Rightarrow> nat \<Rightarrow> nat" where
  "mg_match_prefix_n p s =
     (case alternatives p of
        Some (a, b) \<Rightarrow> (let res = mg_match_prefix_n a s in if 0 < res then res else mg_match_prefix_n b s)
      | None \<Rightarrow> match_loop p s 0)"
| "match_loop p s j =
     (if p \<noteq> [] \<and> s \<noteq> []
      then if hd p = CHR ''?'' then match_loop (tl p) (tl s) (j + 1)
           else if hd p = CHR ''*''
           then case star_reach (tl p) s of
                  (p2, len) \<Rightarrow> if p2 = [] \<or> p2 = ''$'' then j + len else match_star p2 s len j
           else if tolower (hd p) \<noteq> tolower (hd s) then match_end p s j
           else match_loop (tl p) (tl s) (j + 1)
      else match_end p s j)"
| "match_star p s len j =
     (let res = mg_match_prefix_n p (drop len s)
      in if res = 0 \<and> len \<noteq> 0 then match_star p s (len - 1) j
         else if res = 0 then 0 else j + res + len)"
  by pat_completeness auto
termination
proof (relation "measures [case_sum (\<lambda>(p, s). length p) (case_sum (\<lambda>(p, s, j). length p) (\<lambda>(p, s, len, j). length p)),
    case_sum (\<lambda>(p, s). 1) (case_sum (\<lambda>(p, s, j). 0) (\<lambda>(p, s, len, j). len + 2))]", goal_cases)
qed (auto dest: alternatives_length dest!: sym [THEN star_reach_length] simp: neq_Nil_conv)

declare mg_match_prefix_n.simps [simp del] match_loop.simps [simp del] match_star.simps [simp del]

definition mg_match_prefix :: "bytes \<Rightarrow> bytes option \<Rightarrow> nat" where
  "mg_match_prefix pattern str = mg_match_prefix_n pattern (span (mg_mk_str str))"


subsection \<open>Comparisons\<close>

lemma tolower_NUL_iff [simp]: "tolower d = NUL \<longleftrightarrow> d = NUL"
proof
  assume "tolower d = NUL"
  then show "d = NUL"
    by (auto simp: tolower_def char_of_eq_iff take_bit_eq_mod split: if_splits)
qed (simp add: tolower_def)

lemma ncase_loop_zero:
  assumes "0 < n" "n \<le> length s" "n \<le> length t" "NUL \<notin> set (take n t)"
  shows "\<exists>r. ncase_loop s t n = Some r \<and> (r = 0 \<longleftrightarrow> map tolower (take n s) = map tolower (take n t))"
  using assms
proof (induction s t n rule: ncase_loop.induct)
  case (1 c s d t n)
  show ?case
  proof (cases "tolower c = tolower d \<and> 1 < n")
    case True
    then have n: "n - 1 \<noteq> 0" "take n (c # s) = c # take (n - 1) s" "take n (d # t) = d # take (n - 1) t"
      by (auto simp: take_Cons')
    with 1 True have "c \<noteq> NUL" by (metis list.set_intros(1) tolower_NUL_iff)
    with 1 True n show ?thesis by auto
  next
    case False
    with 1 show ?thesis by (cases n) (auto simp: Let_def byte_simps)
  qed
qed auto

lemma mg_ncasecmp_zero:
  assumes "n \<le> length s" "n \<le> length t" "NUL \<notin> set (take n t)"
  shows "\<exists>r. mg_ncasecmp s t n = Some r \<and> (r = 0 \<longleftrightarrow> map tolower (take n s) = map tolower (take n t))"
  using ncase_loop_zero [of n s t] assms by (auto simp: mg_ncasecmp_def)

lemma size_diff_zero:
  assumes "m < 2 ^ 32" "n < 2 ^ 32"
  shows "size_diff m n = 0 \<longleftrightarrow> m = n"
proof -
  have "size_diff m n = 0 \<longleftrightarrow> (word_of_nat m :: 32 word) = word_of_nat n"
    unfolding size_diff_def signed_eq_0_iff by simp
  also have "\<dots> \<longleftrightarrow> m = n"
    using assms by (auto simp: word_of_nat_eq_iff take_bit_nat_eq_self)
  finally show ?thesis .
qed

lemma mg_vcmp_zero:
  assumes "length s < 2 ^ 32" "length (c_str t) < 2 ^ 32"
  shows "mg_vcmp s t = 0 \<longleftrightarrow> s = c_str t"
proof -
  let ?n = "min (length s) (length (c_str t))"
  let ?r = "strcmp_aux (c_str (take ?n s)) (take ?n (c_str t))"
  have t: "NUL \<notin> set (take ?n (c_str t))"
    by (meson NUL_notin_c_str in_set_takeD)
  have "?r = 0 \<longleftrightarrow> c_str (take ?n s) = take ?n (c_str t)"
    by (rule strcmp_aux_eq_0_iff [OF NUL_notin_c_str t])
  also have "\<dots> \<longleftrightarrow> take ?n s = take ?n (c_str t)"
    using c_str_full [of "take ?n s"] c_str_no_NUL [OF t] by (auto simp: min_def)
  finally have "?r = 0 \<longleftrightarrow> take ?n s = take ?n (c_str t)" .
  moreover have "mg_vcmp s t = (if ?r = 0 then size_diff (length s) (length (c_str t)) else ?r)"
    by (simp add: mg_vcmp_def Let_def)
  ultimately show ?thesis
    using size_diff_zero [OF assms] by auto
qed

lemma mg_vcasecmp_zero:
  assumes "length s < 2 ^ 32" "length (c_str t) < 2 ^ 32"
  shows "\<exists>r. mg_vcasecmp s t = Some r \<and> (r = 0 \<longleftrightarrow> map tolower s = map tolower (c_str t))"
proof -
  let ?n = "min (length s) (length (c_str t))"
  have "NUL \<notin> set (take ?n (c_str t @ [NUL]))"
    by (metis NUL_notin_c_str in_set_takeD min.cobounded2 take_append append_Nil2 diff_is_0_eq' take0 take_eq_Nil)
  then obtain r where r: "mg_ncasecmp s (c_str t @ [NUL]) ?n = Some r"
    "r = 0 \<longleftrightarrow> map tolower (take ?n s) = map tolower (take ?n (c_str t @ [NUL]))"
    using mg_ncasecmp_zero [of ?n s "c_str t @ [NUL]"] by (auto simp: min_le_iff_disj)
  from r(2) have "r = 0 \<longleftrightarrow> take ?n (map tolower s) = take ?n (map tolower (c_str t))"
    by (simp add: take_map)
  with r(1) size_diff_zero [OF assms] show ?thesis
    by (auto simp: mg_vcasecmp_def Let_def dest: map_eq_imp_length_eq)
qed

lemma mg_strcmp_zero [simp]: "mg_strcmp sc s t = 0 \<longleftrightarrow> s = t"
  by (induction sc s t rule: mg_strcmp.induct) (auto simp: not_less_iff_gr_or_eq)

lemma mg_strcmp_swap: "mg_strcmp sc t s = - mg_strcmp sc s t"
  by (induction sc s t rule: mg_strcmp.induct) auto

lemma mg_strcasecmp_zero: "mg_strcasecmp sc s t = 0 \<longleftrightarrow> map tolower s = map tolower t"
  by (induction sc s t rule: mg_strcasecmp.induct) (auto simp: not_less_iff_gr_or_eq Let_def)

lemma mg_str_starts_with_prefix: "mg_str_starts_with sc s p \<longleftrightarrow> prefix p s"
  by (auto simp: mg_str_starts_with_def prefix_def) (metis append_take_drop_id)

subsection \<open>Searching and stripping\<close>

lemma strstr_from_Some:
  "strstr_from k i h n = Some j \<Longrightarrow> i \<le> j \<and> prefix n (drop (j - i) h) \<and> (\<forall>m < j - i. \<not> prefix n (drop m h))"
proof (induction k i h n rule: strstr_from.induct)
  case (2 k i h n)
  have pre: "take (length n) h = n \<longleftrightarrow> prefix n h"
    by (metis append_eq_conv_conj prefix_def)
  show ?case
  proof (cases "prefix n h")
    case True
    with 2(2) pre show ?thesis by simp
  next
    case False
    with 2 pre have *: "Suc i \<le> j" "prefix n (drop (j - Suc i) (drop 1 h))" "\<forall>m < j - Suc i. \<not> prefix n (drop m (drop 1 h))"
      by auto
    then have "prefix n (drop (j - i) h)" by (simp add: Suc_diff_Suc flip: drop_Suc)
    moreover have "\<not> prefix n (drop m h)" if "m < j - i" for m
      using *(3) False that by (cases m) auto
    ultimately show ?thesis using *(1) by simp
  qed
qed simp

lemma strstr_from_None:
  "strstr_from k i h n = None \<Longrightarrow> m < k \<Longrightarrow> \<not> prefix n (drop m h)"
proof (induction k i h n arbitrary: m rule: strstr_from.induct)
  case (2 k i h n)
  then show ?case by (cases m) (auto simp: prefix_def split: if_splits)
qed simp

lemma mg_strstr_first:
  "mg_strstr h n = Some j \<longleftrightarrow> prefix n (drop j h) \<and> j \<le> length h \<and> (\<forall>m < j. \<not> prefix n (drop m h))"
proof
  assume *: "mg_strstr h n = Some j"
  then have "strstr_from (length h - length n + 1) 0 h n = Some j" by (auto simp: mg_strstr_def split: if_splits)
  from strstr_from_Some [OF this] show "prefix n (drop j h) \<and> j \<le> length h \<and> (\<forall>m < j. \<not> prefix n (drop m h))"
    by (cases "j \<le> length h") auto
next
  assume *: "prefix n (drop j h) \<and> j \<le> length h \<and> (\<forall>m < j. \<not> prefix n (drop m h))"
  then have len: "length n \<le> length h - j" using prefix_length_le by fastforce
  show "mg_strstr h n = Some j"
  proof (cases "mg_strstr h n")
    case None
    have "j < length h - length n + 1" using * len by linarith
    with None show ?thesis
      using * len strstr_from_None [of "length h - length n + 1" 0 h n j]
      by (auto simp: mg_strstr_def split: if_splits)
  next
    case (Some k)
    then have "strstr_from (length h - length n + 1) 0 h n = Some k" by (auto simp: mg_strstr_def split: if_splits)
    from strstr_from_Some [OF this] * Some show ?thesis by (metis diff_zero linorder_neqE_nat)
  qed
qed

lemma strip_end_eq: "n \<le> length s \<Longrightarrow> strip_end n s = rev (dropWhile isspace (rev (take n s)))"
  by (induction n) (auto simp: take_Suc_conv_app_nth)

lemma mg_strstrip_eq: "mg_strstrip s = rev (dropWhile isspace (rev (dropWhile isspace s)))"
  by (induction s) (auto simp: strip_end_eq simp del: strip_end.simps)

subsection \<open>Hexadecimal\<close>

lemma fourbit_hex: "d < 16 \<Longrightarrow> fourbit (hex_digits ! d) = d"
proof -
  have "map fourbit hex_digits = [0..<16]" unfolding hex_digits_def by code_simp
  then show "d < 16 \<Longrightarrow> fourbit (hex_digits ! d) = d"
    by (metis diff_zero length_map length_upt nth_map nth_upt plus_nat.add_0)
qed

lemma length_to_hex: "length (cs_to_hex s) = 2 * length s + 1"
  by (induction s) auto

lemma from_hex_loop_shift: "from_hex_loop (x # y # p) (i + 2) (n + 2) = from_hex_loop p i n"
proof (induction p i n rule: from_hex_loop.induct)
  case (1 p i n)
  show ?case
    by (cases "i < n") (auto simp: from_hex_loop.simps [of p i] from_hex_loop.simps [of "x # y # p" "i + 2"]
        from_hex_loop.simps [of "x # y # p" "Suc (Suc i)"] 1 [simplified] rd_def intro!: Option.bind_cong)
qed

text \<open>
  What \<open>cs_to_hex\<close> writes, \<open>cs_from_hex\<close> reads back, for every block of bytes.
\<close>

theorem hex_round: "cs_from_hex (cs_to_hex s) (2 * length s) = Some (s @ [NUL])"
proof (induction s)
  case Nil
  show ?case by (simp add: cs_from_hex_def from_hex_loop.simps)
next
  case (Cons c s)
  have "push_bit 4 (fourbit (hex_digits ! drop_bit 4 (ch c))) + fourbit (hex_digits ! (ch c AND 15)) = ch c"
    using of_char_lt_256 [of c]
    by (simp add: fourbit_hex drop_bit_eq_div push_bit_eq_mult and_low_bits div_less_iff_less_mult del: of_char_lt_256)
  with Cons show ?case
    using from_hex_loop_shift [of _ _ "cs_to_hex s" 0 "2 * length s"]
    by (simp add: cs_from_hex_def from_hex_loop.simps [of "_ # _" 0] numeral_2_eq_2)
qed


subsection \<open>Lists separated by commas\<close>

lemma takeWhile_absent [simp]: "c \<notin> set l \<Longrightarrow> takeWhile (\<lambda>x. x \<noteq> c) l = l"
  by (auto simp: takeWhile_eq_all_conv)

lemma takeWhile_until [simp]: "c \<notin> set u \<Longrightarrow> takeWhile (\<lambda>x. x \<noteq> c) (u @ c # v) = u"
  by (induction u) auto

lemma strchr_from_Some:
  "strchr_from sc i s (char_int sc c) = Some k \<longleftrightarrow>
     c \<in> set s \<and> k = i + length (takeWhile (\<lambda>x. x \<noteq> c) s)"
  by (induction s arbitrary: i) auto

lemma strchr_from_None: "strchr_from sc i s (char_int sc c) = None \<longleftrightarrow> c \<notin> set s"
  by (induction s arbitrary: i) auto

lemma char_int_ascii: "ch c < 128 \<Longrightarrow> int (ch c) = char_int sc c"
  by (simp add: char_int_def)

lemma mg_strchr_cases:
  "mg_strchr sc s (char_int sc c) = (if c \<in> set s then Some (length (takeWhile (\<lambda>x. x \<noteq> c) s)) else None)"
  using strchr_from_Some [of sc 0 s c] strchr_from_None [of sc 0 s c]
  by (auto simp: mg_strchr_def)

lemma next_entry_eq:
  "mg_next_comma_list_entry_n sc (Some l) False =
     (if l = [] then None
      else Some (takeWhile (\<lambda>c. c \<noteq> CHR '','') l, None, drop (length (takeWhile (\<lambda>c. c \<noteq> CHR '','') l) + 1) l))"
proof -
  have c: "int (ch CHR '','') = char_int sc CHR '',''" by (rule char_int_ascii) simp
  have t: "take (length (takeWhile P l)) l = takeWhile P l" for P :: "char \<Rightarrow> bool"
    by (metis takeWhile_eq_take)
  show ?thesis
    unfolding mg_next_comma_list_entry_n_def c mg_strchr_cases
    by (auto simp: span_def t)
qed

text \<open>All entries, the way the callers loop.\<close>

function comma_entries :: "bool \<Rightarrow> bytes \<Rightarrow> bytes list" where
  "comma_entries sc l =
     (case mg_next_comma_list_entry_n sc (Some l) False of
        None \<Rightarrow> []
      | Some (v, _, rest) \<Rightarrow> v # comma_entries sc rest)"
  by pat_completeness auto
termination
  by (relation "measure (\<lambda>(sc, l). length l)") (auto simp: next_entry_eq split: if_splits)

declare comma_entries.simps [simp del]

fun comma_join :: "bytes list \<Rightarrow> bytes" where
  "comma_join [] = []"
| "comma_join [w] = w"
| "comma_join (w # ws) = w @ CHR '','' # comma_join ws"

text \<open>
  Looping over a comma separated list visits the entries that were joined, each once and in
  order, when no entry contains a comma and the last one is not empty.
\<close>

theorem comma_round:
  assumes "\<forall>w \<in> set ws. CHR '','' \<notin> set w" and "ws = [] \<or> List.last ws \<noteq> []"
  shows "comma_entries sc (comma_join ws) = ws"
  using assms
proof (induction ws rule: comma_join.induct)
  case 1
  then show ?case by (simp add: comma_entries.simps next_entry_eq)
next
  case (2 w)
  then show ?case
    by (simp add: comma_entries.simps [of sc w] comma_entries.simps [of sc "[]"] next_entry_eq)
next
  case (3 w v vs)
  then show ?case
    by (simp add: comma_entries.simps [of sc "w @ _"] next_entry_eq)
qed

lemma comma_round_witness: "comma_entries True (comma_join [''a'', [], ''b=c'']) = [''a'', [], ''b=c'']"
  by (rule comma_round) simp_all

subsection \<open>What a pattern matches\<close>

text \<open>
  The documented syntax, by the number of matched bytes: a star matches up to a slash, two stars
  match anything, a question mark one byte, letters match in either case, a bar or a comma divides
  alternatives.
\<close>

inductive glob :: "bytes \<Rightarrow> bytes \<Rightarrow> nat \<Rightarrow> bool" where
  g_nil: "glob [] s 0"
| g_any: "glob p s n \<Longrightarrow> glob (CHR ''?'' # p) (c # s) (Suc n)"
| g_same: "tolower c = tolower d \<Longrightarrow> glob p s n \<Longrightarrow> glob (c # p) (d # s) (Suc n)"
| g_star: "m \<le> length s \<Longrightarrow> CHR ''/'' \<notin> set (take m s) \<Longrightarrow> glob p (drop m s) n \<Longrightarrow> glob (CHR ''*'' # p) s (m + n)"
| g_star2: "m \<le> length s \<Longrightarrow> glob p (drop m s) n \<Longrightarrow> glob (CHR ''*'' # CHR ''*'' # p) s (m + n)"
| g_left: "sep \<in> {CHR ''|'', CHR '',''} \<Longrightarrow> glob p s n \<Longrightarrow> glob (p @ sep # q) s n"
| g_right: "sep \<in> {CHR ''|'', CHR '',''} \<Longrightarrow> glob q s n \<Longrightarrow> glob (p @ sep # q) s n"

lemma alternatives_split:
  assumes "alternatives p = Some (a, b)"
  shows "\<exists>sep \<in> {CHR ''|'', CHR '',''}. p = a @ sep # b"
proof -
  obtain c where c: "c \<in> {CHR ''|'', CHR '',''}" "c \<in> set p" "a = takeWhile (\<lambda>x. x \<noteq> c) p" "b = drop (length a + 1) p"
    using assms by (auto simp: alternatives_def Let_def split: if_splits)
  from split_list_first [OF c(2)] obtain u v where "p = u @ c # v" "c \<notin> set u" by blast
  with c(1,3,4) show ?thesis by (intro bexI [of _ c]) simp_all
qed

lemma glob_bound: "glob p s n \<Longrightarrow> n \<le> length s"
  by (induction rule: glob.induct) auto


lemma match_bounds:
  "mg_match_prefix_n p s \<le> length s"
  "match_loop p s j \<le> j + length s"
  "len \<le> length s \<Longrightarrow> match_star p s len j \<le> j + length s"
proof (induction p s and p s j and p s len j rule: mg_match_prefix_n_match_loop_match_star.induct)
  case (1 p s)
  then show ?case
    by (auto simp: mg_match_prefix_n.simps [of p] Let_def split: option.splits)
next
  case (2 p s j)
  show ?case
  proof (cases "p \<noteq> [] \<and> s \<noteq> []")
    case False
    then show ?thesis by (auto simp: match_loop.simps [of p] match_end_def)
  next
    case True
    then obtain c p' d s' where ps: "p = c # p'" "s = d # s'" by (metis list.exhaust)
    obtain p2 len where r: "star_reach p' s = (p2, len)" by fastforce
    with star_reach_length have "len \<le> length s" by blast
    with 2 ps r show ?thesis
      by (auto simp: match_loop.simps [of "c # p'"] match_end_def split: if_splits)
  qed
next
  case (3 p s len j)
  then show ?case
    by (auto simp: match_star.simps [of p s len] Let_def)
qed

lemma star_reach_glob:
  assumes "star_reach p s = (p2, len)" "m \<le> len" "glob p2 (drop m s) n"
  shows "glob (CHR ''*'' # p) s (m + n)"
proof (cases "p \<noteq> [] \<and> hd p = CHR ''*''")
  case True
  with assms show ?thesis by (cases p) (auto simp: star_reach_def intro: g_star2)
next
  case False
  let ?w = "takeWhile (\<lambda>c. c \<noteq> CHR ''/'') s"
  from False assms(1) have len: "p2 = p" "len = length ?w" by (auto simp: star_reach_def split: if_splits)
  have "take m s = take m ?w"
    using assms(2) len(2) by (metis min.absorb1 take_take takeWhile_eq_take)
  then have "CHR ''/'' \<notin> set (take m s)"
    by (metis in_set_takeD set_takeWhileD)
  moreover have "m \<le> length s"
    using assms(2) len(2) length_takeWhile_le le_trans by metis
  ultimately show ?thesis using assms(3) len(1) g_star by simp
qed

lemma match_sound:
  "CHR ''$'' \<notin> set p \<Longrightarrow> 0 < mg_match_prefix_n p s \<Longrightarrow> glob p s (mg_match_prefix_n p s)"
  "CHR ''$'' \<notin> set p \<Longrightarrow> 0 < match_loop p s j \<Longrightarrow> j \<le> match_loop p s j \<and> glob p s (match_loop p s j - j)"
  "CHR ''$'' \<notin> set p \<Longrightarrow> 0 < match_star p s len j \<Longrightarrow>
     \<exists>m \<le> len. \<exists>n. match_star p s len j = j + m + n \<and> glob p (drop m s) n"
proof (induction p s and p s j and p s len j rule: mg_match_prefix_n_match_loop_match_star.induct)
  case (1 p s)
  show ?case
  proof (cases "alternatives p")
    case None
    with 1 show ?thesis by (auto simp: mg_match_prefix_n.simps [of p])
  next
    case (Some ab)
    then obtain a b where ab: "alternatives p = Some (a, b)" by (cases ab) simp
    from alternatives_split [OF this] obtain sep where sep: "sep \<in> {CHR ''|'', CHR '',''}" "p = a @ sep # b" by blast
    have eq: "mg_match_prefix_n p s = (if 0 < mg_match_prefix_n a s then mg_match_prefix_n a s else mg_match_prefix_n b s)"
      using ab by (simp add: mg_match_prefix_n.simps [of p] Let_def)
    have dollar: "CHR ''$'' \<notin> set a" "CHR ''$'' \<notin> set b" using "1.prems"(1) sep(2) by auto
    show ?thesis
    proof (cases "0 < mg_match_prefix_n a s")
      case True
      then have "glob a s (mg_match_prefix_n a s)" by (intro "1.IH"(2) [OF ab refl dollar(1)])
      with True eq sep g_left show ?thesis by simp
    next
      case False
      with "1.prems"(2) eq have "0 < mg_match_prefix_n b s" by simp
      with False have "glob b s (mg_match_prefix_n b s)" by (intro "1.IH"(3) [OF ab refl refl _ dollar(2)]) auto
      with False eq sep g_right show ?thesis by simp
    qed
  qed
next
  case (2 p s j)
  show ?case
  proof (cases "p \<noteq> [] \<and> s \<noteq> []")
    case False
    then have "match_loop p s j = match_end p s j" by (auto simp: match_loop.simps [of p s j])
    with "2.prems" show ?thesis
      by (cases p) (auto simp: match_end_def intro: g_nil split: if_splits)
  next
    case True
    then obtain c p' d s' where ps: "p = c # p'" "s = d # s'" by (metis list.exhaust)
    obtain p2 len where r: "star_reach p' s = (p2, len)" by fastforce
    then have p2: "CHR ''$'' \<notin> set p2" "len \<le> length s"
      using "2.prems" ps star_reach_length [OF r] by (cases p'; auto simp: star_reach_def split: if_splits)+
    consider (any) "c = CHR ''?''" | (star) "c = CHR ''*''" | (differ) "c \<noteq> CHR ''?''" "c \<noteq> CHR ''*''" "tolower c \<noteq> tolower d"
      | (same) "c \<noteq> CHR ''?''" "c \<noteq> CHR ''*''" "tolower c = tolower d" by blast
    then show ?thesis
    proof cases
      case any
      then have eq: "match_loop p s j = match_loop p' s' (Suc j)"
        unfolding ps by (subst match_loop.simps) simp
      with 2 ps any have "Suc j \<le> match_loop p' s' (Suc j) \<and> glob p' s' (match_loop p' s' (Suc j) - Suc j)"
        by simp
      with any ps eq g_any [of p' s' "match_loop p' s' (Suc j) - Suc j" d] show ?thesis
        by (simp add: Suc_diff_Suc)
    next
      case same
      then have eq: "match_loop p s j = match_loop p' s' (Suc j)"
        unfolding ps by (subst match_loop.simps) simp
      with 2 ps same have "Suc j \<le> match_loop p' s' (Suc j) \<and> glob p' s' (match_loop p' s' (Suc j) - Suc j)"
        by simp
      with same ps eq g_same [OF same(3), of p' s' "match_loop p' s' (Suc j) - Suc j"] show ?thesis
        by (simp add: Suc_diff_Suc)
    next
      case differ
      then have "match_loop p s j = match_end p s j"
        unfolding ps by (subst match_loop.simps) simp
      with "2.prems" ps show ?thesis by (simp add: match_end_def split: if_splits)
    next
      case star
      show ?thesis
      proof (cases "p2 = []")
        case True
        with r star have "match_loop p s j = j + len"
          unfolding ps by (subst match_loop.simps) simp
        with star_reach_glob [OF r order_refl, of 0] g_nil True ps star show ?thesis by simp
      next
        case False
        with p2 have "p2 \<noteq> ''$''" by auto
        with False star ps r have eq: "match_loop p s j = match_star p2 s len j"
          unfolding ps by (subst match_loop.simps) simp
        with 2 ps star r p2 False \<open>p2 \<noteq> ''$''\<close> obtain m n where "m \<le> len" "match_star p2 s len j = j + m + n" "glob p2 (drop m s) n"
          by (auto simp del: match_star.simps)
        with star_reach_glob [OF r this(1,3)] eq ps star show ?thesis by simp
      qed
    qed
  qed
next
  case (3 p s len j)
  show ?case
  proof (cases "mg_match_prefix_n p (drop len s) = 0")
    case True
    with 3 have "len \<noteq> 0" "match_star p s len j = match_star p s (len - 1) j"
      by (auto simp: match_star.simps [of p s len] split: if_splits)
    with 3 True show ?thesis by (metis diff_le_self le_trans)
  next
    case False
    with 3 show ?thesis by (auto simp: match_star.simps [of p s len])
  qed
qed


lemma match_value: "mg_match_prefix_n ''a*f|de*,xy'' ''defgh'' = 5"
  by code_simp


text \<open>
  The converse fails: a star does not match nothing at the end of the string.  A question mark
  matches a slash, other than documented, and after a star a dollar is ignored.
\<close>

lemma star_needs_a_byte: "mg_match_prefix_n ''a*'' ''a'' = 0" "glob ''a*'' ''a'' 1"
proof -
  show "mg_match_prefix_n ''a*'' ''a'' = 0" by code_simp
  have "glob [CHR ''*''] [] (0 + 0)" by (rule g_star) (simp_all add: g_nil)
  then show "glob ''a*'' ''a'' 1" using g_same [of "CHR ''a''" "CHR ''a''" "''*''" "[]" 0] by simp
qed

lemma question_mark_matches_slash: "mg_match_prefix_n ''a?c'' ''a/c'' = 3"
  by code_simp

lemma dollar_ignored_behind_star:
  "mg_match_prefix_n ''a*$'' ''ab/c'' = 2" "mg_match_prefix_n ''ab$'' ''ab/c'' = 0"
  by code_simp+

end
