(* ===== verification/MgBuf.thy ===== *)
theory MgBuf
  imports MgStr
begin

section \<open>Mongoose: growing buffers\<close>

text \<open>
  \<open>mbuf.c\<close>: a buffer is a block of \<open>size\<close> bytes of which the first \<open>len\<close> are in use.  What the
  allocator puts into fresh memory, where it places blocks and the constant \<open>BUFSIZ\<close> are the record
  \<open>mg_env\<close>; which calls fail is the function \<open>oom\<close> of the heap.  Sizes are natural numbers: objects
  that exist at the same time are so much smaller than the address space that their sum does not
  wrap, and the product with \<open>1.5\<close> is exact below \<open>2 ^ 53\<close>, where the headroom has long been
  limited by \<open>BUFSIZ\<close>.  A buffer is one sink of bytes; what follows from all-or-nothing appending
  alone is proved in the locale \<open>byte_sink\<close>.
\<close>

record mg_env =
  junk :: "nat \<Rightarrow> char"
  place :: "nat \<Rightarrow> nat"
  bufsiz :: nat

record mbuf =
  mb_buf :: "bytes option"
  mb_addr :: nat
  mb_len :: nat
  mb_size :: nat

definition bytes_at :: "bytes option \<Rightarrow> bytes" where
  "bytes_at b = (case b of None \<Rightarrow> [] | Some c \<Rightarrow> c)"

lemma bytes_at_simps [simp]: "bytes_at None = []" "bytes_at (Some c) = c"
  by (simp_all add: bytes_at_def)

definition block :: "mbuf \<Rightarrow> bytes" where
  "block m = bytes_at (mb_buf m)"

text \<open>\<open>realloc\<close>: the new block and its address.\<close>

definition realloc :: "mg_env \<Rightarrow> bytes option \<Rightarrow> nat \<Rightarrow> heap \<Rightarrow> (bytes \<times> nat) option \<times> heap" where
  "realloc e b n h =
     (if n = 0 \<and> b \<noteq> None then (None, dealloc h)
      else let old = bytes_at b; (ok, h') = malloc h
           in if ok
              then (Some (take n old @ map (junk e) [length old..<n], place e (allocs h)),
                    if b = None then h' else dealloc h')
              else (None, h'))"

definition mbuf_resize :: "mg_env \<Rightarrow> nat \<Rightarrow> mbuf \<times> heap \<Rightarrow> mbuf \<times> heap" where
  "mbuf_resize e new_size mh =
     (case mh of (a, h) \<Rightarrow>
        if mb_size a < new_size \<or> (new_size < mb_size a \<and> mb_len a \<le> new_size)
        then case realloc e (mb_buf a) new_size h of
               (None, h) \<Rightarrow> if new_size \<noteq> 0 then (a, h)
                            else (a\<lparr>mb_buf := None, mb_addr := 0, mb_size := new_size\<rparr>, h)
             | (Some (b, ad), h) \<Rightarrow> (a\<lparr>mb_buf := Some b, mb_addr := ad, mb_size := new_size\<rparr>, h)
        else (a, h))"

definition mbuf_init :: "mg_env \<Rightarrow> nat \<Rightarrow> heap \<Rightarrow> mbuf \<times> heap" where
  "mbuf_init e initial_size h =
     mbuf_resize e initial_size (\<lparr>mb_buf = None, mb_addr = 0, mb_len = 0, mb_size = 0\<rparr>, h)"

definition mbuf_free :: "mg_env \<Rightarrow> mbuf \<times> heap \<Rightarrow> mbuf \<times> heap" where
  "mbuf_free e mh = (case mh of (m, h) \<Rightarrow> if mb_buf m \<noteq> None then mbuf_init e 0 (dealloc h) else (m, h))"

definition mbuf_trim :: "mg_env \<Rightarrow> mbuf \<times> heap \<Rightarrow> mbuf \<times> heap" where
  "mbuf_trim e mh = mbuf_resize e (mb_len (fst mh)) mh"

text \<open>\<open>memmove\<close> of the tail and \<open>memcpy\<close> of the new bytes; without a source the gap keeps what it held.\<close>

definition open_gap :: "nat \<Rightarrow> bytes option \<Rightarrow> nat \<Rightarrow> nat \<Rightarrow> bytes \<Rightarrow> bytes" where
  "open_gap off src n len b =
     take off b @ (case src of None \<Rightarrow> take n (drop off b) | Some d \<Rightarrow> take n d)
     @ take (len - off) (drop off b) @ drop (len + n) b"

text \<open>The larger block, with headroom if there is room for it; \<open>None\<close> in front when there is none.\<close>

definition mbuf_grow :: "mg_env \<Rightarrow> bytes option \<Rightarrow> nat \<Rightarrow> heap \<Rightarrow> (bytes \<times> nat) option \<times> nat \<times> heap" where
  "mbuf_grow e b min_size h =
     (let new_size = min_size * 3 div 2;
          new_size = (if bufsiz e < new_size - min_size then min_size + bufsiz e else new_size);
          (p, h) = realloc e b new_size h
      in if p = None \<and> new_size \<noteq> min_size
         then let (p, h) = realloc e b min_size h in (p, min_size, h)
         else (p, new_size, h))"

definition mbuf_insert ::
  "mg_env \<Rightarrow> nat \<Rightarrow> bytes option \<Rightarrow> nat \<Rightarrow> mbuf \<times> heap \<Rightarrow> (nat \<times> mbuf \<times> heap) option" where
  "mbuf_insert e off src n ah =
     (case ah of (a, h) \<Rightarrow>
        if mb_size a < mb_len a \<or> mb_len a < off then None
        else if SIZE_MAX - mb_addr a < n then Some (0, a, h)
        else if mb_len a + n \<le> mb_size a
        then Some (n, a\<lparr>mb_buf := map_option (open_gap off src n (mb_len a)) (mb_buf a), mb_len := mb_len a + n\<rparr>, h)
        else let (p, new_size, h) = mbuf_grow e (mb_buf a) (mb_len a + n) h
             in case p of
                  Some (b, ad) \<Rightarrow>
                    Some (n, a\<lparr>mb_buf := Some (open_gap off src n (mb_len a) b), mb_addr := ad,
                               mb_len := mb_len a + n, mb_size := new_size\<rparr>, h)
                | None \<Rightarrow> Some (0, a, h))"

definition mbuf_append :: "mg_env \<Rightarrow> bytes option \<Rightarrow> nat \<Rightarrow> mbuf \<times> heap \<Rightarrow> (nat \<times> mbuf \<times> heap) option" where
  "mbuf_append e src n ah = mbuf_insert e (mb_len (fst ah)) src n ah"

text \<open>The source is a block of the caller at the address \<open>ad\<close>, and this function takes it over.\<close>

definition mbuf_append_and_free ::
  "mg_env \<Rightarrow> bytes \<Rightarrow> nat \<Rightarrow> mbuf \<times> heap \<Rightarrow> (nat \<times> mbuf \<times> heap) option" where
  "mbuf_append_and_free e d ad ah =
     (case ah of (a, h) \<Rightarrow>
        if mb_len a = 0
        then Some (length d, \<lparr>mb_buf = Some d, mb_addr = ad, mb_len = length d, mb_size = length d\<rparr>,
                   if mb_buf a \<noteq> None then dealloc h else h)
        else case mbuf_insert e (mb_len a) (Some d) (length d) (a, h) of
               None \<Rightarrow> None
             | Some (r, a, h) \<Rightarrow> Some (r, a, dealloc h))"

definition mbuf_remove :: "nat \<Rightarrow> mbuf \<Rightarrow> mbuf" where
  "mbuf_remove n m =
     (if 0 < n \<and> n \<le> mb_len m
      then m\<lparr>mb_buf := map_option (\<lambda>b. take (mb_len m - n) (drop n b) @ drop (mb_len m - n) b) (mb_buf m),
             mb_len := mb_len m - n\<rparr>
      else m)"

definition mbuf_clear :: "mbuf \<Rightarrow> mbuf" where
  "mbuf_clear m = m\<lparr>mb_len := 0\<rparr>"

text \<open>The new value of \<open>from\<close> and of \<open>to\<close>.\<close>

definition mbuf_move :: "mbuf \<Rightarrow> mbuf \<times> mbuf" where
  "mbuf_move from = (\<lparr>mb_buf = None, mb_addr = 0, mb_len = 0, mb_size = 0\<rparr>, from)"

subsection \<open>What a buffer holds\<close>

definition mbuf_inv :: "mbuf \<Rightarrow> bool" where
  "mbuf_inv m \<longleftrightarrow> mb_len m \<le> mb_size m \<and> length (block m) = mb_size m"

definition held :: "mbuf \<Rightarrow> bytes" where
  "held m = take (mb_len m) (block m)"

lemma length_held: "mbuf_inv m \<Longrightarrow> length (held m) = mb_len m"
  by (simp add: mbuf_inv_def held_def)

lemma realloc_cases:
  assumes "realloc e b n h = (r, h')"
  obtains (fail) "r = None" "live h' \<le> live h" "oom h' = oom h" "n \<noteq> 0 \<or> b = None \<Longrightarrow> live h' = live h \<and> oom h (allocs h)"
  | (ok) c ad where "r = Some (c, ad)" "length c = n" "oom h' = oom h" "live h' = live h + of_bool (b = None)"
      "\<And>k. k \<le> n \<Longrightarrow> k \<le> length (bytes_at b) \<Longrightarrow> take k c = take k (bytes_at b)"
      "ad = place e (allocs h)"
proof (cases "n = 0 \<and> b \<noteq> None")
  case True
  with assms show thesis by (intro fail) (auto simp: realloc_def)
next
  case False
  obtain g k where m: "malloc h = (g, k)" by fastforce
  define c where "c = take n (bytes_at b) @ map (junk e) [length (bytes_at b)..<n]"
  have c: "length c = n" "\<And>k. k \<le> n \<Longrightarrow> k \<le> length (bytes_at b) \<Longrightarrow> take k c = take k (bytes_at b)"
    by (auto simp: c_def min_def)
  have eq: "(r, h') = (if g then (Some (c, place e (allocs h)), if b = None then k else dealloc k) else (None, k))"
    using False m assms by (auto simp: realloc_def c_def)
  show thesis
  proof (cases g)
    case True
    with eq have "r = Some (c, place e (allocs h))" "h' = (if b = None then k else dealloc k)" by simp_all
    then have r: "r = Some (c, place e (allocs h))" and h: "oom h' = oom h"
      and l: "live h' = live h + of_bool (b = None)"
      using malloc_live [OF m] malloc_oom [OF m] True by (simp_all split: if_splits)
    show thesis by (rule ok [OF r c(1) h l c(2) refl])
  next
    case g: False
    with m have "oom h (allocs h)" by (auto simp: malloc_def Let_def split: if_splits)
    with eq g malloc_live [OF m] malloc_oom [OF m] show thesis by (intro fail) auto
  qed
qed

lemma mbuf_grow_cases:
  assumes g: "mbuf_grow e b n h = (r, m, h')" and n: "0 < n"
  obtains (fail) "r = None" "oom h' = oom h" "live h' = live h" "\<exists>k. oom h k"
  | (ok) c ad where "r = Some (c, ad)" "length c = m" "n \<le> m" "oom h' = oom h" "live h' = live h + of_bool (b = None)"
      "\<And>k. k \<le> n \<Longrightarrow> k \<le> length (bytes_at b) \<Longrightarrow> take k c = take k (bytes_at b)"
      "ad \<in> range (place e)"
proof -
  define big where "big = (if bufsiz e < n * 3 div 2 - n then n + bufsiz e else n * 3 div 2)"
  have big: "n \<le> big" unfolding big_def by simp linarith
  obtain r1 h1 where 1: "realloc e b big h = (r1, h1)" by fastforce
  obtain r2 h2 where 2: "realloc e b n h1 = (r2, h2)" by fastforce
  have eq: "(r, m, h') = (if r1 = None \<and> big \<noteq> n then (r2, n, h2) else (r1, big, h1))"
    using g unfolding mbuf_grow_def Let_def big_def [symmetric] 1 by (simp add: 2 split: if_splits)
  from 1 show thesis
  proof (cases rule: realloc_cases)
    case (ok c ad)
    with eq big show thesis by (intro that(2) [of c ad]) auto
  next
    case fail
    then have f: "live h1 = live h" "oom h1 = oom h" "\<exists>k. oom h k" using big n by auto
    show thesis
    proof (cases "big = n")
      case True
      with eq fail(1) f show thesis by (intro that(1)) auto
    next
      case False
      from 2 show thesis
      proof (cases rule: realloc_cases)
        case (ok c ad)
        with eq False fail(1) f n show thesis by (intro that(2) [of c ad]) auto
      next
        case fail': fail
        with eq False fail(1) f n show thesis by (intro that(1)) auto
      qed
    qed
  qed
qed

lemma take_all_append_exact: "length xs = n \<Longrightarrow> take n (xs @ ys) = xs"
  by simp

lemma length_open_gap:
  assumes "off \<le> len" "len + n \<le> length b" "\<And>d. src = Some d \<Longrightarrow> n \<le> length d"
  shows "length (open_gap off src n len b) = length b"
proof -
  have "length (case src of None \<Rightarrow> take n (drop off b) | Some d \<Rightarrow> take n d) = n"
    using assms by (cases src) auto
  moreover have "len \<le> length b" using assms(2) by linarith
  then have "length (take (len - off) (drop off b)) = len - off" by simp
  ultimately show ?thesis using assms unfolding open_gap_def length_append by simp
qed

lemma take_open_gap:
  assumes "off \<le> len" "len + n \<le> length b" "n \<le> length d"
  shows "take (len + n) (open_gap off (Some d) n len b) = take off b @ take n d @ drop off (take len b)"
proof -
  have "len \<le> length b" using assms(2) by linarith
  then have "length (take off b @ take n d @ take (len - off) (drop off b)) = len + n"
    using assms by simp
  then have "take (len + n) ((take off b @ take n d @ take (len - off) (drop off b)) @ drop (len + n) b) =
      take off b @ take n d @ take (len - off) (drop off b)"
    by (rule take_all_append_exact)
  then show ?thesis by (simp add: open_gap_def drop_take)
qed

lemma mbuf_insert_cases:
  assumes inv: "mbuf_inv a" and off: "off \<le> mb_len a" and d: "n \<le> length d"
  obtains (no) h' where "mbuf_insert e off (Some d) n (a, h) = Some (0, a, h')" "oom h' = oom h" "live h' = live h"
      "(\<exists>k. oom h k) \<or> SIZE_MAX < mb_addr a + n"
  | (yes) a' h' where "mbuf_insert e off (Some d) n (a, h) = Some (n, a', h')" "oom h' = oom h"
      "live h' = live h + of_bool (mb_buf a = None \<and> mb_buf a' \<noteq> None)"
      "mbuf_inv a'" "held a' = take off (held a) @ take n d @ drop off (held a)"
      "mb_addr a' = mb_addr a \<or> mb_addr a' \<in> range (place e)"
proof -
  consider (ovf) "SIZE_MAX - mb_addr a < n" | (fits) "\<not> SIZE_MAX - mb_addr a < n" "mb_len a + n \<le> mb_size a"
    | (grow) "\<not> SIZE_MAX - mb_addr a < n" "mb_size a < mb_len a + n" by linarith
  then show thesis
  proof cases
    case ovf
    with inv off show thesis by (intro no [of h]) (auto simp: mbuf_insert_def mbuf_inv_def)
  next
    case fits
    define a' where "a' = a\<lparr>mb_buf := map_option (open_gap off (Some d) n (mb_len a)) (mb_buf a), mb_len := mb_len a + n\<rparr>"
    show thesis
    proof (cases "mb_buf a")
      case None
      with inv off fits have "n = 0" "mb_len a = 0" by (auto simp: mbuf_inv_def block_def)
      with None inv off fits d show thesis
        by (intro yes [of a' h]) (auto simp: mbuf_insert_def mbuf_inv_def a'_def held_def block_def)
    next
      case (Some b)
      from inv off fits d Some have "length b = mb_size a" "mb_len a \<le> mb_size a"
        by (auto simp: mbuf_inv_def block_def)
      moreover from this have "length (open_gap off (Some d) n (mb_len a) b) = length b"
        using fits off d by (intro length_open_gap) auto
      ultimately show thesis using Some fits off d
        by (intro yes [of a' h])
          (auto simp: mbuf_insert_def mbuf_inv_def a'_def held_def block_def
            take_open_gap [of off "mb_len a"] min_def)
    qed
  next
    case grow
    then have n: "0 < mb_len a + n" by linarith
    obtain r m h' where g: "mbuf_grow e (mb_buf a) (mb_len a + n) h = (r, m, h')" by (metis prod_cases3)
    note ins = mbuf_insert_def g
    from g n show thesis
    proof (cases rule: mbuf_grow_cases)
      case fail
      with inv off grow show thesis by (intro no [of h']) (auto simp: ins mbuf_inv_def)
    next
      case (ok b ad)
      define a' where "a' = a\<lparr>mb_buf := Some (open_gap off (Some d) n (mb_len a) b), mb_addr := ad,
                               mb_len := mb_len a + n, mb_size := m\<rparr>"
      have pre: "take k b = take k (block a)" if "k \<le> mb_len a" for k
        using ok(6) [of k] that inv by (simp add: block_def mbuf_inv_def split: option.splits)
      have "take (mb_len a + n) (open_gap off (Some d) n (mb_len a) b) =
          take off (held a) @ take n d @ drop off (held a)"
        using take_open_gap [OF off, of n b d] ok(2,3) d pre [of off] pre [of "mb_len a"] off
        by (simp add: held_def min_def)
      moreover have "length (open_gap off (Some d) n (mb_len a) b) = m"
        using length_open_gap [OF off, of n b "Some d"] ok(2,3) d by simp
      ultimately show thesis
        using inv off grow ok
        by (intro yes [of a' h']) (auto simp: ins mbuf_inv_def a'_def held_def block_def)
    qed
  qed
qed


subsection \<open>Sinks of bytes\<close>

locale byte_sink =
  fixes sink :: "bytes \<Rightarrow> 's \<Rightarrow> (nat \<times> 's) option"
    and content :: "'s \<Rightarrow> bytes"
    and valid :: "'s \<Rightarrow> bool"
    and roomy :: "nat \<Rightarrow> 's \<Rightarrow> bool"
  assumes sink_cases: "valid s \<Longrightarrow> \<exists>r s'. sink d s = Some (r, s') \<and> valid s' \<and>
      (r = length d \<and> content s' = content s @ d \<or> r = 0 \<and> content s' = content s)"
    and sink_roomy: "valid s \<Longrightarrow> roomy n s \<Longrightarrow> length d \<le> n \<Longrightarrow> sink d s = Some (r, s') \<Longrightarrow>
      r = length d \<and> roomy n s'"
begin

fun sink_all :: "bytes list \<Rightarrow> 's \<Rightarrow> 's option" where
  "sink_all [] s = Some s"
| "sink_all (d # ds) s = Option.bind (sink d s) (\<lambda>(r, s). sink_all ds s)"

lemma sink_all_pieces:
  "valid s \<Longrightarrow> \<exists>s' ks. sink_all ds s = Some s' \<and> valid s' \<and> content s' = content s @ concat ks \<and> subseq ks ds"
proof (induction ds arbitrary: s)
  case Nil
  then show ?case by (auto intro!: exI [of _ "[]"])
next
  case (Cons d ds)
  obtain r s1 where 1: "sink d s = Some (r, s1)" "valid s1"
    "content s1 = content s @ d \<or> content s1 = content s"
    using sink_cases [OF Cons.prems, of d] by blast
  obtain s' ks where 2: "sink_all ds s1 = Some s'" "valid s'" "content s' = content s1 @ concat ks" "subseq ks ds"
    using Cons.IH [OF 1(2)] by blast
  from 1(3) show ?case
  proof
    assume "content s1 = content s @ d"
    with 1(1) 2 have "sink_all (d # ds) s = Some s'" "valid s'" "content s' = content s @ concat (d # ks)"
      "subseq (d # ks) (d # ds)" by auto
    then show ?thesis by blast
  next
    assume "content s1 = content s"
    with 1(1) 2 have "sink_all (d # ds) s = Some s'" "valid s'" "content s' = content s @ concat ks"
      "subseq ks (d # ds)" by auto
    then show ?thesis by blast
  qed
qed

lemma sink_all_roomy:
  "valid s \<Longrightarrow> roomy n s \<Longrightarrow> \<forall>d \<in> set ds. length d \<le> n \<Longrightarrow>
   \<exists>s'. sink_all ds s = Some s' \<and> valid s' \<and> roomy n s' \<and> content s' = content s @ concat ds"
proof (induction ds arbitrary: s)
  case Nil
  then show ?case by (auto intro!: exI [of _ "[]"])
next
  case (Cons d ds)
  obtain r s1 where 1: "sink d s = Some (r, s1)" "valid s1"
    "r = length d \<and> content s1 = content s @ d \<or> r = 0 \<and> content s1 = content s"
    using sink_cases [OF Cons.prems(1), of d] by blast
  with Cons.prems sink_roomy [OF Cons.prems(1,2) _ 1(1)] have "roomy n s1" "content s1 = content s @ d" by auto
  with Cons.IH [OF 1(2)] Cons.prems 1(1) show ?case by auto
qed

end

definition mbuf_put :: "mg_env \<Rightarrow> bytes \<Rightarrow> mbuf \<times> heap \<Rightarrow> (nat \<times> mbuf \<times> heap) option" where
  "mbuf_put e d ah = mbuf_append e (Some d) (length d) ah"

definition mbuf_valid :: "mbuf \<times> heap \<Rightarrow> bool" where
  "mbuf_valid ah \<longleftrightarrow> mbuf_inv (fst ah)"

definition mbuf_roomy :: "mg_env \<Rightarrow> nat \<Rightarrow> mbuf \<times> heap \<Rightarrow> bool" where
  "mbuf_roomy e n ah \<longleftrightarrow> (\<forall>k. \<not> oom (snd ah) k) \<and> (\<forall>k. place e k + n \<le> SIZE_MAX) \<and> mb_addr (fst ah) + n \<le> SIZE_MAX"

interpretation mb: byte_sink "mbuf_put e" "\<lambda>ah. held (fst ah)" mbuf_valid "mbuf_roomy e" for e
proof
  fix s d
  assume "mbuf_valid s"
  then have inv: "mbuf_inv (fst s)" by (simp add: mbuf_valid_def)
  show "\<exists>r s'. mbuf_put e d s = Some (r, s') \<and> mbuf_valid s' \<and>
      (r = length d \<and> held (fst s') = held (fst s) @ d \<or> r = 0 \<and> held (fst s') = held (fst s))"
    by (rule mbuf_insert_cases [OF inv order_refl order_refl [of "length d"], where e = e and h = "snd s"])
      (use inv length_held [OF inv] in \<open>auto simp: mbuf_put_def mbuf_append_def mbuf_valid_def\<close>)
next
  fix s n d r s'
  assume "mbuf_valid s" and room: "mbuf_roomy e n s" "length d \<le> n" and put: "mbuf_put e d s = Some (r, s')"
  then have inv: "mbuf_inv (fst s)" by (simp add: mbuf_valid_def)
  from room have *: "\<not> (\<exists>k. oom (snd s) k)" "\<not> SIZE_MAX < mb_addr (fst s) + length d"
    by (auto simp: mbuf_roomy_def)
  show "r = length d \<and> mbuf_roomy e n s'"
    by (rule mbuf_insert_cases [OF inv order_refl order_refl [of "length d"], where e = e and h = "snd s"])
      (use * room put in \<open>auto simp: mbuf_put_def mbuf_append_def mbuf_roomy_def\<close>)
qed


subsection \<open>Ownership\<close>

definition mbuf_owned :: "int \<Rightarrow> mbuf \<times> heap \<Rightarrow> bool" where
  "mbuf_owned l ah \<longleftrightarrow> mbuf_inv (fst ah) \<and> live (snd ah) = l + of_bool (mb_buf (fst ah) \<noteq> None)"

lemma mbuf_resize_props:
  assumes inv: "mbuf_inv a" and r: "mbuf_resize e n (a, h) = (a', h')"
  shows "mbuf_inv a'" "held a' = held a" "mb_len a' = mb_len a" "oom h' = oom h"
    "live h' - of_bool (mb_buf a' \<noteq> None) = live h - of_bool (mb_buf a \<noteq> None)"
proof -
  have "mbuf_inv a' \<and> held a' = held a \<and> mb_len a' = mb_len a \<and> oom h' = oom h \<and>
      live h' - of_bool (mb_buf a' \<noteq> None) = live h - of_bool (mb_buf a \<noteq> None)"
  proof (cases "mb_size a < n \<or> (n < mb_size a \<and> mb_len a \<le> n)")
  case False
  with r inv show ?thesis
    by (auto simp: mbuf_resize_def)
next
  case True
  with inv have n: "n \<noteq> 0 \<or> mb_buf a \<noteq> None" "mb_len a \<le> n" by (auto simp: mbuf_inv_def block_def)
  obtain p k where p: "realloc e (mb_buf a) n h = (p, k)" by fastforce
  show ?thesis
  proof (cases "n = 0")
    case True
    with p n have "p = None" "k = dealloc h" by (auto simp: realloc_def)
    with p r n True \<open>mb_size a < n \<or> _\<close> inv show ?thesis
      by (auto simp: mbuf_resize_def mbuf_inv_def held_def block_def)
  next
    case nz: False
    from p show ?thesis
    proof (cases rule: realloc_cases)
      case fail
      with p r True nz inv show ?thesis by (auto simp: mbuf_resize_def)
    next
      case (ok c ad)
      have "take (mb_len a) c = held a"
        using ok(5) [of "mb_len a"] n(2) inv by (simp add: mbuf_inv_def held_def block_def)
      with ok p r True nz inv n show ?thesis
        by (auto simp: mbuf_resize_def mbuf_inv_def held_def block_def)
    qed
  qed
  qed
  then show "mbuf_inv a'" "held a' = held a" "mb_len a' = mb_len a" "oom h' = oom h"
    "live h' - of_bool (mb_buf a' \<noteq> None) = live h - of_bool (mb_buf a \<noteq> None)" by simp_all
qed

lemma mbuf_init_props:
  assumes "mbuf_init e n h = (a, h')"
  shows "mbuf_inv a" "held a = []" "oom h' = oom h" "live h' = live h + of_bool (mb_buf a \<noteq> None)"
proof -
  let ?z = "\<lparr>mb_buf = None, mb_addr = 0, mb_len = 0, mb_size = 0\<rparr>"
  have "mbuf_inv ?z" by (simp add: mbuf_inv_def block_def)
  from mbuf_resize_props [OF this assms [unfolded mbuf_init_def]]
  show "mbuf_inv a" "held a = []" "oom h' = oom h" "live h' = live h + of_bool (mb_buf a \<noteq> None)"
    by (auto simp: held_def block_def)
qed

lemma mbuf_init_0: "mbuf_init e 0 h = (\<lparr>mb_buf = None, mb_addr = 0, mb_len = 0, mb_size = 0\<rparr>, h)"
  by (simp add: mbuf_init_def mbuf_resize_def)

lemma mbuf_free_eq:
  "mbuf_free e (m, h) =
     (if mb_buf m = None then (m, h)
      else (\<lparr>mb_buf = None, mb_addr = 0, mb_len = 0, mb_size = 0\<rparr>, dealloc h))"
  by (simp add: mbuf_free_def mbuf_init_0)

lemma mbuf_remove_props:
  assumes "mbuf_inv m"
  shows "mbuf_inv (mbuf_remove n m)" "mb_buf (mbuf_remove n m) = None \<longleftrightarrow> mb_buf m = None"
    "held (mbuf_remove n m) = (if n \<le> mb_len m then drop n (held m) else held m)"
  using assms
  by (cases "mb_buf m"; auto simp: mbuf_remove_def mbuf_inv_def held_def block_def min_def drop_take)+

datatype mbuf_op = Insert nat bytes | Remove nat | Resize nat | Trim | Clear | Free | Take bytes nat

definition mbuf_step :: "mg_env \<Rightarrow> mbuf_op \<Rightarrow> mbuf \<times> heap \<Rightarrow> (mbuf \<times> heap) option" where
  "mbuf_step e op ah =
     (case op of
        Insert off d \<Rightarrow> map_option snd (mbuf_insert e off (Some d) (length d) ah)
      | Remove n \<Rightarrow> Some (mbuf_remove n (fst ah), snd ah)
      | Resize n \<Rightarrow> Some (mbuf_resize e n ah)
      | Trim \<Rightarrow> Some (mbuf_trim e ah)
      | Clear \<Rightarrow> Some (mbuf_clear (fst ah), snd ah)
      | Free \<Rightarrow> Some (mbuf_free e ah)
      | Take d ad \<Rightarrow> map_option snd (mbuf_append_and_free e d ad (fst ah, (snd ah)\<lparr>live := live (snd ah) + 1\<rparr>)))"

lemma mbuf_insert_owned:
  assumes "mbuf_owned l (a, h)" "mbuf_insert e off (Some d) (length d) (a, h) = Some (r, a', h')"
  shows "mbuf_owned l (a', h')"
proof -
  from assms have inv: "mbuf_inv a" and off: "off \<le> mb_len a"
    by (auto simp: mbuf_owned_def mbuf_insert_def split: if_splits)
  have mono: "mb_buf a' \<noteq> None" if "mb_buf a \<noteq> None"
    using assms(2) that by (auto simp: mbuf_insert_def split: if_splits prod.splits option.splits)
  show ?thesis
    by (rule mbuf_insert_cases [OF inv off order_refl [of "length d"], where e = e and h = h])
      (use assms mono in \<open>auto simp: mbuf_owned_def\<close>)
qed

lemma mbuf_take_owned:
  assumes "mbuf_owned l (a, h)"
    and "mbuf_append_and_free e d ad (a, h\<lparr>live := live h + 1\<rparr>) = Some (r, a', h')"
  shows "mbuf_owned l (a', h')"
proof (cases "mb_len a = 0")
  case True
  with assms show ?thesis
    by (auto simp: mbuf_append_and_free_def mbuf_owned_def mbuf_inv_def block_def split: if_splits)
next
  case False
  with assms(2) obtain k where k: "mbuf_insert e (mb_len a) (Some d) (length d) (a, h\<lparr>live := live h + 1\<rparr>) = Some (r, a', k)"
    "h' = dealloc k" by (auto simp: mbuf_append_and_free_def split: option.splits)
  have "mbuf_owned (l + 1) (a, h\<lparr>live := live h + 1\<rparr>)" using assms(1) by (simp add: mbuf_owned_def)
  from mbuf_insert_owned [OF this k(1)] k(2) show ?thesis by (simp add: mbuf_owned_def)
qed

lemma mbuf_resize_owned: "mbuf_owned l s \<Longrightarrow> mbuf_owned l (mbuf_resize e n s)"
  using mbuf_resize_props(1,5) [of "fst s" e n "snd s" "fst (mbuf_resize e n s)" "snd (mbuf_resize e n s)"]
  by (auto simp: mbuf_owned_def)

lemma mbuf_step_owned:
  assumes "mbuf_owned l s" "mbuf_step e op s = Some t"
  shows "mbuf_owned l t"
proof (cases op)
  case (Insert off d)
  with assms show ?thesis
    by (cases s; cases t) (auto simp: mbuf_step_def intro: mbuf_insert_owned)
next
  case (Take d ad)
  with assms show ?thesis
    by (cases s; cases t) (auto simp: mbuf_step_def intro: mbuf_take_owned)
next
  case (Remove n)
  with assms mbuf_remove_props(1,2) [of "fst s" n] show ?thesis
    by (auto simp: mbuf_step_def mbuf_owned_def simp del: not_None_eq)
next
  case Clear
  with assms show ?thesis by (auto simp: mbuf_step_def mbuf_owned_def mbuf_clear_def mbuf_inv_def block_def)
next
  case Free
  with assms show ?thesis
    by (cases s; cases "mb_buf (fst s) = None")
      (auto simp: mbuf_step_def mbuf_owned_def mbuf_free_eq mbuf_inv_def block_def simp del: not_None_eq)
qed (use assms in \<open>auto simp: mbuf_step_def mbuf_trim_def intro: mbuf_resize_owned\<close>)

interpretation buffer_life: transition_system
  "\<lambda>ah. \<exists>n h. live h = l \<and> mbuf_init e n h = ah" "mbuf_step e" "mbuf_owned l" for l e
proof
  fix ah
  assume "\<exists>n h. live h = l \<and> mbuf_init e n h = ah"
  then obtain n h where "live h = l" "mbuf_init e n h = (fst ah, snd ah)" by auto
  with mbuf_init_props [OF this(2)] show "mbuf_owned l ah" by (auto simp: mbuf_owned_def)
qed (rule mbuf_step_owned)


definition env0 :: mg_env where
  "env0 = \<lparr>junk = (\<lambda>_. CHR ''?''), place = (\<lambda>k. 4096 * (k + 1)), bufsiz = 8192\<rparr>"

definition bad_heap :: heap where
  "bad_heap = \<lparr>oom = (\<lambda>n. n = 0), allocs = 0, live = 5\<rparr>"


text \<open>
  C17. Inserting is all or nothing: \<open>mbuf_insert\<close> puts the bytes at the offset, between what stood
  before and behind it, and says so, or returns zero and leaves the buffer as it was, also when
  the first attempt to get a larger block fails.
\<close>

theorem mbuf_insert_all_or_nothing:
  assumes "mbuf_inv a" and "off \<le> mb_len a"
  shows "\<exists>r a' h'. mbuf_insert e off (Some d) (length d) (a, h) = Some (r, a', h') \<and> mbuf_inv a' \<and>
      (r = length d \<and> held a' = take off (held a) @ d @ drop off (held a) \<or> r = 0 \<and> a' = a)"
  by (rule mbuf_insert_cases [OF assms order_refl [of "length d"], where e = e and h = h])
    (use assms(1) in auto)

lemma mbuf_insert_all_or_nothing_witness:
  "\<exists>r a' h'. mbuf_insert env0 1 (Some ''xyz'') (length ''xyz'')
       (\<lparr>mb_buf = Some ''ab'', mb_addr = 1, mb_len = 2, mb_size = 2\<rparr>, bad_heap) = Some (r, a', h') \<and> mbuf_inv a' \<and>
     (r = length ''xyz'' \<and> held a' = take 1 (held \<lparr>mb_buf = Some ''ab'', mb_addr = 1, mb_len = 2, mb_size = 2\<rparr>)
        @ ''xyz'' @ drop 1 (held \<lparr>mb_buf = Some ''ab'', mb_addr = 1, mb_len = 2, mb_size = 2\<rparr>)
      \<or> r = 0 \<and> a' = \<lparr>mb_buf = Some ''ab'', mb_addr = 1, mb_len = 2, mb_size = 2\<rparr>)"
  by (rule mbuf_insert_all_or_nothing) (simp_all add: mbuf_inv_def block_def)

lemma mbuf_insert_roomy:
  assumes "mbuf_inv a" and "off \<le> mb_len a" and "\<forall>k. \<not> oom h k" and "mb_addr a + length d \<le> SIZE_MAX"
  shows "\<exists>a' h'. mbuf_insert e off (Some d) (length d) (a, h) = Some (length d, a', h') \<and> mbuf_inv a' \<and>
      held a' = take off (held a) @ d @ drop off (held a)"
  by (rule mbuf_insert_cases [OF assms(1,2) order_refl [of "length d"], where e = e and h = h])
    (use assms in auto)

end
