(* ===== verification/CDouble.thy ===== *)
theory CDouble
  imports CString "HOL-Library.Log_Nat"
begin

section \<open>IEEE doubles and the conversions the JSON library uses\<close>

text \<open>
  A double is a sign and an exact magnitude, an infinity, or a NaN.  \<open>dbl_of_rat\<close> rounds a
  rational to the nearest double (53 bits of significand, smallest exponent \<open>-1074\<close>, ties to
  even, overflow to infinity); \<open>strtod\<close> is the conversion function of \<open>stdlib.h\<close> on the only
  texts the parser ever hands to it, those made of digits, signs, a point and an exponent
  letter.  The last definition is the saturating conversion to \<open>int\<close> that \<open>cJSON.c\<close> repeats in
  three places.
\<close>

datatype dbl = DFin bool rat | DInf bool | DNan

fun dval :: "dbl \<Rightarrow> rat" where
  "dval (DFin s q) = (if s then - q else q)"
| "dval (DInf s) = 0"
| "dval DNan = 0"

text \<open>The comparisons \<open>d >= k\<close> and \<open>d <= k\<close> with an integer constant.\<close>

fun dbl_ge :: "dbl \<Rightarrow> int \<Rightarrow> bool" where
  "dbl_ge (DFin s q) k \<longleftrightarrow> of_int k \<le> dval (DFin s q)"
| "dbl_ge (DInf s) k \<longleftrightarrow> \<not> s"
| "dbl_ge DNan k \<longleftrightarrow> False"

fun dbl_le :: "dbl \<Rightarrow> int \<Rightarrow> bool" where
  "dbl_le (DFin s q) k \<longleftrightarrow> dval (DFin s q) \<le> of_int k"
| "dbl_le (DInf s) k \<longleftrightarrow> s"
| "dbl_le DNan k \<longleftrightarrow> False"

subsection \<open>Rounding\<close>

definition pow2 :: "int \<Rightarrow> rat" where
  "pow2 e = (if 0 \<le> e then 2 ^ nat e else 1 / 2 ^ nat (- e))"

definition floor_log2 :: "rat \<Rightarrow> int" where
  "floor_log2 q =
     (let (a, b) = quotient_of q; l = bitlen a - bitlen b
      in if pow2 l \<le> q then l else l - 1)"

definition round_half_even :: "rat \<Rightarrow> int" where
  "round_half_even r =
     (let f = \<lfloor>r\<rfloor>; d = r - of_int f
      in if d < 1 / 2 then f else if 1 / 2 < d then f + 1 else if even f then f else f + 1)"

definition rnd53 :: "rat \<Rightarrow> rat" where
  "rnd53 q =
     (if q = 0 then 0
      else let e = max (floor_log2 q - 52) (- 1074)
           in of_int (round_half_even (q / pow2 e)) * pow2 e)"

definition dbl_of_rat :: "bool \<Rightarrow> rat \<Rightarrow> dbl" where
  "dbl_of_rat s q = (let r = rnd53 q in if 2 ^ 1024 \<le> r then DInf s else DFin s r)"

lemma round_half_even_of_int [simp]: "round_half_even (of_int n) = n"
  by (simp add: round_half_even_def)

lemma pow2_nonneg: "0 \<le> e \<Longrightarrow> pow2 e = of_int (2 ^ nat e)"
  by (simp add: pow2_def)

lemma pow2_pos [simp]: "0 < pow2 e"
  by (simp add: pow2_def)

lemma floor_log2_nat_le:
  assumes "0 < n" and "n < 2 ^ k"
  shows "floor_log2 (of_nat n) \<le> int k - 1"
proof -
  have q: "quotient_of (of_nat n) = (int n, 1)"
    using quotient_of_int [of "int n"] by simp
  have "bitlen (int n) \<le> int k"
    using assms bitlen_le_iff_power [of "int n" k] by simp
  moreover have "bitlen (1::int) = 1"
    by (simp add: compute_bitlen [of 1] compute_bitlen [of 0])
  ultimately show ?thesis
    by (simp add: floor_log2_def q Let_def)
qed

text \<open>Integers below \<open>2^53\<close> are doubles: rounding leaves them alone.\<close>

lemma rnd53_nat:
  assumes "n < 2 ^ 53"
  shows "rnd53 (of_nat n) = of_nat n"
proof (cases "n = 0")
  case False
  define e where "e = max (floor_log2 (of_nat n) - 52) (- 1074)"
  have "e \<le> 0"
    using floor_log2_nat_le [of n 53] assms False by (simp add: e_def)
  then have p: "pow2 e = 1 / 2 ^ nat (- e)"
    by (simp add: pow2_def)
  have "(of_nat n :: rat) / pow2 e = of_int (int n * 2 ^ nat (- e))"
    by (simp add: p)
  then have "round_half_even (of_nat n / pow2 e) = int n * 2 ^ nat (- e)"
    by (simp only: round_half_even_of_int)
  with False show ?thesis
    by (simp add: rnd53_def Let_def e_def [symmetric] p)
qed (simp add: rnd53_def)

lemma dbl_of_nat:
  assumes "n < 2 ^ 53"
  shows "dbl_of_rat s (of_nat n) = DFin s (of_nat n)"
proof -
  have "(of_nat n :: rat) < of_nat (2 ^ 53)"
    using assms by (simp only: of_nat_less_iff)
  then have "\<not> (2 ^ 1024 \<le> (of_nat n :: rat))"
    by simp
  then show ?thesis
    by (simp add: dbl_of_rat_def rnd53_nat [OF assms])
qed

lemma dbl_of_rat_not_NaN [simp]: "dbl_of_rat s q \<noteq> DNan"
  by (simp add: dbl_of_rat_def Let_def)

text \<open>The binary exponent is the right one, so what is at least \<open>2^1024\<close> rounds to an infinity.\<close>

lemma pow2_powi: "pow2 e = 2 powi e"
  by (simp add: pow2_def power_int_def field_simps)

lemma log_quotient:
  fixes B :: rat and la lb :: int
  assumes "0 < B" and "B powi (la - 1) \<le> of_int a" and "of_int a < B powi la"
    and "B powi (lb - 1) \<le> of_int b" and "of_int b < B powi lb"
  shows "B powi (la - lb - 1) < of_int a / of_int b" and "of_int a / of_int b < B powi (la - lb + 1)"
proof -
  have b: "(0::rat) < of_int b" using assms(1,4) by (meson less_le_trans zero_less_power_int)
  have "B powi (la - lb - 1) * of_int b < B powi (la - lb - 1) * B powi lb"
    using assms(1,5) by (intro mult_strict_left_mono) simp_all
  also have "\<dots> = B powi (la - 1)" using assms(1) by (simp add: power_int_add [symmetric])
  finally show "B powi (la - lb - 1) < of_int a / of_int b"
    using assms(2) b by (simp add: field_simps)
  have "of_int a < B powi la" by (rule assms(3))
  also have "\<dots> = B powi (la - lb + 1) * B powi (lb - 1)" using assms(1) by (simp add: power_int_add [symmetric])
  also have "\<dots> \<le> B powi (la - lb + 1) * of_int b"
    using assms(1,4) by (intro mult_left_mono) simp_all
  finally show "of_int a / of_int b < B powi (la - lb + 1)" using b by (simp add: field_simps)
qed

lemma bitlen_powi:
  assumes "0 < a"
  shows "2 powi (bitlen a - 1) \<le> (of_int a :: rat)" and "(of_int a :: rat) < 2 powi (bitlen a)"
proof -
  have p: "0 < bitlen a" using bitlen_nonneg [of a] bitlen_eq_zero_iff [of a] assms by linarith
  have "2 ^ nat (bitlen a - 1) \<le> a" "a < 2 ^ nat (bitlen a)"
    using bitlen_bounds [OF assms] by auto
  then have "(of_int (2 ^ nat (bitlen a - 1)) :: rat) \<le> of_int a" "(of_int a :: rat) < of_int (2 ^ nat (bitlen a))"
    by (simp_all only: of_int_le_iff of_int_less_iff)
  then show "2 powi (bitlen a - 1) \<le> (of_int a :: rat)" "(of_int a :: rat) < 2 powi (bitlen a)"
    using p by (simp_all add: power_int_def)
qed

lemma floor_log2_bounds:
  assumes "0 < q"
  shows "pow2 (floor_log2 q) \<le> q" and "q < pow2 (floor_log2 q + 1)"
proof -
  obtain a b where ab: "quotient_of q = (a, b)" by fastforce
  have q: "q = of_int a / of_int b" "0 < b" using ab quotient_of_div quotient_of_denom_pos by blast+
  with assms have "0 < a" by (simp add: zero_less_divide_iff)
  note log_quotient [OF _ bitlen_powi [OF this] bitlen_powi [OF q(2)]]
  then have "2 powi (bitlen a - bitlen b - 1) < q" "q < 2 powi (bitlen a - bitlen b + 1)" using q(1) by simp_all
  then show "pow2 (floor_log2 q) \<le> q" "q < pow2 (floor_log2 q + 1)"
    by (auto simp: floor_log2_def ab Let_def pow2_powi)
qed

lemma round_half_even_ge: "of_int n \<le> r \<Longrightarrow> n \<le> round_half_even r"
  by (simp add: round_half_even_def Let_def le_floor_iff) (metis add.commute le_add_same_cancel1 le_floor_iff order.trans zle_add1_eq_le zless_add1_eq zero_le_one)

lemma rnd53_large:
  assumes "2 ^ 1024 \<le> q"
  shows "2 ^ 1024 \<le> rnd53 q"
proof -
  have "0 < q" by (rule less_le_trans [OF _ assms]) simp
  note b = floor_log2_bounds [OF this]
  have eq: "pow2 1024 = 2 ^ 1024" by (simp add: pow2_def)
  have l: "1024 \<le> floor_log2 q"
  proof (rule ccontr)
    assume "\<not> 1024 \<le> floor_log2 q"
    then have "pow2 (floor_log2 q + 1) \<le> pow2 1024"
      unfolding pow2_powi by (intro power_int_increasing) simp_all
    with b(2) assms show False by (simp only: eq)
  qed
  define e where "e = max (floor_log2 q - 52) (- 1074)"
  have e: "e = floor_log2 q - 52" using l by (simp add: e_def)
  have "of_int (2 ^ 52) * pow2 e = pow2 (floor_log2 q)"
    by (simp add: e pow2_powi power_int_diff)
  then have "of_int (2 ^ 52) * pow2 e \<le> q" using b(1) by simp
  then have "of_int (2 ^ 52) \<le> q / pow2 e" by (simp only: le_divide_eq pow2_pos if_True)
  then have "2 ^ 52 \<le> round_half_even (q / pow2 e)" by (rule round_half_even_ge)
  then have "of_int (2 ^ 52) * pow2 e \<le> of_int (round_half_even (q / pow2 e)) * pow2 e"
    by (intro mult_right_mono) (simp_all only: of_int_le_iff less_imp_le pow2_pos)
  also have "\<dots> = rnd53 q" using \<open>0 < q\<close> by (simp add: rnd53_def Let_def e_def)
  finally have "pow2 (floor_log2 q) \<le> rnd53 q" using \<open>of_int (2 ^ 52) * pow2 e = pow2 (floor_log2 q)\<close> by simp
  moreover have "pow2 1024 \<le> pow2 (floor_log2 q)"
    unfolding pow2_powi using l by (intro power_int_increasing) simp_all
  ultimately show ?thesis by (simp only: eq)
qed

subsection \<open>\<open>strtod\<close>\<close>

definition pow10 :: "int \<Rightarrow> rat" where
  "pow10 e = (if 0 \<le> e then 10 ^ nat e else 1 / 10 ^ nat (- e))"

lemma pow10_powi: "pow10 e = 10 powi e"
  by (simp add: pow10_def power_int_def field_simps)

text \<open>An optional sign: its value and the rest of the text.\<close>

fun strtod_sign :: "bytes \<Rightarrow> bool \<times> bytes" where
  "strtod_sign [] = (False, [])"
| "strtod_sign (c # s) =
     (if c = CHR ''-'' then (True, s) else if c = CHR ''+'' then (False, s) else (False, c # s))"

text \<open>The digits after a point, and the rest of the text.\<close>

fun strtod_frac :: "bytes \<Rightarrow> bytes \<times> bytes" where
  "strtod_frac [] = ([], [])"
| "strtod_frac (c # s) =
     (if c = CHR ''.'' then (takeWhile is_digit s, dropWhile is_digit s) else ([], c # s))"

text \<open>An exponent part counts only if a digit follows the letter and the optional sign.\<close>

fun strtod_exp :: "bytes \<Rightarrow> int \<times> bytes" where
  "strtod_exp [] = (0, [])"
| "strtod_exp (c # s) =
     (if c = CHR ''e'' \<or> c = CHR ''E''
      then let (neg, s') = strtod_sign s; ds = takeWhile is_digit s'
           in if ds = [] then (0, c # s)
              else ((if neg then - int (digits_val ds) else int (digits_val ds)),
                    dropWhile is_digit s')
      else (0, c # s))"

text \<open>The value, and the number of characters of the text that were used (0 on failure).\<close>

definition strtod :: "bytes \<Rightarrow> dbl \<times> nat" where
  "strtod s =
     (let (neg, s1) = strtod_sign s;
          ip = takeWhile is_digit s1;
          (fp, s3) = strtod_frac (dropWhile is_digit s1)
      in if ip = [] \<and> fp = [] then (DFin False 0, 0)
         else let (e, s4) = strtod_exp s3
              in (dbl_of_rat neg (of_nat (digits_val (ip @ fp)) * pow10 (e - int (length fp))),
                  length s - length s4))"

lemma strtod_used_le: "snd (strtod s) \<le> length s"
  by (simp add: strtod_def Let_def split: prod.split)

lemma strtod_not_NaN: "fst (strtod s) \<noteq> DNan"
  by (simp add: strtod_def Let_def split: prod.split)

lemma takeWhile_all: "\<forall>c \<in> set ds. P c \<Longrightarrow> takeWhile P ds = ds"
  and dropWhile_all: "\<forall>c \<in> set ds. P c \<Longrightarrow> dropWhile P ds = []"
  by (induction ds) auto

lemma digit_no_sign: "is_digit c \<Longrightarrow> strtod_sign (c # s) = (False, c # s)"
  by (auto simp: is_digit_def)

lemma strtod_digits:
  assumes "ds \<noteq> []" and "\<forall>c \<in> set ds. is_digit c" and "digits_val ds < 2 ^ 53"
  shows "strtod ds = (DFin False (of_nat (digits_val ds)), length ds)"
proof -
  have "strtod_sign ds = (False, ds)"
    using assms(1,2) by (cases ds) (simp_all add: digit_no_sign del: strtod_sign.simps)
  then show ?thesis
    using assms by (simp add: strtod_def takeWhile_all dropWhile_all pow10_def dbl_of_nat)
qed

subsection \<open>Conversion to \<open>int\<close> with saturation\<close>

definition trunc_rat :: "rat \<Rightarrow> int" where
  "trunc_rat q = (if 0 \<le> q then \<lfloor>q\<rfloor> else \<lceil>q\<rceil>)"

text \<open>
  A cast of a finite double in range truncates towards zero; the cast of a NaN is undefined,
  and an infinity never reaches the cast.
\<close>

definition saturate_int :: "dbl \<Rightarrow> int option" where
  "saturate_int d =
     (if dbl_ge d INT_MAX then Some INT_MAX
      else if dbl_le d INT_MIN then Some INT_MIN
      else case d of DFin s q \<Rightarrow> Some (trunc_rat (dval d)) | _ \<Rightarrow> None)"

lemma trunc_rat_bounds:
  assumes "of_int a < q" and "q < of_int b"
  shows "a \<le> trunc_rat q \<and> trunc_rat q \<le> b"
proof -
  have "a \<le> \<lfloor>q\<rfloor>" "\<lceil>q\<rceil> \<le> b"
    using assms by (simp_all add: le_floor_iff ceiling_le_iff)
  then show ?thesis
    by (cases "0 \<le> q")
      (auto simp: trunc_rat_def
        intro: order_trans [OF floor_le_ceiling] order_trans [OF _ floor_le_ceiling])
qed

lemma saturate_int_range:
  assumes "saturate_int d = Some i"
  shows "INT_MIN \<le> i \<and> i \<le> INT_MAX"
proof (cases "dbl_ge d INT_MAX \<or> dbl_le d INT_MIN")
  case True
  with assms show ?thesis by (auto simp: saturate_int_def INT_MAX_def INT_MIN_def split: if_splits)
next
  case False
  with assms obtain s q where d: "d = DFin s q" and i: "i = trunc_rat (dval d)"
    by (auto simp: saturate_int_def split: dbl.splits)
  from False d have "of_int INT_MIN < dval d" "dval d < of_int INT_MAX" by auto
  then show ?thesis using trunc_rat_bounds i by blast
qed

lemma saturate_int_defined: "d \<noteq> DNan \<Longrightarrow> \<exists>i. saturate_int d = Some i"
  by (cases d) (auto simp: saturate_int_def)

lemma saturate_int_of_int:
  assumes "INT_MIN \<le> n" and "n \<le> INT_MAX" and "dval (DFin s q) = of_int n"
  shows "saturate_int (DFin s q) = Some n"
  using assms by (auto simp: saturate_int_def trunc_rat_def)

end
