(* ===== verification/DlcState.thy ===== *)
theory DlcState
  imports CString CDouble
begin

section \<open>The server: its state\<close>

text \<open>
  The global state of \<open>dlc_server.c\<close>: the core state machine's variable and lock, the context
  \<open>g_ctx\<close>, and the static arrays of the functions.  An array is the list of its bytes.  A store
  past its end makes the list longer: the bytes past the capacity are the memory behind the
  array, so \<open>in_bounds\<close> (every list has the length of its array) says that nothing outside the
  arrays was overwritten.  What the code does after an overrun is modelled as if the
  array had been large enough.  A function has the result \<open>None\<close> where the C code would
  dereference a null or dangling pointer, or read past the end of a block.
\<close>

subsection \<open>Arrays\<close>

definition store :: "nat \<Rightarrow> bytes \<Rightarrow> bytes \<Rightarrow> bytes" where
  "store i bs a = take i a @ replicate (i - length a) NUL @ bs @ drop (i + length bs) a"

text \<open>\<open>strcpy\<close> and \<open>strcat\<close> into an array.\<close>

definition strcpy :: "bytes \<Rightarrow> bytes \<Rightarrow> bytes" where
  "strcpy a s = store 0 (c_str s @ [NUL]) a"

definition strcat :: "bytes \<Rightarrow> bytes \<Rightarrow> bytes" where
  "strcat a s = store (length (c_str a)) (c_str s @ [NUL]) a"

definition zeros :: "nat \<Rightarrow> bytes" where
  "zeros n = replicate n NUL"

lemma length_store [simp]: "length (store i bs a) = max (length a) (i + length bs)"
  by (simp add: store_def)

lemma store_inside: "i + length bs \<le> length a \<Longrightarrow> length (store i bs a) = length a"
  by simp

lemma length_strcpy: "length (c_str s) < length a \<Longrightarrow> length (strcpy a s) = length a"
  by (simp add: strcpy_def)

lemma c_str_strcpy [simp]: "c_str (strcpy a s) = c_str s"
  by (simp add: strcpy_def store_def)

lemma length_zeros [simp]: "length (zeros n) = n"
  by (simp add: zeros_def)

lemma c_str_zeros [simp]: "c_str (zeros n) = []"
  by (cases n) (simp_all add: zeros_def)

text \<open>
  The C string at the start of a block of memory; without a terminator in the block, reading
  it runs over the end.
\<close>

definition c_string_at :: "bytes \<Rightarrow> bytes option" where
  "c_string_at block = (if NUL \<in> set block then Some (c_str block) else None)"

subsection \<open>The configuration\<close>

text \<open>
  What the build decides: whether \<open>char\<close> is signed, and the threshold
  \<open>IDCM_LOG_LEVEL_DEFAULT\<close> below which \<open>LOG_PRINT\<close> does not evaluate its arguments.  The text
  that is logged is not modelled; the pointers it reads are.  \<open>fresh_byte\<close> is the unknown content of
  memory that was just allocated.
\<close>

record config =
  char_signed :: bool
  log_level_default :: nat
  fresh_byte :: char

definition IDCM_LOG_LEVEL_VERBOSE :: nat where "IDCM_LOG_LEVEL_VERBOSE = 1"
definition IDCM_LOG_LEVEL_INFO :: nat where "IDCM_LOG_LEVEL_INFO = 3"

definition logs_info :: "config \<Rightarrow> bool" where
  "logs_info cfg \<longleftrightarrow> log_level_default cfg \<le> IDCM_LOG_LEVEL_INFO"

subsection \<open>The core states\<close>

type_synonym stat = "8 word"

definition STAT_INVALID :: stat where "STAT_INVALID = 0xFF"
definition STAT_IDLE :: stat where "STAT_IDLE = 0x00"
definition DLC_PKG_NEW :: stat where "DLC_PKG_NEW = 0x01"
definition DLC_PKG_DOWNLOADING :: stat where "DLC_PKG_DOWNLOADING = 0x02"
definition DLC_PKG_READY :: stat where "DLC_PKG_READY = 0x03"
definition DLC_PKG_BAD :: stat where "DLC_PKG_BAD = 0x04"
definition ORCH_CON_ERR :: stat where "ORCH_CON_ERR = 0x10"
definition ORCH_PKG_DOWNLOADING :: stat where "ORCH_PKG_DOWNLOADING = 0x20"
definition ORCH_PKG_READY :: stat where "ORCH_PKG_READY = 0x30"
definition ORCH_PKG_BAD :: stat where "ORCH_PKG_BAD = 0x40"
definition ORCH_TDR_RUN :: stat where "ORCH_TDR_RUN = 0x50"
definition ORCH_TDR_FAIL :: stat where "ORCH_TDR_FAIL = 0x60"
definition ORCH_TDR_SUCC :: stat where "ORCH_TDR_SUCC = 0x70"

lemmas stat_defs = STAT_INVALID_def STAT_IDLE_def DLC_PKG_NEW_def DLC_PKG_DOWNLOADING_def
  DLC_PKG_READY_def DLC_PKG_BAD_def ORCH_CON_ERR_def ORCH_PKG_DOWNLOADING_def
  ORCH_PKG_READY_def ORCH_PKG_BAD_def ORCH_TDR_RUN_def ORCH_TDR_FAIL_def ORCH_TDR_SUCC_def

subsection \<open>Connections, handlers and threads\<close>

text \<open>
  A connection is known by the side it belongs to and a number; a pointer that may be NULL is an
  option.
\<close>

datatype conn = Dmc_conn nat | Hmi_conn nat | Cgw_conn nat

datatype api = PkgNew | PkgStat | TdrRun | TdrStat

datatype payload_gener = Cgw_api_payload_pkg_new | Cgw_api_payload_default

record api_handler =
  cgw_thread_exit :: bool
  api_url :: bytes
  payload_gener :: payload_gener
  nc :: "conn option"

text \<open>A request thread is first started and then polls the connection it opened.\<close>

datatype thread =
  Hmi_thread | Cgw_msg_monitor_thread | Dmc_downloader_thread | Cgw_pkg_upload_thread
| Cgw_msg_thread api
| Cgw_msg_polling api conn

subsection \<open>The objects shown to the user\<close>

record bs_pkg_info =
  pi_door_module :: bytes
  pi_dev_id :: bytes
  pi_soft_id :: bytes
  pi_release_notes :: bytes

record bs_ecu_upgrade_stat =
  us_dev_id :: bytes
  us_soft_id :: bytes
  us_esti_time :: bytes
  us_start_time :: bytes
  us_time_stamp :: bytes
  us_door_module :: bytes
  us_status :: bytes
  us_progress :: int

text \<open>
  \<open>progress_percent\<close> is a \<open>float\<close> that is only ever assigned an \<open>int\<close>: it holds the integer
  rounded to 24 significant bits.  The cast back to \<open>int\<close> has no value out of range.
\<close>

definition float_of_int :: "int \<Rightarrow> int" where
  "float_of_int i =
     (let k = nat (bitlen \<bar>i\<bar> - 24)
      in sgn i * round_half_even (of_int \<bar>i\<bar> / 2 ^ k) * 2 ^ k)"

definition int_of_float :: "int \<Rightarrow> int option" where
  "int_of_float f = (if INT_MIN \<le> f \<and> f \<le> INT_MAX then Some f else None)"

text \<open>\<open>pkg_url\<close> points to a literal, or into the array of the current manifest.\<close>

datatype url_ref = Url_literal bytes | Url_of_manifest

subsection \<open>The world\<close>

text \<open>
  The globals, the threads that were started and have not ended, and what the program did to
  its surroundings: messages sent on connections, requests posted to the orchestrator, commands
  run, connections marked with \<open>MG_F_CLOSE_IMMEDIATELY\<close>.  \<open>recv_mbuf\<close> is the receive buffer of each open connection.
  \<open>stack_ok\<close> becomes false when a text overruns a local array.
\<close>

record world =
  g_stat :: stat
  g_stat_lock :: bool
  dmc :: "conn option"
  hmi :: "conn option"
  downloader_thread_exit :: bool
  hmi_thread_exit :: bool
  cgw_api_pkg_new :: api_handler
  cgw_api_pkg_stat :: api_handler
  cgw_api_tdr_run :: api_handler
  cgw_api_tdr_stat :: api_handler
  upload_api :: bytes
  hmi_pkg_info :: bs_pkg_info
  hmi_upgrade_stat :: bs_ecu_upgrade_stat
  tftp_server :: bytes
  downloader :: bytes
  ctx_pkg_url :: url_ref
  cmd_buf :: bytes
  cur_dev_id :: bytes
  cur_pkg_cdn_url :: bytes
  cmd_output :: bytes
  monitor_resp :: bytes
  hmi_response :: bytes
  hmi_uuid :: bytes
  inventory_resp :: bytes
  upload_cmd :: bytes
  tdr_response :: bytes
  payload_buf :: bytes
  stack_ok :: bool
  recv_mbuf :: "conn \<Rightarrow> bytes option"
  threads :: "thread list"
  sent :: "(conn \<times> bytes) list"
  posted :: "(bytes \<times> bytes) list"
  commands :: "bytes list"
  closing :: "conn list"
  wheap :: heap

definition pkg_url_text :: "world \<Rightarrow> bytes" where
  "pkg_url_text w =
     (case ctx_pkg_url w of Url_literal s \<Rightarrow> s | Url_of_manifest \<Rightarrow> c_str (cur_pkg_cdn_url w))"

text \<open>Every array of the program with its capacity.\<close>

definition arrays :: "world \<Rightarrow> (bytes \<times> nat) list" where
  "arrays w =
     [(pi_door_module (hmi_pkg_info w), 8), (pi_dev_id (hmi_pkg_info w), 32),
      (pi_soft_id (hmi_pkg_info w), 32), (pi_release_notes (hmi_pkg_info w), 256),
      (us_dev_id (hmi_upgrade_stat w), 32), (us_soft_id (hmi_upgrade_stat w), 32),
      (us_esti_time (hmi_upgrade_stat w), 64), (us_start_time (hmi_upgrade_stat w), 32),
      (us_time_stamp (hmi_upgrade_stat w), 32), (us_door_module (hmi_upgrade_stat w), 8),
      (us_status (hmi_upgrade_stat w), 15),
      (cmd_buf w, 3096), (cur_dev_id w, 32), (cur_pkg_cdn_url w, 128), (cmd_output w, 1024),
      (monitor_resp w, 2048), (hmi_response w, 1024), (hmi_uuid w, 64), (inventory_resp w, 1024),
      (upload_cmd w, 128), (tdr_response w, 512), (payload_buf w, 256)]"

definition in_bounds :: "world \<Rightarrow> bool" where
  "in_bounds w \<longleftrightarrow> (\<forall>(a, n) \<in> set (arrays w). length a = n) \<and> stack_ok w"

subsection \<open>Starting threads and sending\<close>

definition mg_start_thread :: "thread \<Rightarrow> world \<Rightarrow> world" where
  "mg_start_thread t w = w\<lparr>threads := threads w @ [t]\<rparr>"

text \<open>\<open>mg_send\<close> through a pointer: NULL, and a connection that was closed, are undefined.\<close>

definition mg_send :: "conn option \<Rightarrow> bytes \<Rightarrow> world \<Rightarrow> world option" where
  "mg_send p bs w =
     do { c \<leftarrow> p; buf \<leftarrow> recv_mbuf w c; Some (w\<lparr>sent := sent w @ [(c, bs)]\<rparr>) }"

subsection \<open>The lock\<close>

definition lock :: "world \<Rightarrow> world" where
  "lock w = w\<lparr>g_stat_lock := True\<rparr>"

definition unlock :: "world \<Rightarrow> world" where
  "unlock w = w\<lparr>g_stat_lock := False\<rparr>"

text \<open>
  \<open>wait_stat_unlocked\<close>: \<open>seen k\<close> is the value of the lock when the loop reads it for the time
  \<open>k\<close>.  The result is the return value and the number of one-second sleeps; the counter \<open>t\<close> is
  an \<open>unsigned int\<close>, so fuel stands for the iterations allowed before it would wrap around.
\<close>

fun wait_loop :: "nat \<Rightarrow> (nat \<Rightarrow> bool) \<Rightarrow> 32 word \<Rightarrow> 32 word \<Rightarrow> nat \<Rightarrow> (bool \<times> nat) option" where
  "wait_loop 0 seen timeout t k = None"
| "wait_loop (Suc fuel) seen timeout t k =
     (if seen k \<and> t < timeout then wait_loop fuel seen timeout (t + 100) (k + 1)
      else Some (\<not> seen (k + 1), k))"

definition wait_stat_unlocked :: "(nat \<Rightarrow> bool) \<Rightarrow> 32 word \<Rightarrow> (bool \<times> nat) option" where
  "wait_stat_unlocked seen timeout = wait_loop ((unat timeout + 98) div 100 + 1) seen timeout 1 0"

text \<open>Each round adds 100 to the counter, so the time-out bounds the rounds.\<close>

lemma wait_loop_ends:
  assumes "unat timeout + 100 < 2 ^ 32" and "unat timeout \<le> unat t + 100 * fuel" and "unat t < unat timeout + 100"
  shows "\<exists>r n. wait_loop (Suc fuel) seen timeout t k = Some (r, n) \<and> k \<le> n \<and> n \<le> k + fuel \<and>
    (\<forall>j < n. k \<le> j \<longrightarrow> seen j) \<and> (r \<longleftrightarrow> \<not> seen (n + 1)) \<and>
    (unat t + 100 * (n - k) < unat timeout \<longrightarrow> \<not> seen n)"
  using assms(2,3)
proof (induction fuel arbitrary: t k)
  case 0
  then show ?case by (auto simp: word_less_nat_alt)
next
  case (Suc fuel)
  show ?case
  proof (cases "seen k \<and> t < timeout")
    case True
    then have lt: "unat t < unat timeout" by (simp add: word_less_nat_alt)
    then have t': "unat (t + 100) = unat t + 100"
      using assms(1) by (subst unat_add_lem [THEN iffD1]) simp_all
    then have "unat timeout \<le> unat (t + 100) + 100 * fuel" "unat (t + 100) < unat timeout + 100"
      using Suc.prems lt by simp_all
    from Suc.IH [OF this, of "k + 1"] obtain r n where
      w: "wait_loop (Suc fuel) seen timeout (t + 100) (k + 1) = Some (r, n)" and
      n: "k + 1 \<le> n" "n \<le> k + 1 + fuel" "\<forall>j < n. k + 1 \<le> j \<longrightarrow> seen j" "r \<longleftrightarrow> \<not> seen (n + 1)"
        "unat t + 100 + 100 * (n - (k + 1)) < unat timeout \<longrightarrow> \<not> seen n"
      unfolding t' by blast
    have "\<forall>j < n. k \<le> j \<longrightarrow> seen j"
    proof (intro allI impI)
      fix j assume "j < n" "k \<le> j"
      then show "seen j" using n(3) True by (cases "j = k") auto
    qed
    moreover have "100 + 100 * (n - (k + 1)) = 100 * (n - k)" using n(1) by simp
    then have "unat t + 100 * (n - k) < unat timeout \<longrightarrow> \<not> seen n" using n(5) by simp
    moreover have "wait_loop (Suc (Suc fuel)) seen timeout t k = Some (r, n)"
      using True w by (simp only: wait_loop.simps) simp
    moreover have "k \<le> n" "n \<le> k + Suc fuel" using n(1,2) by simp_all
    ultimately show ?thesis using n(4) by blast
  next
    case False
    then show ?thesis by (auto simp: word_less_nat_alt)
  qed
qed

end
