(* ===== verification/DlcCore.thy ===== *)
theory DlcCore
  imports DlcState
begin

section \<open>The server: initialisation and the core state machine\<close>

text \<open>
  \<open>init_context\<close>, \<open>init_hmi_objs\<close>, the payload generators and \<open>core_state_handler\<close> of
  \<open>dlc_server.c\<close>.  Starting a thread adds it to \<open>threads\<close>; what the thread then does is a
  step of its own.
\<close>

subsection \<open>Start\<close>

text \<open>The globals before \<open>main\<close>: static storage is zero.\<close>

definition zero_handler :: api_handler where
  "zero_handler =
     \<lparr>cgw_thread_exit = False, api_url = [], payload_gener = Cgw_api_payload_default, nc = None\<rparr>"

definition zero_pkg_info :: bs_pkg_info where
  "zero_pkg_info =
     \<lparr>pi_door_module = zeros 8, pi_dev_id = zeros 32, pi_soft_id = zeros 32,
      pi_release_notes = zeros 256\<rparr>"

definition zero_upgrade_stat :: bs_ecu_upgrade_stat where
  "zero_upgrade_stat =
     \<lparr>us_dev_id = zeros 32, us_soft_id = zeros 32, us_esti_time = zeros 64,
      us_start_time = zeros 32, us_time_stamp = zeros 32, us_door_module = zeros 8,
      us_status = zeros 15, us_progress = 0\<rparr>"

definition zero_world :: "heap \<Rightarrow> world" where
  "zero_world h =
     \<lparr>g_stat = 0, g_stat_lock = False, dmc = None, hmi = None,
      downloader_thread_exit = False, hmi_thread_exit = False,
      cgw_api_pkg_new = zero_handler, cgw_api_pkg_stat = zero_handler,
      cgw_api_tdr_run = zero_handler, cgw_api_tdr_stat = zero_handler, upload_api = [],
      hmi_pkg_info = zero_pkg_info, hmi_upgrade_stat = zero_upgrade_stat,
      tftp_server = [], downloader = [], ctx_pkg_url = Url_literal [],
      cmd_buf = zeros 3096, cur_dev_id = zeros 32, cur_pkg_cdn_url = zeros 128,
      cmd_output = zeros 1024, monitor_resp = zeros 2048, hmi_response = zeros 1024,
      hmi_uuid = zeros 64, inventory_resp = zeros 1024, upload_cmd = zeros 128,
      tdr_response = zeros 512, payload_buf = zeros 256, stack_ok = True,
      recv_mbuf = (\<lambda>_. None), threads = [], sent = [], posted = [], commands = [],
      closing = [], wheap = h\<rparr>"

definition init_hmi_objs :: "world \<Rightarrow> world" where
  "init_hmi_objs w =
     (let pkg = hmi_pkg_info w; u = hmi_upgrade_stat w
      in w\<lparr>hmi_pkg_info :=
             pkg\<lparr>pi_door_module := strcpy (pi_door_module pkg) ''no'',
                 pi_dev_id := strcpy (pi_dev_id pkg) ''xxx'',
                 pi_soft_id := strcpy (pi_soft_id pkg) ''wpc.1.0.0.0'',
                 pi_release_notes := strcpy (pi_release_notes pkg) ''N/A''\<rparr>,
           hmi_upgrade_stat :=
             u\<lparr>us_dev_id := strcpy (us_dev_id u) ''xxx'',
               us_soft_id := strcpy (us_soft_id u) ''wpc.1.0.0.0'',
               us_esti_time := strcpy (us_esti_time u) ''00:00:00 01-01-1900'',
               us_start_time := strcpy (us_start_time u) ''00:00:00 01-01-1900'',
               us_time_stamp := strcpy (us_time_stamp u) ''00:00:00 01-01-1900'',
               us_door_module := strcpy (us_door_module u) ''no'',
               us_status := strcpy (us_status u) ''in progress'',
               us_progress := 0\<rparr>\<rparr>)"

definition make_handler :: "bytes \<Rightarrow> payload_gener \<Rightarrow> api_handler" where
  "make_handler url g =
     \<lparr>cgw_thread_exit = False, api_url = url, payload_gener = g, nc = None\<rparr>"

definition init_context :: "world \<Rightarrow> world" where
  "init_context w0 =
     (let w = init_hmi_objs (w0\<lparr>dmc := None, hmi := None, hmi_thread_exit := False,
                                downloader_thread_exit := False\<rparr>)
      in w\<lparr>cgw_api_pkg_new :=
             make_handler ''http://192.168.0.2:8018/pkg/new'' Cgw_api_payload_pkg_new,
           cgw_api_pkg_stat :=
             make_handler ''http://192.168.0.2:8018/pkg/sta'' Cgw_api_payload_default,
           cgw_api_tdr_run :=
             make_handler ''http://192.168.0.2:8018/tdr/run'' Cgw_api_payload_pkg_new,
           cgw_api_tdr_stat :=
             make_handler ''http://192.168.0.2:8018/tdr/stat'' Cgw_api_payload_default,
           upload_api := ''http://192.168.0.2:8018/upload'',
           ctx_pkg_url := Url_literal ''ftp://speedtest.tele2.net/1KB.zip'',
           cur_dev_id := store 0 (zeros 32) (cur_dev_id w),
           cur_pkg_cdn_url := store 0 (zeros 128) (cur_pkg_cdn_url w),
           downloader := ''curl --output /share/wpc.1.0.0'',
           tftp_server := ''sudo ./tftpserver''\<rparr>)"

definition boot :: "heap \<Rightarrow> world" where
  "boot h = init_context (zero_world h)"

subsection \<open>The four handlers by name\<close>

fun handler :: "api \<Rightarrow> world \<Rightarrow> api_handler" where
  "handler PkgNew w = cgw_api_pkg_new w"
| "handler PkgStat w = cgw_api_pkg_stat w"
| "handler TdrRun w = cgw_api_tdr_run w"
| "handler TdrStat w = cgw_api_tdr_stat w"

fun set_handler :: "api \<Rightarrow> api_handler \<Rightarrow> world \<Rightarrow> world" where
  "set_handler PkgNew x w = w\<lparr>cgw_api_pkg_new := x\<rparr>"
| "set_handler PkgStat x w = w\<lparr>cgw_api_pkg_stat := x\<rparr>"
| "set_handler TdrRun x w = w\<lparr>cgw_api_tdr_run := x\<rparr>"
| "set_handler TdrStat x w = w\<lparr>cgw_api_tdr_stat := x\<rparr>"

definition set_nc :: "api \<Rightarrow> conn option \<Rightarrow> world \<Rightarrow> world" where
  "set_nc a c w = set_handler a ((handler a w)\<lparr>nc := c\<rparr>) w"

definition set_exit :: "api \<Rightarrow> bool \<Rightarrow> world \<Rightarrow> world" where
  "set_exit a b w = set_handler a ((handler a w)\<lparr>cgw_thread_exit := b\<rparr>) w"

definition set_stat :: "stat \<Rightarrow> world \<Rightarrow> world" where
  "set_stat s w = w\<lparr>g_stat := s\<rparr>"

subsection \<open>The core state machine\<close>

definition dmc_downloader_run :: "world \<Rightarrow> world" where
  "dmc_downloader_run w = mg_start_thread Dmc_downloader_thread w"

text \<open>
  The argument \<open>STAT_INVALID\<close> leaves the state alone, so the action of the present state is
  taken once more.
\<close>

definition core_state_handler :: "stat \<Rightarrow> world \<Rightarrow> world" where
  "core_state_handler reset w0 =
     (let w = (if reset \<noteq> STAT_INVALID then set_stat reset w0 else w0); s = g_stat w
      in if s = STAT_IDLE then w
         else if s = DLC_PKG_NEW then set_stat DLC_PKG_DOWNLOADING (dmc_downloader_run w)
         else if s = DLC_PKG_DOWNLOADING then w
         else if s = DLC_PKG_READY then mg_start_thread (Cgw_msg_thread PkgNew) w
         else if s = ORCH_CON_ERR then w
         else if s = ORCH_PKG_DOWNLOADING
         then (if nc (cgw_api_pkg_stat w) = None
               then mg_start_thread (Cgw_msg_thread PkgStat) w else w)
         else if s = ORCH_PKG_BAD then w
         else if s = ORCH_PKG_READY then mg_start_thread (Cgw_msg_thread TdrRun) w
         else if s = ORCH_TDR_RUN then mg_start_thread (Cgw_msg_thread TdrStat) w
         else if s = ORCH_TDR_FAIL then w
         else if s = ORCH_TDR_SUCC then w
         else w)"

text \<open>
  The abstract machine: which state is acted on, the state that is left, and the thread that is
  started, as tables.
\<close>

definition acted_on :: "stat \<Rightarrow> stat \<Rightarrow> stat" where
  "acted_on reset s = (if reset = STAT_INVALID then s else reset)"

definition left_in :: "stat \<Rightarrow> stat" where
  "left_in s = (if s = DLC_PKG_NEW then DLC_PKG_DOWNLOADING else s)"

definition start_table :: "(stat \<times> thread) list" where
  "start_table =
     [(DLC_PKG_NEW, Dmc_downloader_thread), (DLC_PKG_READY, Cgw_msg_thread PkgNew),
      (ORCH_PKG_DOWNLOADING, Cgw_msg_thread PkgStat), (ORCH_PKG_READY, Cgw_msg_thread TdrRun),
      (ORCH_TDR_RUN, Cgw_msg_thread TdrStat)]"

definition started_in :: "stat \<Rightarrow> conn option \<Rightarrow> thread list" where
  "started_in s stat_nc =
     (if s = ORCH_PKG_DOWNLOADING \<and> stat_nc \<noteq> None then []
      else case map_of start_table s of None \<Rightarrow> [] | Some t \<Rightarrow> [t])"

lemma stat_distinct [simp]:
  "DLC_PKG_NEW \<noteq> STAT_IDLE" "DLC_PKG_DOWNLOADING \<noteq> STAT_IDLE" "DLC_PKG_READY \<noteq> STAT_IDLE"
  "ORCH_CON_ERR \<noteq> STAT_IDLE" "ORCH_PKG_DOWNLOADING \<noteq> STAT_IDLE" "ORCH_PKG_READY \<noteq> STAT_IDLE"
  "ORCH_TDR_RUN \<noteq> STAT_IDLE" "DLC_PKG_DOWNLOADING \<noteq> DLC_PKG_NEW" "DLC_PKG_READY \<noteq> DLC_PKG_NEW"
  "ORCH_CON_ERR \<noteq> DLC_PKG_NEW" "ORCH_PKG_DOWNLOADING \<noteq> DLC_PKG_NEW" "ORCH_PKG_READY \<noteq> DLC_PKG_NEW"
  "ORCH_TDR_RUN \<noteq> DLC_PKG_NEW" "DLC_PKG_READY \<noteq> DLC_PKG_DOWNLOADING"
  "ORCH_PKG_DOWNLOADING \<noteq> DLC_PKG_DOWNLOADING" "ORCH_PKG_READY \<noteq> DLC_PKG_DOWNLOADING"
  "ORCH_TDR_RUN \<noteq> DLC_PKG_DOWNLOADING" "ORCH_PKG_DOWNLOADING \<noteq> DLC_PKG_READY"
  "ORCH_PKG_READY \<noteq> DLC_PKG_READY" "ORCH_TDR_RUN \<noteq> DLC_PKG_READY"
  "ORCH_PKG_DOWNLOADING \<noteq> ORCH_CON_ERR" "ORCH_PKG_READY \<noteq> ORCH_CON_ERR"
  "ORCH_TDR_RUN \<noteq> ORCH_CON_ERR" "ORCH_PKG_READY \<noteq> ORCH_PKG_DOWNLOADING"
  "ORCH_TDR_RUN \<noteq> ORCH_PKG_DOWNLOADING" "ORCH_PKG_READY \<noteq> ORCH_PKG_BAD"
  "ORCH_TDR_RUN \<noteq> ORCH_PKG_BAD" "ORCH_TDR_RUN \<noteq> ORCH_PKG_READY"
  by (simp_all add: stat_defs)

declare stat_distinct [THEN not_sym, simp]

text \<open>The action of a state, as two fields and nothing else.\<close>

lemma core_state_handler_eq:
  "core_state_handler reset w =
     w\<lparr>g_stat := left_in (acted_on reset (g_stat w)),
       threads := threads w @ started_in (acted_on reset (g_stat w)) (nc (cgw_api_pkg_stat w))\<rparr>"
proof -
  define s where "s = acted_on reset (g_stat w)"
  define v where "v = w\<lparr>g_stat := s\<rparr>"
  have v: "(if reset \<noteq> STAT_INVALID then set_stat reset w else w) = v"
    by (simp add: v_def s_def acted_on_def set_stat_def)
  have g: "g_stat v = s" and n: "cgw_api_pkg_stat v = cgw_api_pkg_stat w"
    by (simp_all add: v_def)
  note unfold = core_state_handler_def v Let_def g n
  consider "s = DLC_PKG_NEW" | "s = DLC_PKG_READY" | "s = ORCH_PKG_DOWNLOADING" | "s = ORCH_PKG_READY"
    | "s = ORCH_TDR_RUN"
    | "s \<notin> {DLC_PKG_NEW, DLC_PKG_READY, ORCH_PKG_DOWNLOADING, ORCH_PKG_READY, ORCH_TDR_RUN}"
    by blast
  then have "core_state_handler reset w =
      w\<lparr>g_stat := left_in s, threads := threads w @ started_in s (nc (cgw_api_pkg_stat w))\<rparr>"
  proof cases
    case 1 then show ?thesis
      unfolding unfold
      by (simp add: v_def left_in_def started_in_def start_table_def set_stat_def
          mg_start_thread_def dmc_downloader_run_def)
  next
    case 2 then show ?thesis
      unfolding unfold by (simp add: v_def left_in_def started_in_def start_table_def mg_start_thread_def)
  next
    case 3 then show ?thesis
      unfolding unfold by (simp add: v_def left_in_def started_in_def start_table_def mg_start_thread_def)
  next
    case 4 then show ?thesis
      unfolding unfold by (simp add: v_def left_in_def started_in_def start_table_def mg_start_thread_def)
  next
    case 5 then show ?thesis
      unfolding unfold by (simp add: v_def left_in_def started_in_def start_table_def mg_start_thread_def)
  next
    case 6 then show ?thesis
      unfolding unfold by (simp add: v_def left_in_def started_in_def start_table_def)
  qed
  then show ?thesis by (simp add: s_def)
qed

text \<open>
  C4. The core state machine implements its transition table: for every argument and every
  world, the handler leaves exactly the state the table gives, starts exactly the threads the
  table gives, after those started before, and changes nothing else.
\<close>

theorem core_state_handler_refines:
  "core_state_handler reset w =
     (let s = acted_on reset (g_stat w)
      in w\<lparr>g_stat := left_in s, threads := threads w @ started_in s (nc (cgw_api_pkg_stat w))\<rparr>)"
  by (simp add: core_state_handler_eq Let_def)

subsection \<open>What the operations keep\<close>

lemma threads_core:
  "threads (core_state_handler r w) =
     threads w @ started_in (acted_on r (g_stat w)) (nc (cgw_api_pkg_stat w))"
  by (simp add: core_state_handler_eq)

lemma g_stat_core: "g_stat (core_state_handler r w) = left_in (acted_on r (g_stat w))"
  by (simp add: core_state_handler_eq)

lemma core_frame [simp]:
  "arrays (core_state_handler r w) = arrays w" "stack_ok (core_state_handler r w) = stack_ok w"
  "hmi (core_state_handler r w) = hmi w" "dmc (core_state_handler r w) = dmc w"
  "wheap (core_state_handler r w) = wheap w" "sent (core_state_handler r w) = sent w"
  "recv_mbuf (core_state_handler r w) = recv_mbuf w"
  by (simp_all add: core_state_handler_eq arrays_def)

lemma in_bounds_core [simp]: "in_bounds (core_state_handler r w) = in_bounds w"
  by (simp add: in_bounds_def)

lemma in_bounds_boot: "in_bounds (boot h)"
  by (simp add: in_bounds_def arrays_def boot_def init_context_def init_hmi_objs_def Let_def
      zero_world_def zero_pkg_info_def zero_upgrade_stat_def strcpy_def)

end
