(* ===== verification/DlcFrame.thy ===== *)
theory DlcFrame
  imports DlcState
begin

section \<open>The server: the length in front of a message\<close>

text \<open>
  Messages on the two sockets start with four bytes for the length of the text that follows.
  The code writes them in two ways and reads them in one.
\<close>

subsection \<open>Writing\<close>

text \<open>The conversion \<open>(char)\<close> of an \<open>unsigned int\<close>.\<close>

definition to_char :: "32 word \<Rightarrow> char" where
  "to_char x = char_of (unat x)"

text \<open>The bytes stored by \<open>dmc_resp_inventory\<close> and \<open>cgw_monitor_handle_status\<close>.\<close>

definition frame_header :: "nat \<Rightarrow> bytes" where
  "frame_header len =
     (let n = word_of_nat len :: 32 word
      in [to_char (drop_bit 24 n), to_char (drop_bit 16 n), to_char (drop_bit 8 n), to_char n])"

text \<open>The bytes stored by the response generators of the HMI, with the shifts to the left.\<close>

definition hmi_header :: "nat \<Rightarrow> bytes" where
  "hmi_header pc =
     (let n = word_of_nat pc :: 32 word
      in [to_char (push_bit 24 n), to_char (push_bit 16 n), to_char (push_bit 8 n), to_char n])"


subsection \<open>Reading\<close>

definition char_value :: "config \<Rightarrow> char \<Rightarrow> int" where
  "char_value cfg c =
     (if char_signed cfg \<and> 128 \<le> ch c then int (ch c) - 256 else int (ch c))"

text \<open>The length in the first four bytes, as the handlers compute it.\<close>

definition message_length :: "config \<Rightarrow> bytes \<Rightarrow> 32 word option" where
  "message_length cfg buf =
     do { b3 \<leftarrow> rd buf 3; b2 \<leftarrow> rd buf 2; b1 \<leftarrow> rd buf 1; b0 \<leftarrow> rd buf 0;
          Some (word_of_int (char_value cfg b3 + push_bit 8 (char_value cfg b2)
                + push_bit 16 (char_value cfg b1) + push_bit 24 (char_value cfg b0))) }"

subsection \<open>Writing and reading back\<close>

lemma ch_to_char: "ch (to_char x) = unat x mod 256"
  by (simp add: to_char_def of_char_of)

lemma of_char_to_char: "ch (to_char (drop_bit k (word_of_nat n :: 32 word))) = n mod 2 ^ 32 div 2 ^ k mod 256"
  unfolding ch_to_char unat_drop_bit_eq unsigned_of_nat
  by (simp add: drop_bit_eq_div take_bit_eq_mod)

lemma four_bytes:
  assumes "n < 2 ^ 32"
  shows "n mod 256 + 256 * (n div 256 mod 256) + 65536 * (n div 65536 mod 256)
           + 16777216 * (n div 16777216 mod 256) = (n :: nat)"
proof -
  define a b c where "a = n div 256" and "b = a div 256" and "c = b div 256"
  have div: "n div 65536 = b" "n div 16777216 = c"
    by (simp_all add: a_def b_def c_def div_mult2_eq [symmetric])
  have "c < 256"
    using assms by (simp add: a_def b_def c_def div_mult2_eq [symmetric] less_mult_imp_div_less)
  moreover have "n = 256 * a + n mod 256" "a = 256 * b + a mod 256" "b = 256 * c + b mod 256"
    by (simp_all add: a_def b_def c_def)
  ultimately show ?thesis
    unfolding div a_def [symmetric] by (simp only: mod_less)
qed

lemma header_bytes:
  assumes "n < 2 ^ 32"
  shows "map ch (frame_header n) = [n div 16777216 mod 256, n div 65536 mod 256, n div 256 mod 256, n mod 256]"
proof -
  have "n mod 2 ^ 32 = n" using assms by simp
  then show ?thesis
    using of_char_to_char [of 24 n] of_char_to_char [of 16 n] of_char_to_char [of 8 n]
      of_char_to_char [of 0 n]
    by (simp add: frame_header_def Let_def)
qed

lemma hmi_header_bytes: "hmi_header n = [NUL, NUL, NUL, char_of n]"
proof -
  have shifted: "unat (push_bit k (word_of_nat n :: 32 word)) mod 256 = 0" if "8 \<le> k" for k
  proof -
    have "unat (push_bit k (word_of_nat n :: 32 word)) mod 2 ^ 8
        = take_bit 8 (take_bit 32 (push_bit k (unat (word_of_nat n :: 32 word))))"
      by (simp only: unsigned_push_bit_eq take_bit_eq_mod) simp
    also have "\<dots> = 0" using that by (simp add: take_bit_push_bit)
    finally show ?thesis by simp
  qed
  have "to_char x = NUL" if "unat x mod 256 = 0" for x
    using that ch_to_char [of x] by (simp add: of_char_zero_iff)
  moreover have "to_char (word_of_nat n) = char_of n"
    by (simp add: to_char_def unsigned_of_nat take_bit_eq_mod char_of_eq_iff mod_mod_cancel)
  ultimately show ?thesis
    using shifted [of 24] shifted [of 16] shifted [of 8] by (simp add: hmi_header_def Let_def)
qed

lemma length_headers [simp]: "length (frame_header n) = 4" "length (hmi_header n) = 4"
  by (simp_all add: frame_header_def hmi_header_def Let_def)

lemma message_length_bytes:
  assumes "\<not> char_signed cfg \<or> (\<forall>c \<in> set bs. ch c < 128)" and "length bs = 4"
  shows "message_length cfg (bs @ rest) =
    Some (word_of_nat (ch (bs ! 3) + 256 * ch (bs ! 2) + 65536 * ch (bs ! 1) + 16777216 * ch (bs ! 0)))"
proof -
  have v: "char_value cfg (bs ! i) = int (ch (bs ! i))" if "i < 4" for i
  proof -
    have "bs ! i \<in> set bs" using assms(2) that by simp
    with assms(1) have "\<not> char_signed cfg \<or> ch (bs ! i) < 128" by blast
    then show ?thesis by (auto simp: char_value_def)
  qed
  have r: "rd (bs @ rest) i = Some (bs ! i)" if "i < 4" for i
    using assms(2) that by (simp add: rd_def nth_append)
  show ?thesis
    by (simp add: message_length_def r v push_bit_eq_mult word_of_nat_eq_0_iff flip: of_nat_add of_nat_mult)
      (simp add: algebra_simps)
qed

lemma header_value:
  assumes "n < 2 ^ 32"
  shows "ch (frame_header n ! 3) + 256 * ch (frame_header n ! 2) + 65536 * ch (frame_header n ! 1)
    + 16777216 * ch (frame_header n ! 0) = n"
proof -
  obtain a b c d where h: "frame_header n = [a, b, c, d]"
    by (simp add: frame_header_def Let_def)
  have ch: "ch a = n div 16777216 mod 256" "ch b = n div 65536 mod 256" "ch c = n div 256 mod 256"
    "ch d = n mod 256"
    using header_bytes [OF assms] unfolding h by (simp_all only: list.map list.inject)
  have nth: "frame_header n ! 0 = a" "frame_header n ! 1 = b" "frame_header n ! 2 = c"
    "frame_header n ! 3 = d"
    by (simp_all add: h)
  show ?thesis
    unfolding nth ch by (rule four_bytes [OF assms])
qed



text \<open>
  The responses to the HMI do not announce their length: the generators shift to the left,
  so a reader of the same format finds the length modulo 256 in the header, on every platform
  with an unsigned \<open>char\<close>.
\<close>

theorem hmi_header_modulo:
  assumes "\<not> char_signed cfg"
  shows "message_length cfg (hmi_header n @ rest) = Some (word_of_nat (n mod 256))"
  using message_length_bytes [of cfg "hmi_header n" rest] assms
  by (simp add: hmi_header_bytes of_char_of)

lemma hmi_header_modulo_witness:
  "message_length \<lparr>char_signed = False, log_level_default = 1, fresh_byte = NUL\<rparr>
     (hmi_header 300 @ ''x'') = Some 44"
  using hmi_header_modulo [of "\<lparr>char_signed = False, log_level_default = 1, fresh_byte = NUL\<rparr>" 300 "''x''"]
  by simp

text \<open>
  Where \<open>char\<close> is signed, the receive handlers compute the length of a message exactly when
  all four bytes are below 128; the length 1022 of the server's own inventory message reads
  back as 766.
\<close>

theorem signed_length:
  assumes "char_signed cfg"
  shows "(n < 128 \<longrightarrow> message_length cfg (frame_header n @ rest) = Some (word_of_nat n)) \<and>
    message_length cfg (frame_header 1022 @ rest) = Some 766"
proof
  have "\<forall>c \<in> set (frame_header n). ch c < 128" if "n < 128"
  proof -
    have "\<forall>x \<in> set (map ch (frame_header n)). x < 128"
      using that header_bytes [of n] by simp
    then show ?thesis by simp
  qed
  then show "n < 128 \<longrightarrow> message_length cfg (frame_header n @ rest) = Some (word_of_nat n)"
  proof (intro impI)
    assume n: "n < 128" and b: "n < 128 \<Longrightarrow> \<forall>c \<in> set (frame_header n). ch c < 128"
    have "n < 2 ^ 32" using n by simp
    from message_length_bytes [of cfg "frame_header n" rest] b [OF n] header_value [OF this]
    show "message_length cfg (frame_header n @ rest) = Some (word_of_nat n)" by (simp only: length_headers) simp
  qed
  have "frame_header 1022 = map char_of [0, 0, 3, 254 :: nat]"
    by (simp add: frame_header_def Let_def to_char_def drop_bit_eq_div)
  with assms show "message_length cfg (frame_header 1022 @ rest) = Some 766"
    by (simp add: message_length_def rd_def char_value_def of_char_of push_bit_eq_mult)
qed

lemma signed_length_witness:
  "message_length \<lparr>char_signed = True, log_level_default = 1, fresh_byte = NUL\<rparr>
     (frame_header 77 @ []) = Some 77"
  using signed_length [of "\<lparr>char_signed = True, log_level_default = 1, fresh_byte = NUL\<rparr>" 77 "[]"]
  by simp

end
