(* ===== verification/CFormat.thy ===== *)
theory CFormat
  imports CDouble
begin

section \<open>Printing doubles: the conversion \<open>%.Pg\<close>\<close>

text \<open>
  The \<open>printf\<close> conversion that \<open>print_number\<close> uses, on the doubles of \<open>CDouble\<close>: the decimal
  digits are those of the exact value, rounded half to even to \<open>P\<close> significant digits; the
  exponent decides between the two styles, and trailing zeros are dropped.
\<close>

definition floor_log10 :: "rat \<Rightarrow> int" where
  "floor_log10 q =
     (let (a, b) = quotient_of q;
          l = int (length (show_nat (nat a))) - int (length (show_nat (nat b)))
      in if pow10 l \<le> q then l else l - 1)"

text \<open>The first \<open>P\<close> significant digits, as a number, and the exponent of the first of them.\<close>

definition sig_digits :: "nat \<Rightarrow> rat \<Rightarrow> nat \<times> int" where
  "sig_digits P q =
     (let e = floor_log10 q; n = nat (round_half_even (q * pow10 (int P - 1 - e)))
      in if n = 10 ^ P then (10 ^ (P - 1), e + 1) else (n, e))"

definition strip_zeros :: "bytes \<Rightarrow> bytes" where
  "strip_zeros ds = rev (dropWhile (\<lambda>c. c = CHR ''0'') (rev ds))"

definition with_fraction :: "bytes \<Rightarrow> bytes \<Rightarrow> bytes" where
  "with_fraction ip fp = ip @ (let f = strip_zeros fp in if f = [] then [] else CHR ''.'' # f)"

definition show_exponent :: "int \<Rightarrow> bytes" where
  "show_exponent e =
     [CHR ''e'', if e < 0 then CHR ''-'' else CHR ''+''] @
     (let ds = show_nat (nat \<bar>e\<bar>) in if length ds < 2 then CHR ''0'' # ds else ds)"

definition format_g_digits :: "nat \<Rightarrow> nat \<Rightarrow> int \<Rightarrow> bytes" where
  "format_g_digits P n e =
     (let ds = show_nat n
      in if - 4 \<le> e \<and> e < int P
         then if 0 \<le> e then with_fraction (take (nat e + 1) ds) (drop (nat e + 1) ds)
              else with_fraction ''0'' (replicate (nat (- e) - 1) CHR ''0'' @ ds)
         else with_fraction (take 1 ds) (drop 1 ds) @ show_exponent e)"

fun format_g :: "nat \<Rightarrow> dbl \<Rightarrow> bytes" where
  "format_g P (DFin s q) =
     (if s then ''-'' else '''') @
     (if q = 0 then ''0'' else let (n, e) = sig_digits P q in format_g_digits P n e)"
| "format_g P (DInf s) = (if s then ''-inf'' else ''inf'')"
| "format_g P DNan = ''nan''"

subsection \<open>Arithmetic on doubles\<close>

text \<open>\<open>d * 0\<close> and \<open>fabs (a - b)\<close>: an infinity times zero and a difference of infinities are NaN.\<close>

fun dbl_times_zero :: "dbl \<Rightarrow> dbl" where
  "dbl_times_zero (DFin s q) = DFin s 0"
| "dbl_times_zero (DInf s) = DNan"
| "dbl_times_zero DNan = DNan"

fun dbl_abs_diff :: "dbl \<Rightarrow> dbl \<Rightarrow> dbl" where
  "dbl_abs_diff (DFin s p) (DFin t q) = dbl_of_rat False \<bar>dval (DFin s p) - dval (DFin t q)\<bar>"
| "dbl_abs_diff DNan b = DNan"
| "dbl_abs_diff a DNan = DNan"
| "dbl_abs_diff (DInf s) (DInf t) = (if s = t then DNan else DInf False)"
| "dbl_abs_diff (DInf s) (DFin t q) = DInf False"
| "dbl_abs_diff (DFin s q) (DInf t) = DInf False"

text \<open>Comparison with a double constant; every comparison with a NaN is false.\<close>

fun dbl_less :: "dbl \<Rightarrow> dbl \<Rightarrow> bool" where
  "dbl_less (DFin s p) (DFin t q) \<longleftrightarrow> dval (DFin s p) < dval (DFin t q)"
| "dbl_less (DFin s p) (DInf t) \<longleftrightarrow> \<not> t"
| "dbl_less (DInf s) (DFin t q) \<longleftrightarrow> s"
| "dbl_less (DInf s) (DInf t) \<longleftrightarrow> s \<and> \<not> t"
| "dbl_less DNan b \<longleftrightarrow> False"
| "dbl_less a DNan \<longleftrightarrow> False"

definition dbl_leq :: "dbl \<Rightarrow> dbl \<Rightarrow> bool" where
  "dbl_leq a b \<longleftrightarrow> a \<noteq> DNan \<and> b \<noteq> DNan \<and> \<not> dbl_less b a"

text \<open>\<open>sscanf\<close> with \<open>%lg\<close> also reads the infinities and the NaN that \<open>printf\<close> writes.\<close>

definition sscanf_lg :: "bytes \<Rightarrow> dbl option" where
  "sscanf_lg s =
     (if s = ''inf'' then Some (DInf False) else if s = ''-inf'' then Some (DInf True)
      else if s = ''nan'' then Some DNan
      else let (d, n) = strtod s in if n = 0 then None else Some d)"

lemma round_nonneg: "0 \<le> q \<Longrightarrow> 0 \<le> rnd53 q"
  using round_half_even_ge [of 0]
  by (simp add: rnd53_def Let_def mult_nonneg_nonneg less_imp_le)

lemma dbl_of_rat_not_below_zero: "0 \<le> q \<Longrightarrow> \<not> dbl_less (dbl_of_rat False q) (DFin s 0)"
  using round_nonneg [of q] by (cases s) (simp_all add: dbl_of_rat_def Let_def)

lemma dbl_of_rat_not_above_zero: "0 \<le> q \<Longrightarrow> \<not> dbl_less (DFin s 0) (dbl_of_rat True q)"
  using round_nonneg [of q] by (cases s) (simp_all add: dbl_of_rat_def Let_def)

lemma not_less_NaN: "\<not> dbl_less a DNan" "\<not> dbl_less DNan a"
  by (cases a; simp)+

end
