(* ===== verification/CJsonItem.thy ===== *)
theory CJsonItem
  imports CDouble
begin

unbundle bit_operations_syntax

section \<open>cJSON items: the tree, its memory, lookups and predicates\<close>

text \<open>
  The structure of \<open>cJSON/cJSON.h\<close> and the parts of \<open>cJSON/cJSON.c\<close> that build, free and query
  it.  The chain of children that C threads through \<open>next\<close> and \<open>prev\<close> is the list \<open>child\<close>;
  the operations that edit the links themselves are in the theory on linked chains.  A pointer
  that may be NULL is an \<open>option\<close>.  Allocation goes through the allocator of the prelude, so the
  failure branches of the code are branches here, and every block can be counted.
\<close>

subsection \<open>The item\<close>

text \<open>
  The fields of \<open>struct cJSON\<close>: \<open>type\<close> is \<open>ctype\<close> and \<open>string\<close> (the name under which an object
  holds the item) is \<open>item_string\<close>.  A string is the content of its block without the terminator
  that closes it; it may hold terminators of its own.
\<close>

datatype cJSON = CJson
  (ctype: "32 word") (child: "cJSON list") (valuestring: "bytes option")
  (valueint: int) (valuedouble: dbl) (item_string: "bytes option")

definition cJSON_Invalid :: "32 word" where "cJSON_Invalid = 0"
definition cJSON_False :: "32 word" where "cJSON_False = 1"
definition cJSON_True :: "32 word" where "cJSON_True = 2"
definition cJSON_NULL :: "32 word" where "cJSON_NULL = 4"
definition cJSON_Number :: "32 word" where "cJSON_Number = 8"
definition cJSON_String :: "32 word" where "cJSON_String = 16"
definition cJSON_Array :: "32 word" where "cJSON_Array = 32"
definition cJSON_Object :: "32 word" where "cJSON_Object = 64"
definition cJSON_Raw :: "32 word" where "cJSON_Raw = 128"
definition cJSON_IsReference :: "32 word" where "cJSON_IsReference = 256"
definition cJSON_StringIsConst :: "32 word" where "cJSON_StringIsConst = 512"

lemmas ctype_defs = cJSON_Invalid_def cJSON_False_def cJSON_True_def cJSON_NULL_def
  cJSON_Number_def cJSON_String_def cJSON_Array_def cJSON_Object_def cJSON_Raw_def
  cJSON_IsReference_def cJSON_StringIsConst_def

definition CJSON_NESTING_LIMIT :: nat where
  "CJSON_NESTING_LIMIT = 1000"

text \<open>Assignments to the fields of an item.\<close>

primrec set_ctype :: "32 word \<Rightarrow> cJSON \<Rightarrow> cJSON" where
  "set_ctype t' (CJson t c s i d k) = CJson t' c s i d k"

primrec set_child :: "cJSON list \<Rightarrow> cJSON \<Rightarrow> cJSON" where
  "set_child c' (CJson t c s i d k) = CJson t c' s i d k"

primrec set_valuestring :: "bytes option \<Rightarrow> cJSON \<Rightarrow> cJSON" where
  "set_valuestring s' (CJson t c s i d k) = CJson t c s' i d k"

primrec set_valueint :: "int \<Rightarrow> cJSON \<Rightarrow> cJSON" where
  "set_valueint i' (CJson t c s i d k) = CJson t c s i' d k"

primrec set_valuedouble :: "dbl \<Rightarrow> cJSON \<Rightarrow> cJSON" where
  "set_valuedouble d' (CJson t c s i d k) = CJson t c s i d' k"

primrec set_item_string :: "bytes option \<Rightarrow> cJSON \<Rightarrow> cJSON" where
  "set_item_string k' (CJson t c s i d k) = CJson t c s i d k'"

named_theorems item_simps \<open>reading a field after an assignment\<close>

lemma sel_set_ctype [item_simps, simp]:
  "ctype (set_ctype t x) = t" "child (set_ctype t x) = child x"
  "valuestring (set_ctype t x) = valuestring x" "valueint (set_ctype t x) = valueint x"
  "valuedouble (set_ctype t x) = valuedouble x" "item_string (set_ctype t x) = item_string x"
  by (cases x; simp)+

lemma sel_set_child [item_simps, simp]:
  "ctype (set_child c x) = ctype x" "child (set_child c x) = c"
  "valuestring (set_child c x) = valuestring x" "valueint (set_child c x) = valueint x"
  "valuedouble (set_child c x) = valuedouble x" "item_string (set_child c x) = item_string x"
  by (cases x; simp)+

lemma sel_set_valuestring [item_simps, simp]:
  "ctype (set_valuestring s x) = ctype x" "child (set_valuestring s x) = child x"
  "valuestring (set_valuestring s x) = s" "valueint (set_valuestring s x) = valueint x"
  "valuedouble (set_valuestring s x) = valuedouble x"
  "item_string (set_valuestring s x) = item_string x"
  by (cases x; simp)+

lemma sel_set_valueint [item_simps, simp]:
  "ctype (set_valueint i x) = ctype x" "child (set_valueint i x) = child x"
  "valuestring (set_valueint i x) = valuestring x" "valueint (set_valueint i x) = i"
  "valuedouble (set_valueint i x) = valuedouble x" "item_string (set_valueint i x) = item_string x"
  by (cases x; simp)+

lemma sel_set_valuedouble [item_simps, simp]:
  "ctype (set_valuedouble d x) = ctype x" "child (set_valuedouble d x) = child x"
  "valuestring (set_valuedouble d x) = valuestring x" "valueint (set_valuedouble d x) = valueint x"
  "valuedouble (set_valuedouble d x) = d" "item_string (set_valuedouble d x) = item_string x"
  by (cases x; simp)+

lemma sel_set_item_string [item_simps, simp]:
  "ctype (set_item_string k x) = ctype x" "child (set_item_string k x) = child x"
  "valuestring (set_item_string k x) = valuestring x" "valueint (set_item_string k x) = valueint x"
  "valuedouble (set_item_string k x) = valuedouble x" "item_string (set_item_string k x) = k"
  by (cases x; simp)+

definition has_flag :: "32 word \<Rightarrow> 32 word \<Rightarrow> bool" where
  "has_flag t f \<longleftrightarrow> t AND f \<noteq> 0"

definition kind :: "32 word \<Rightarrow> 32 word" where
  "kind t = t AND 0xFF"

subsection \<open>Construction and deletion\<close>

definition zero_item :: cJSON where
  "zero_item = CJson 0 [] None 0 (DFin False 0) None"

text \<open>\<open>cJSON_New_Item\<close>: a zeroed node, or NULL when the allocation fails.\<close>

definition cJSON_New_Item :: "heap \<Rightarrow> cJSON option \<times> heap" where
  "cJSON_New_Item h =
     (let (ok, h') = malloc h in if ok then (Some zero_item, h') else (None, h'))"

text \<open>
  \<open>cJSON_Delete\<close> frees the item it is given and every item after it in its chain; the children
  and the value string unless the item is a reference, and the name unless it is constant.
\<close>

fun cJSON_Delete :: "cJSON list \<Rightarrow> heap \<Rightarrow> heap" where
  "cJSON_Delete [] h = h"
| "cJSON_Delete (CJson t c s i d k # rest) h =
     (let h1 = (if \<not> has_flag t cJSON_IsReference \<and> c \<noteq> [] then cJSON_Delete c h else h);
          h2 = (if \<not> has_flag t cJSON_IsReference \<and> s \<noteq> None then dealloc h1 else h1);
          h3 = (if \<not> has_flag t cJSON_StringIsConst \<and> k \<noteq> None then dealloc h2 else h2)
      in cJSON_Delete rest (dealloc h3))"

text \<open>
  The blocks an item owns: its node, its value string, its name, and what its children own,
  with the two exceptions the flags make.
\<close>

fun blocks :: "cJSON list \<Rightarrow> int" where
  "blocks [] = 0"
| "blocks (CJson t c s i d k # rest) =
     1 + of_bool (\<not> has_flag t cJSON_IsReference \<and> s \<noteq> None)
       + of_bool (\<not> has_flag t cJSON_StringIsConst \<and> k \<noteq> None)
       + (if has_flag t cJSON_IsReference then 0 else blocks c) + blocks rest"

lemma live_cJSON_Delete [heap_simps, simp]: "live (cJSON_Delete xs h) = live h - blocks xs"
  by (induction xs h rule: cJSON_Delete.induct) (auto simp: Let_def)

lemma oom_cJSON_Delete [heap_simps, simp]: "oom (cJSON_Delete xs h) = oom h"
  by (induction xs h rule: cJSON_Delete.induct) (auto simp: Let_def)

lemma blocks_append [simp]: "blocks (xs @ ys) = blocks xs + blocks ys"
  by (induction xs rule: blocks.induct) auto

lemma blocks_nonneg: "0 \<le> blocks xs"
  by (induction xs rule: blocks.induct) auto

lemma blocks_Cons_pos: "0 < blocks (x # xs)"
  using blocks_nonneg [of "child x"] blocks_nonneg [of xs] by (cases x) auto

lemma blocks_zero_item [simp]: "blocks [zero_item] = 1"
  by (simp add: zero_item_def)

lemma cJSON_New_Item_live [heap_simps]:
  "cJSON_New_Item h = (x, h') \<Longrightarrow> live h' = live h + (case x of None \<Rightarrow> 0 | Some y \<Rightarrow> blocks [y])"
  by (auto simp: cJSON_New_Item_def split: prod.splits if_splits dest: malloc_live)

lemma cJSON_New_Item_zero: "cJSON_New_Item h = (Some x, h') \<Longrightarrow> x = zero_item"
  by (auto simp: cJSON_New_Item_def split: prod.splits if_splits)

text \<open>\<open>cJSON_strdup\<close>: a copy of a string, NULL for a NULL argument or on failure.\<close>

definition cJSON_strdup :: "bytes option \<Rightarrow> heap \<Rightarrow> bytes option \<times> heap" where
  "cJSON_strdup s h =
     (case s of None \<Rightarrow> (None, h)
      | Some t \<Rightarrow> let (ok, h') = malloc h in if ok then (Some (c_str t), h') else (None, h'))"

lemma cJSON_strdup_live [heap_simps]:
  "cJSON_strdup s h = (r, h') \<Longrightarrow> live h' = live h + of_bool (r \<noteq> None)"
  by (auto simp: cJSON_strdup_def split: option.splits prod.splits if_splits dest: malloc_live)

lemma cJSON_strdup_Some: "cJSON_strdup s h = (Some r, h') \<Longrightarrow> \<exists>t. s = Some t \<and> r = c_str t"
  by (auto simp: cJSON_strdup_def split: option.splits prod.splits if_splits)

end
