(* ===== verification/CJsonQuery.thy ===== *)
theory CJsonQuery
  imports CJsonItem
begin

section \<open>cJSON: predicates, lookups and constructors\<close>

text \<open>
  The read-only part of the interface of \<open>cJSON.c\<close> (type predicates, array and object lookups)
  and its constructors.  Both object lookups of the library are here: the case-sensitive one
  stops at the first child without a name, the other one skips such children.
\<close>

subsection \<open>Type predicates\<close>

definition type_is :: "32 word \<Rightarrow> cJSON option \<Rightarrow> bool" where
  "type_is t item = (case item of None \<Rightarrow> False | Some x \<Rightarrow> kind (ctype x) = t)"

definition cJSON_IsInvalid :: "cJSON option \<Rightarrow> bool" where
  "cJSON_IsInvalid item = type_is cJSON_Invalid item"

definition cJSON_IsFalse :: "cJSON option \<Rightarrow> bool" where
  "cJSON_IsFalse item = type_is cJSON_False item"

definition cJSON_IsTrue :: "cJSON option \<Rightarrow> bool" where
  "cJSON_IsTrue item = type_is cJSON_True item"

definition cJSON_IsBool :: "cJSON option \<Rightarrow> bool" where
  "cJSON_IsBool item =
     (case item of None \<Rightarrow> False | Some x \<Rightarrow> ctype x AND (cJSON_True OR cJSON_False) \<noteq> 0)"

definition cJSON_IsNull :: "cJSON option \<Rightarrow> bool" where
  "cJSON_IsNull item = type_is cJSON_NULL item"

definition cJSON_IsNumber :: "cJSON option \<Rightarrow> bool" where
  "cJSON_IsNumber item = type_is cJSON_Number item"

definition cJSON_IsString :: "cJSON option \<Rightarrow> bool" where
  "cJSON_IsString item = type_is cJSON_String item"

definition cJSON_IsArray :: "cJSON option \<Rightarrow> bool" where
  "cJSON_IsArray item = type_is cJSON_Array item"

definition cJSON_IsObject :: "cJSON option \<Rightarrow> bool" where
  "cJSON_IsObject item = type_is cJSON_Object item"

definition cJSON_IsRaw :: "cJSON option \<Rightarrow> bool" where
  "cJSON_IsRaw item = type_is cJSON_Raw item"

lemmas is_type_defs = cJSON_IsInvalid_def cJSON_IsFalse_def cJSON_IsTrue_def cJSON_IsNull_def
  cJSON_IsNumber_def cJSON_IsString_def cJSON_IsArray_def cJSON_IsObject_def cJSON_IsRaw_def
  type_is_def

text \<open>\<open>cJSON_GetStringValue\<close>: the string of a string item, NULL for anything else.\<close>

definition cJSON_GetStringValue :: "cJSON option \<Rightarrow> bytes option" where
  "cJSON_GetStringValue item =
     (if \<not> cJSON_IsString item then None
      else case item of None \<Rightarrow> None | Some x \<Rightarrow> valuestring x)"

subsection \<open>Comparing names\<close>

text \<open>
  \<open>case_insensitive_strcmp\<close>; \<open>None\<close> is a NULL pointer.  Equal pointers compare equal, as equal
  contents do.
\<close>

fun ci_loop :: "bytes \<Rightarrow> bytes \<Rightarrow> int" where
  "ci_loop [] [] = 0"
| "ci_loop [] (d # t) = - int (ch (tolower d))"
| "ci_loop (c # s) [] = int (ch (tolower c))"
| "ci_loop (c # s) (d # t) =
     (if tolower c = tolower d then ci_loop s t else int (ch (tolower c)) - int (ch (tolower d)))"

definition case_insensitive_strcmp :: "bytes option \<Rightarrow> bytes option \<Rightarrow> int" where
  "case_insensitive_strcmp s t =
     (case (s, t) of (Some a, Some b) \<Rightarrow> ci_loop (c_str a) (c_str b) | _ \<Rightarrow> 1)"

lemma tolower_eq_NUL_iff [byte_simps]: "tolower c = NUL \<longleftrightarrow> c = NUL"
proof
  assume *: "tolower c = NUL"
  show "c = NUL"
  proof (cases "ch CHR ''A'' \<le> ch c \<and> ch c \<le> ch CHR ''Z''")
    case True
    with * have "ch (char_of (ch c + 32) :: char) = 0" by (simp add: tolower_def)
    moreover have "ch c + 32 < 256" using True by simp
    ultimately show ?thesis by (simp add: of_char_char_of_lt)
  next
    case False
    with * show ?thesis by (auto simp: tolower_def)
  qed
qed (simp add: tolower_def)

lemma ci_loop_eq_0_iff:
  "NUL \<notin> set s \<Longrightarrow> NUL \<notin> set t \<Longrightarrow> ci_loop s t = 0 \<longleftrightarrow> map tolower s = map tolower t"
proof (induction s t rule: ci_loop.induct)
  case (2 d t)
  then show ?case by (auto simp: byte_simps)
next
  case (3 c s)
  then show ?case by (auto simp: byte_simps)
next
  case (4 c s d t)
  then show ?case by (auto simp: byte_simps)
qed simp

lemma case_insensitive_strcmp_eq_0_iff:
  "case_insensitive_strcmp s t = 0 \<longleftrightarrow>
     (\<exists>a b. s = Some a \<and> t = Some b \<and> map tolower (c_str a) = map tolower (c_str b))"
  by (auto simp: case_insensitive_strcmp_def ci_loop_eq_0_iff split: option.splits)

subsection \<open>Arrays\<close>

text \<open>The count is a \<open>size_t\<close>; the result is its conversion to a 32-bit \<open>int\<close>.\<close>

definition cJSON_GetArraySize :: "cJSON option \<Rightarrow> int" where
  "cJSON_GetArraySize array =
     (case array of None \<Rightarrow> 0 | Some x \<Rightarrow> sint (word_of_nat (length (child x)) :: 32 word))"

fun walk :: "cJSON list \<Rightarrow> nat \<Rightarrow> cJSON option" where
  "walk [] i = None"
| "walk (x # xs) i = (if 0 < i then walk xs (i - 1) else Some x)"

definition get_array_item :: "cJSON option \<Rightarrow> nat \<Rightarrow> cJSON option" where
  "get_array_item array i = (case array of None \<Rightarrow> None | Some x \<Rightarrow> walk (child x) i)"

definition cJSON_GetArrayItem :: "cJSON option \<Rightarrow> int \<Rightarrow> cJSON option" where
  "cJSON_GetArrayItem array i = (if i < 0 then None else get_array_item array (nat i))"

lemma walk_eq: "walk xs i = (if i < length xs then Some (xs ! i) else None)"
  by (induction xs i rule: walk.induct) (auto simp: nth_Cons')

lemma GetArraySize_small:
  assumes "length (child x) < 2 ^ 31"
  shows "cJSON_GetArraySize (Some x) = int (length (child x))"
proof -
  have "int (length (child x)) < 2 ^ 31"
    using assms by simp
  then show ?thesis
    by (simp add: cJSON_GetArraySize_def signed_of_nat signed_take_bit_int_eq_self)
qed

subsection \<open>Objects\<close>

fun find_cs :: "bytes \<Rightarrow> cJSON list \<Rightarrow> cJSON option" where
  "find_cs name [] = None"
| "find_cs name (x # xs) =
     (case item_string x of
        None \<Rightarrow> None
      | Some k \<Rightarrow> if strcmp name k \<noteq> 0 then find_cs name xs else Some x)"

fun find_ci :: "bytes \<Rightarrow> cJSON list \<Rightarrow> cJSON option" where
  "find_ci name [] = None"
| "find_ci name (x # xs) =
     (if case_insensitive_strcmp (Some name) (item_string x) \<noteq> 0 then find_ci name xs else Some x)"

definition get_object_item :: "cJSON option \<Rightarrow> bytes option \<Rightarrow> bool \<Rightarrow> cJSON option" where
  "get_object_item object name case_sensitive =
     (case (object, name) of
        (Some x, Some n) \<Rightarrow>
          (case (if case_sensitive then find_cs n (child x) else find_ci n (child x)) of
             None \<Rightarrow> None
           | Some y \<Rightarrow> if item_string y = None then None else Some y)
      | _ \<Rightarrow> None)"

definition cJSON_GetObjectItem :: "cJSON option \<Rightarrow> bytes \<Rightarrow> cJSON option" where
  "cJSON_GetObjectItem object s = get_object_item object (Some s) False"

definition cJSON_GetObjectItemCaseSensitive :: "cJSON option \<Rightarrow> bytes \<Rightarrow> cJSON option" where
  "cJSON_GetObjectItemCaseSensitive object s = get_object_item object (Some s) True"

definition cJSON_HasObjectItem :: "cJSON option \<Rightarrow> bytes \<Rightarrow> bool" where
  "cJSON_HasObjectItem object s \<longleftrightarrow> cJSON_GetObjectItem object s \<noteq> None"

definition ci_named :: "bytes \<Rightarrow> cJSON \<Rightarrow> bool" where
  "ci_named n x \<longleftrightarrow> (\<exists>k. item_string x = Some k \<and> map tolower (c_str k) = map tolower (c_str n))"

lemma ci_named_iff:
  "ci_named n x \<longleftrightarrow> case_insensitive_strcmp (Some n) (item_string x) = 0"
  by (auto simp: ci_named_def case_insensitive_strcmp_eq_0_iff)

lemma find_ci_eq_find: "find_ci n xs = List.find (ci_named n) xs"
  by (induction xs) (auto simp: ci_named_iff)

lemma GetObjectItem_eq: "cJSON_GetObjectItem (Some x) n = List.find (ci_named n) (child x)"
proof -
  have "List.find (ci_named n) xs = Some y \<Longrightarrow> item_string y \<noteq> None" for xs y
    by (induction xs) (auto simp: ci_named_def split: if_splits)
  from this [of "child x"] show ?thesis
    by (auto simp: cJSON_GetObjectItem_def get_object_item_def find_ci_eq_find split: option.splits)
qed

lemma GetObjectItem_None [simp]: "cJSON_GetObjectItem None n = None"
  by (simp add: cJSON_GetObjectItem_def get_object_item_def)

lemma find_Some_in: "List.find P xs = Some y \<Longrightarrow> y \<in> set xs \<and> P y"
  by (induction xs) (auto split: if_splits)

lemma GetObjectItem_child: "cJSON_GetObjectItem (Some x) n = Some y \<Longrightarrow> y \<in> set (child x)"
  by (simp add: GetObjectItem_eq find_Some_in)

subsection \<open>Constructors\<close>

definition cJSON_SetNumberHelper :: "cJSON \<Rightarrow> dbl \<Rightarrow> (cJSON \<times> dbl) option" where
  "cJSON_SetNumberHelper object number =
     do { i \<leftarrow> saturate_int number;
          Some (set_valuedouble number (set_valueint i object), number) }"

definition cJSON_CreateNull :: "heap \<Rightarrow> cJSON option \<times> heap" where
  "cJSON_CreateNull h =
     (let (item, h') = cJSON_New_Item h in (map_option (set_ctype cJSON_NULL) item, h'))"

definition cJSON_CreateTrue :: "heap \<Rightarrow> cJSON option \<times> heap" where
  "cJSON_CreateTrue h =
     (let (item, h') = cJSON_New_Item h in (map_option (set_ctype cJSON_True) item, h'))"

definition cJSON_CreateFalse :: "heap \<Rightarrow> cJSON option \<times> heap" where
  "cJSON_CreateFalse h =
     (let (item, h') = cJSON_New_Item h in (map_option (set_ctype cJSON_False) item, h'))"

definition cJSON_CreateBool :: "bool \<Rightarrow> heap \<Rightarrow> cJSON option \<times> heap" where
  "cJSON_CreateBool b h =
     (let (item, h') = cJSON_New_Item h
      in (map_option (set_ctype (if b then cJSON_True else cJSON_False)) item, h'))"

text \<open>The cast of a NaN makes \<open>cJSON_CreateNumber\<close> undefined.\<close>

definition cJSON_CreateNumber :: "dbl \<Rightarrow> heap \<Rightarrow> (cJSON option \<times> heap) option" where
  "cJSON_CreateNumber num h =
     (let (item, h') = cJSON_New_Item h
      in case item of None \<Rightarrow> Some (None, h')
         | Some x \<Rightarrow> do { i \<leftarrow> saturate_int num;
             Some (Some (set_valueint i (set_valuedouble num (set_ctype cJSON_Number x))), h') })"

definition cJSON_CreateString :: "bytes option \<Rightarrow> heap \<Rightarrow> cJSON option \<times> heap" where
  "cJSON_CreateString s h =
     (let (item, h1) = cJSON_New_Item h
      in case item of None \<Rightarrow> (None, h1)
         | Some x \<Rightarrow>
             let (v, h2) = cJSON_strdup s h1; y = set_valuestring v (set_ctype cJSON_String x)
             in if v = None then (None, cJSON_Delete [y] h2) else (Some y, h2))"

definition cJSON_CreateRaw :: "bytes option \<Rightarrow> heap \<Rightarrow> cJSON option \<times> heap" where
  "cJSON_CreateRaw s h =
     (let (item, h1) = cJSON_New_Item h
      in case item of None \<Rightarrow> (None, h1)
         | Some x \<Rightarrow>
             let (v, h2) = cJSON_strdup s h1; y = set_valuestring v (set_ctype cJSON_Raw x)
             in if v = None then (None, cJSON_Delete [y] h2) else (Some y, h2))"

definition cJSON_CreateStringReference :: "bytes option \<Rightarrow> heap \<Rightarrow> cJSON option \<times> heap" where
  "cJSON_CreateStringReference s h =
     (let (item, h') = cJSON_New_Item h
      in (map_option (\<lambda>x. set_valuestring s
            (set_ctype (cJSON_String OR cJSON_IsReference) x)) item, h'))"

definition cJSON_CreateObjectReference :: "cJSON list \<Rightarrow> heap \<Rightarrow> cJSON option \<times> heap" where
  "cJSON_CreateObjectReference c h =
     (let (item, h') = cJSON_New_Item h
      in (map_option (\<lambda>x. set_child c (set_ctype (cJSON_Object OR cJSON_IsReference) x)) item, h'))"

definition cJSON_CreateArrayReference :: "cJSON list \<Rightarrow> heap \<Rightarrow> cJSON option \<times> heap" where
  "cJSON_CreateArrayReference c h =
     (let (item, h') = cJSON_New_Item h
      in (map_option (\<lambda>x. set_child c (set_ctype (cJSON_Array OR cJSON_IsReference) x)) item, h'))"

definition cJSON_CreateArray :: "heap \<Rightarrow> cJSON option \<times> heap" where
  "cJSON_CreateArray h =
     (let (item, h') = cJSON_New_Item h in (map_option (set_ctype cJSON_Array) item, h'))"

definition cJSON_CreateObject :: "heap \<Rightarrow> cJSON option \<times> heap" where
  "cJSON_CreateObject h =
     (let (item, h') = cJSON_New_Item h in (map_option (set_ctype cJSON_Object) item, h'))"

text \<open>
  The loops of the array constructors: each element is created and linked after the one
  before it; when a creation fails, the array built so far is deleted.
\<close>

fun number_array_loop :: "dbl list \<Rightarrow> cJSON \<Rightarrow> heap \<Rightarrow> (cJSON option \<times> heap) option" where
  "number_array_loop [] a h = Some (Some a, h)"
| "number_array_loop (d # ds) a h =
     do { (n, h1) \<leftarrow> cJSON_CreateNumber d h;
          (case n of
             None \<Rightarrow> Some (None, cJSON_Delete [a] h1)
           | Some x \<Rightarrow> number_array_loop ds (set_child (child a @ [x]) a) h1) }"

definition int_dbl :: "int \<Rightarrow> dbl" where
  "int_dbl i = DFin (i < 0) (of_int \<bar>i\<bar>)"

text \<open>\<open>None\<close> for \<open>numbers\<close> is a NULL pointer; reading past the end of the array is undefined.\<close>

definition cJSON_CreateDoubleArray ::
    "dbl list option \<Rightarrow> int \<Rightarrow> heap \<Rightarrow> (cJSON option \<times> heap) option" where
  "cJSON_CreateDoubleArray numbers count h =
     (case numbers of
        None \<Rightarrow> Some (None, h)
      | Some ds \<Rightarrow>
          if count < 0 then Some (None, h)
          else let (a, h1) = cJSON_CreateArray h
               in case a of None \<Rightarrow> Some (None, h1)
                  | Some x \<Rightarrow> if nat count \<le> length ds
                             then number_array_loop (take (nat count) ds) x h1 else None)"

text \<open>
  An \<open>int\<close> and a \<open>float\<close> convert to \<open>double\<close> without loss, so the other two numeric
  constructors run the same loop on the converted elements.
\<close>

definition cJSON_CreateIntArray ::
    "int list option \<Rightarrow> int \<Rightarrow> heap \<Rightarrow> (cJSON option \<times> heap) option" where
  "cJSON_CreateIntArray numbers count h =
     cJSON_CreateDoubleArray (map_option (map int_dbl) numbers) count h"

definition cJSON_CreateFloatArray ::
    "dbl list option \<Rightarrow> int \<Rightarrow> heap \<Rightarrow> (cJSON option \<times> heap) option" where
  "cJSON_CreateFloatArray numbers count h = cJSON_CreateDoubleArray numbers count h"

fun string_array_loop :: "bytes option list \<Rightarrow> cJSON \<Rightarrow> heap \<Rightarrow> cJSON option \<times> heap" where
  "string_array_loop [] a h = (Some a, h)"
| "string_array_loop (s # ss) a h =
     (let (n, h1) = cJSON_CreateString s h
      in case n of None \<Rightarrow> (None, cJSON_Delete [a] h1)
         | Some x \<Rightarrow> string_array_loop ss (set_child (child a @ [x]) a) h1)"

definition cJSON_CreateStringArray ::
    "bytes option list option \<Rightarrow> int \<Rightarrow> heap \<Rightarrow> (cJSON option \<times> heap) option" where
  "cJSON_CreateStringArray strings count h =
     (case strings of
        None \<Rightarrow> Some (None, h)
      | Some ss \<Rightarrow>
          if count < 0 then Some (None, h)
          else let (a, h1) = cJSON_CreateArray h
               in case a of None \<Rightarrow> Some (None, h1)
                  | Some x \<Rightarrow> if nat count \<le> length ss
                             then Some (string_array_loop (take (nat count) ss) x h1) else None)"

subsection \<open>What the constructors allocate\<close>

text \<open>
  A constructor is \<^emph>\<open>leak-free\<close> when the live blocks grow by exactly what the item it returns
  owns, and not at all when it returns NULL.
\<close>

definition accounted :: "cJSON option \<times> heap \<Rightarrow> heap \<Rightarrow> bool" where
  "accounted r h \<longleftrightarrow>
     live (snd r) = live h + (case fst r of None \<Rightarrow> 0 | Some x \<Rightarrow> blocks [x])"

lemma blocks_set_child:
  "\<not> has_flag (ctype x) cJSON_IsReference \<Longrightarrow>
     blocks [set_child c x] = blocks [x] - blocks (child x) + blocks c"
  by (cases x) simp

lemma accounted_CreateString: "accounted (cJSON_CreateString s h) h"
proof -
  obtain item h1 where n: "cJSON_New_Item h = (item, h1)" by fastforce
  obtain v h2 where v: "cJSON_strdup s h1 = (v, h2)" by fastforce
  have nr: "\<not> has_flag cJSON_String cJSON_IsReference"
    by (simp add: has_flag_def ctype_defs)
  show ?thesis
    using n v cJSON_New_Item_live [OF n] cJSON_strdup_live [OF v]
      cJSON_New_Item_zero [of h] nr
    by (cases item) (auto simp: accounted_def cJSON_CreateString_def zero_item_def Let_def)
qed

lemma string_array_loop_accounted:
  "\<not> has_flag (ctype a) cJSON_IsReference \<Longrightarrow>
     live (snd (string_array_loop ss a h)) - live h =
       (case fst (string_array_loop ss a h) of None \<Rightarrow> - blocks [a] | Some x \<Rightarrow> blocks [x] - blocks [a])"
proof (induction ss a h rule: string_array_loop.induct)
  case (2 s ss a h)
  obtain n h1 where n: "cJSON_CreateString s h = (n, h1)" by fastforce
  have acc: "live h1 = live h + (case n of None \<Rightarrow> 0 | Some x \<Rightarrow> blocks [x])"
    using accounted_CreateString [of s h] n by (simp add: accounted_def)
  show ?case
    using 2 n acc by (auto simp: blocks_set_child split: option.splits)
qed simp

lemma find_cs_eq:
  "find_cs n xs = List.find (\<lambda>y. map_option c_str (item_string y) = Some (c_str n))
     (takeWhile (\<lambda>y. item_string y \<noteq> None) xs)"
  by (induction xs) (auto simp: byte_simps split: option.split)

lemma find_not_None:
  "List.find P xs = Some y \<Longrightarrow> (\<And>z. P z \<Longrightarrow> item_string z \<noteq> None) \<Longrightarrow> item_string y \<noteq> None"
  using find_Some_in by metis

subsection \<open>Properties\<close>

text \<open>
  Object lookup is the first match: \<open>cJSON_GetObjectItem\<close> returns the first child whose name
  equals the argument when letters are folded to lower case; the case-sensitive lookup returns
  the first child with exactly this name, but only among the children in front of the first one
  without a name.
\<close>

theorem object_lookup_first_match:
  "cJSON_GetObjectItem (Some x) n =
     List.find (\<lambda>y. map_option (\<lambda>k. map tolower (c_str k)) (item_string y) = Some (map tolower (c_str n)))
       (child x) \<and>
   cJSON_GetObjectItemCaseSensitive (Some x) n =
     List.find (\<lambda>y. map_option c_str (item_string y) = Some (c_str n))
       (takeWhile (\<lambda>y. item_string y \<noteq> None) (child x))"
proof
  have "ci_named n = (\<lambda>y. map_option (\<lambda>k. map tolower (c_str k)) (item_string y) = Some (map tolower (c_str n)))"
    by (auto simp: ci_named_def fun_eq_iff)
  then show "cJSON_GetObjectItem (Some x) n =
     List.find (\<lambda>y. map_option (\<lambda>k. map tolower (c_str k)) (item_string y) = Some (map tolower (c_str n)))
       (child x)"
    by (simp add: GetObjectItem_eq)
  show "cJSON_GetObjectItemCaseSensitive (Some x) n =
     List.find (\<lambda>y. map_option c_str (item_string y) = Some (c_str n))
       (takeWhile (\<lambda>y. item_string y \<noteq> None) (child x))"
    using find_not_None
    by (fastforce simp: cJSON_GetObjectItemCaseSensitive_def get_object_item_def find_cs_eq
        split: option.split)
qed

text \<open>
  Building an array of strings never leaks: whatever allocation fails, the live blocks grow
  by exactly what the returned array owns, and not at all when NULL is returned.
\<close>

theorem cJSON_CreateStringArray_accounted:
  assumes "cJSON_CreateStringArray strings count h = Some (r, h')"
  shows "live h' = live h + (case r of None \<Rightarrow> 0 | Some x \<Rightarrow> blocks [x])"
proof (cases strings)
  case (Some ss)
  obtain n h1 where n: "cJSON_New_Item h = (n, h1)" by fastforce
  show ?thesis
  proof (cases n)
    case None
    with Some assms n cJSON_New_Item_live [OF n] show ?thesis
      by (auto simp: cJSON_CreateStringArray_def cJSON_CreateArray_def split: if_splits)
  next
    case (Some x)
    let ?a = "set_ctype cJSON_Array x"
    have x: "x = zero_item" using n Some cJSON_New_Item_zero by simp
    have a: "\<not> has_flag (ctype ?a) cJSON_IsReference" "blocks [?a] = 1"
      by (simp_all add: x zero_item_def has_flag_def ctype_defs)
    from a(1) assms \<open>strings = Some ss\<close> n Some cJSON_New_Item_live [OF n]
      string_array_loop_accounted [OF a(1), of "take (nat count) ss" h1] a(2)
    show ?thesis
      by (auto simp: cJSON_CreateStringArray_def cJSON_CreateArray_def x split: if_splits option.splits)
  qed
qed (use assms in \<open>simp add: cJSON_CreateStringArray_def\<close>)

lemma cJSON_CreateStringArray_accounted_witness:
  "\<exists>r h'. cJSON_CreateStringArray (Some [Some ''a'', Some ''b'']) 2 fresh_heap = Some (r, h') \<and>
     r \<noteq> None \<and> live h' = 5"
proof -
  have "map_option (\<lambda>(r, h'). (r \<noteq> None, live h'))
      (cJSON_CreateStringArray (Some [Some ''a'', Some ''b'']) 2 fresh_heap) = Some (True, 5)"
    by code_simp
  then obtain r h' where e: "cJSON_CreateStringArray (Some [Some ''a'', Some ''b'']) 2 fresh_heap = Some (r, h')"
    and "r \<noteq> None" "live h' = 5"
    by auto
  with cJSON_CreateStringArray_accounted [OF e] show ?thesis by auto
qed

end
