(* ===== verification/CJsonText.thy ===== *)
theory CJsonText
  imports CJsonQuery
begin

section \<open>cJSON: parsing numbers and strings\<close>

text \<open>
  The leaves of the parser: \<open>parse_number\<close>, \<open>parse_hex4\<close>, \<open>utf16_literal_to_utf8\<close> and
  \<open>parse_string\<close> of \<open>cJSON.c\<close>, over the parse buffer.  The buffer's \<open>length\<close> is the length of
  \<open>content\<close> (the text and its terminator), and its hooks are the allocator \<open>mem\<close>.  Pointers into
  the buffer are positions.  A parse function returns its boolean result, the item as it left it
  and the buffer; it has no value if the C code would read outside the buffer.
\<close>

record parse_buffer =
  content :: bytes
  offset :: nat
  depth :: nat
  mem :: heap

type_synonym parse_result = "(bool \<times> cJSON \<times> parse_buffer) option"

definition can_read :: "parse_buffer \<Rightarrow> nat \<Rightarrow> bool" where
  "can_read b n \<longleftrightarrow> offset b + n \<le> length (content b)"

definition can_access_at_index :: "parse_buffer \<Rightarrow> nat \<Rightarrow> bool" where
  "can_access_at_index b i \<longleftrightarrow> offset b + i < length (content b)"

text \<open>\<open>buffer_at_offset(b)[i]\<close>\<close>

definition at_offset :: "parse_buffer \<Rightarrow> nat \<Rightarrow> char option" where
  "at_offset b i = rd (content b) (offset b + i)"

lemma at_offset_eq [run_simps]:
  "can_access_at_index b i \<Longrightarrow> at_offset b i = Some (content b ! (offset b + i))"
  by (simp add: at_offset_def can_access_at_index_def)

subsection \<open>Numbers\<close>

definition number_chars :: "char list" where
  "number_chars = ''0123456789+-eE''"

definition decimal_point :: char where
  "decimal_point = CHR ''.''"

text \<open>
  The copy loop of \<open>parse_number\<close>: at most \<open>n\<close> characters, as long as they can be part of a
  number, with the point replaced by the locale's.
\<close>

fun copy_number :: "nat \<Rightarrow> bytes \<Rightarrow> bytes" where
  "copy_number 0 s = []"
| "copy_number (Suc n) [] = []"
| "copy_number (Suc n) (c # s) =
     (if c \<in> set number_chars then c # copy_number n s
      else if c = CHR ''.'' then decimal_point # copy_number n s
      else [])"

definition parse_number :: "cJSON \<Rightarrow> parse_buffer \<Rightarrow> parse_result" where
  "parse_number item b =
     (let number_c_string = copy_number 63 (drop (offset b) (content b));
          (number, used) = strtod number_c_string
      in if used = 0 then Some (False, item, b)
         else do {
           i \<leftarrow> saturate_int number;
           Some (True, set_ctype cJSON_Number (set_valueint i (set_valuedouble number item)),
                 b\<lparr>offset := offset b + used\<rparr>) })"

lemma length_copy_number: "length (copy_number n s) \<le> n \<and> length (copy_number n s) \<le> length s"
  by (induction n s rule: copy_number.induct) auto

lemma parse_number_defined: "\<exists>r. parse_number item b = Some r"
proof -
  obtain d u where s: "strtod (copy_number 63 (drop (offset b) (content b))) = (d, u)"
    by fastforce
  then have "d \<noteq> DNan"
    using strtod_not_NaN [of "copy_number 63 (drop (offset b) (content b))"] by simp
  then obtain i where "saturate_int d = Some i"
    using saturate_int_defined by blast
  with s show ?thesis by (cases "u = 0") (auto simp: parse_number_def)
qed

lemma parse_number_offset:
  assumes "parse_number item b = Some (ok, item', b')" and "offset b \<le> length (content b)"
  shows "content b' = content b \<and> mem b' = mem b \<and> depth b' = depth b \<and>
         offset b \<le> offset b' \<and> offset b' \<le> length (content b) \<and> (ok \<longrightarrow> offset b < offset b')"
proof -
  let ?s = "copy_number 63 (drop (offset b) (content b))"
  have "snd (strtod ?s) \<le> length (content b) - offset b"
    using strtod_used_le [of ?s] length_copy_number [of 63 "drop (offset b) (content b)"] by simp
  with assms show ?thesis
    by (auto simp: parse_number_def run_simps split: prod.splits if_splits)
qed

lemma parse_number_item:
  assumes "parse_number item b = Some (True, item', b')"
  shows "ctype item' = cJSON_Number \<and> child item' = child item \<and>
    valuestring item' = valuestring item \<and> item_string item' = item_string item \<and>
    saturate_int (valuedouble item') = Some (valueint item')"
  using assms by (auto simp: parse_number_def run_simps split: prod.splits if_splits)

lemma parse_number_fail:
  "parse_number item b = Some (False, item', b') \<Longrightarrow> item' = item \<and> b' = b"
  by (auto simp: parse_number_def run_simps split: prod.splits if_splits)

subsection \<open>Hexadecimal digits\<close>

definition hex_digit :: "char \<Rightarrow> nat option" where
  "hex_digit c =
     (if ch CHR ''0'' \<le> ch c \<and> ch c \<le> ch CHR ''9'' then Some (ch c - ch CHR ''0'')
      else if ch CHR ''A'' \<le> ch c \<and> ch c \<le> ch CHR ''F'' then Some (10 + ch c - ch CHR ''A'')
      else if ch CHR ''a'' \<le> ch c \<and> ch c \<le> ch CHR ''f'' then Some (10 + ch c - ch CHR ''a'')
      else None)"

text \<open>The loop of \<open>parse_hex4\<close> from index \<open>i\<close>; \<open>p\<close> is the position of \<open>input\<close>.\<close>

function parse_hex4_loop :: "bytes \<Rightarrow> nat \<Rightarrow> nat \<Rightarrow> nat \<Rightarrow> nat option" where
  "parse_hex4_loop src p i h =
     (if i < 4 then do {
        c \<leftarrow> rd src (p + i);
        (case hex_digit c of
           None \<Rightarrow> Some 0
         | Some v \<Rightarrow> parse_hex4_loop src p (Suc i) (if i < 3 then (h + v) * 16 else h + v)) }
      else Some h)"
  by pat_completeness auto
termination
  by (relation "measure (\<lambda>(src, p, i, h). 4 - i)") auto

declare parse_hex4_loop.simps [simp del]

definition parse_hex4 :: "bytes \<Rightarrow> nat \<Rightarrow> nat option" where
  "parse_hex4 src p = parse_hex4_loop src p 0 0"

lemma parse_hex4_unfold:
  assumes "p + 4 \<le> length src"
  shows "parse_hex4 src p =
    (case (hex_digit (src ! p), hex_digit (src ! (p + 1)), hex_digit (src ! (p + 2)),
           hex_digit (src ! (p + 3))) of
       (Some a, Some b, Some c, Some d) \<Rightarrow> Some (((a * 16 + b) * 16 + c) * 16 + d)
     | _ \<Rightarrow> Some 0)"
  using assms unfolding parse_hex4_def
  by (simp add: parse_hex4_loop.simps [of _ _ 0] parse_hex4_loop.simps [of _ _ "Suc 0"]
      parse_hex4_loop.simps [of _ _ "Suc (Suc 0)"] parse_hex4_loop.simps [of _ _ "Suc (Suc (Suc 0))"]
      parse_hex4_loop.simps [of _ _ "Suc (Suc (Suc (Suc 0)))"] numeral_2_eq_2 numeral_3_eq_3
      split: option.split)

lemma parse_hex4_defined: "p + 4 \<le> length src \<Longrightarrow> \<exists>h. parse_hex4 src p = Some h"
  by (auto simp: parse_hex4_unfold split: option.split)

lemma hex_digit_lt: "hex_digit c = Some v \<Longrightarrow> v < 16"
  by (auto simp: hex_digit_def split: if_splits)

lemma hex_digit_not_backslash: "hex_digit c = Some v \<Longrightarrow> c \<noteq> BACKSLASH"
  by (auto simp: hex_digit_def)

text \<open>A non-zero result means that all four characters are digits.\<close>

lemma parse_hex4_digits:
  assumes "parse_hex4 src p = Some h" and "h \<noteq> 0" and "p + 4 \<le> length src" and "i < 4"
  shows "src ! (p + i) \<noteq> BACKSLASH"
proof -
  from assms(1-3) obtain a b c d where
    "hex_digit (src ! p) = Some a" "hex_digit (src ! (p + 1)) = Some b"
    "hex_digit (src ! (p + 2)) = Some c" "hex_digit (src ! (p + 3)) = Some d"
    by (auto simp: parse_hex4_unfold split: option.splits)
  moreover from assms(4) have "i = 0 \<or> i = 1 \<or> i = 2 \<or> i = 3" by linarith
  ultimately have "\<exists>v. hex_digit (src ! (p + i)) = Some v" by (elim disjE) simp_all
  then show ?thesis using hex_digit_not_backslash by blast
qed

lemma parse_hex4_lt:
  assumes "parse_hex4 src p = Some h" and "p + 4 \<le> length src"
  shows "h < 65536"
proof -
  have step: "a * 16 + b < k * 16" if "a < k" "b < 16" for a b k :: nat
    using that by linarith
  have "(((a * 16 + b) * 16 + c) * 16 + d) < 65536"
    if "a < 16" "b < 16" "c < 16" "d < 16" for a b c d :: nat
    using step [OF step [OF step [OF that(1,2)] that(3)] that(4)] by simp
  with assms show ?thesis
    by (auto simp: parse_hex4_unfold dest!: hex_digit_lt split: option.splits)
qed

end
