(* ===== verification/CJsonUtf.thy ===== *)
theory CJsonUtf
  imports CJsonText
begin

section \<open>cJSON: escaped UTF-16 to UTF-8\<close>

text \<open>
  \<open>utf16_literal_to_utf8\<close> of \<open>cJSON.c\<close>: it reads one or two \<open>\uXXXX\<close> sequences and writes the
  UTF-8 encoding of the code point.  The result is the number of input characters used (0 on
  failure) and the bytes written at \<open>output_pointer\<close>.  The reference decoder at the end states
  what a UTF-8 encoding is; the encoder is shown to be its inverse.
\<close>

subsection \<open>Encoding a code point\<close>

text \<open>
  The loop that fills \<open>utf8_length - 1\<close> continuation bytes from the last one to the second,
  shifting the code point right by six bits each time.
\<close>

fun utf8_tail :: "nat \<Rightarrow> nat \<Rightarrow> bytes \<Rightarrow> nat \<times> bytes" where
  "utf8_tail 0 cp written = (cp, written)"
| "utf8_tail (Suc n) cp written =
     utf8_tail n (drop_bit 6 cp) (char_of ((cp OR 0x80) AND 0xBF) # written)"

definition utf8_bytes :: "nat \<Rightarrow> nat \<Rightarrow> nat \<Rightarrow> bytes" where
  "utf8_bytes utf8_length first_byte_mark cp =
     (let (cp', rest) = utf8_tail (utf8_length - 1) cp []
      in (if 1 < utf8_length then char_of ((cp' OR first_byte_mark) AND 0xFF)
          else char_of (cp' AND 0x7F)) # rest)"

definition utf8_encode :: "nat \<Rightarrow> bytes option" where
  "utf8_encode codepoint =
     (if codepoint < 0x80 then Some (utf8_bytes 1 0 codepoint)
      else if codepoint < 0x800 then Some (utf8_bytes 2 0xC0 codepoint)
      else if codepoint < 0x10000 then Some (utf8_bytes 3 0xE0 codepoint)
      else if codepoint \<le> 0x10FFFF then Some (utf8_bytes 4 0xF0 codepoint)
      else None)"

definition utf16_literal_to_utf8 :: "bytes \<Rightarrow> nat \<Rightarrow> nat \<Rightarrow> (nat \<times> bytes) option" where
  "utf16_literal_to_utf8 src first_sequence input_end =
     (let finish = (\<lambda>sequence_length cp.
            case utf8_encode cp of None \<Rightarrow> (0, []) | Some bs \<Rightarrow> (sequence_length, bs))
      in if int input_end - int first_sequence < 6 then Some (0, [])
         else do {
           first_code \<leftarrow> parse_hex4 src (first_sequence + 2);
           if 0xDC00 \<le> first_code \<and> first_code \<le> 0xDFFF then Some (0, [])
           else if 0xD800 \<le> first_code \<and> first_code \<le> 0xDBFF then
             let second_sequence = first_sequence + 6
             in if int input_end - int second_sequence < 6 then Some (0, [])
                else do {
                  c0 \<leftarrow> rd src second_sequence;
                  c1 \<leftarrow> rd src (second_sequence + 1);
                  if c0 \<noteq> BACKSLASH \<or> c1 \<noteq> CHR ''u'' then Some (0, [])
                  else do {
                    second_code \<leftarrow> parse_hex4 src (second_sequence + 2);
                    if second_code < 0xDC00 \<or> 0xDFFF < second_code then Some (0, [])
                    else Some (finish 12
                      (0x10000 + (push_bit 10 (first_code AND 0x3FF) OR (second_code AND 0x3FF)))) } }
           else Some (finish 6 first_code) })"

subsection \<open>The encoder against a reference decoder\<close>

lemma bit_128: "bit (128::nat) n \<longleftrightarrow> n = 7"
proof -
  have e: "(128::nat) = 2 ^ 7" by simp
  show ?thesis unfolding e by (simp only: bit_exp_iff) auto
qed

lemma bit_191: "bit (191::nat) n \<longleftrightarrow> n < 6 \<or> n = 7"
proof -
  have e: "(191::nat) = mask 6 OR 2 ^ 7" by (simp add: mask_eq_exp_minus_1)
  show ?thesis unfolding e by (simp only: bit_or_iff bit_mask_iff bit_exp_iff) auto
qed

lemma continuation_byte: "(x OR 128) AND 191 = 128 + x mod (64::nat)"
proof -
  have a: "x mod 64 = take_bit 6 x" by (simp add: take_bit_eq_mod)
  have "128 + take_bit 6 x = 128 OR take_bit 6 x"
    by (rule disjunctive_add) (auto simp: bit_simps bit_128)
  moreover have "(x OR 128) AND 191 = 128 OR take_bit 6 x"
    by (rule bit_eqI) (auto simp: bit_simps bit_191 bit_128)
  ultimately show ?thesis using a by simp
qed

lemma lead_byte:
  assumes "x < 2 ^ k" and "q * 2 ^ k + x < 256"
  shows "(x OR q * 2 ^ k) AND 255 = q * 2 ^ k + (x::nat)"
proof -
  have "q * 2 ^ k + x = push_bit k q + take_bit k x"
    using assms(1) by (simp add: push_bit_eq_mult take_bit_nat_eq_self)
  also have "\<dots> = push_bit k q OR take_bit k x"
    by (rule disjunctive_add) (auto simp: bit_simps)
  also have "\<dots> = x OR q * 2 ^ k"
    using assms(1) by (simp add: push_bit_eq_mult take_bit_nat_eq_self or.commute)
  finally have e: "x OR q * 2 ^ k = q * 2 ^ k + x" by simp
  have "n AND 255 = n" if "n < 256" for n :: nat
  proof -
    have "(255::nat) = mask 8" by (simp add: mask_eq_exp_minus_1)
    then have "n AND 255 = take_bit 8 n" by (simp only: take_bit_eq_mask)
    then show ?thesis using that by (simp add: take_bit_nat_eq_self)
  qed
  with assms(2) show ?thesis by (simp only: e)
qed

lemma drop_bit_6: "drop_bit 6 (n::nat) = n div 64"
  by (simp add: drop_bit_eq_div)

text \<open>The loop run once, twice and three times.\<close>

lemma utf8_tail_once:
  "utf8_tail 1 cp w = (cp div 64, char_of (128 + cp mod 64) # w)"
  by (simp add: continuation_byte drop_bit_6)

lemma utf8_tail_more:
  "utf8_tail 2 cp w = utf8_tail 1 (cp div 64) (char_of (128 + cp mod 64) # w)"
  "utf8_tail 3 cp w = utf8_tail 2 (cp div 64) (char_of (128 + cp mod 64) # w)"
  using utf8_tail.simps(2) [of 1] utf8_tail.simps(2) [of 2]
  by (simp_all add: continuation_byte drop_bit_6 Suc_1 [symmetric] numeral_3_eq_3 del: utf8_tail.simps)

lemma and_127: "x < 128 \<Longrightarrow> x AND 127 = (x::nat)"
proof -
  assume "x < 128"
  moreover have "(127::nat) = mask 7" by (simp add: mask_eq_exp_minus_1)
  then have "x AND 127 = take_bit 7 x" by (simp only: take_bit_eq_mask)
  ultimately show ?thesis by (simp add: take_bit_nat_eq_self)
qed

text \<open>The four encodings, with the shifts and masks evaluated.\<close>

lemma utf8_encode_1: "cp < 128 \<Longrightarrow> utf8_encode cp = Some [char_of cp]"
  by (simp add: utf8_encode_def utf8_bytes_def and_127)

lemmas utf8_eval = utf8_encode_def utf8_bytes_def utf8_tail_more utf8_tail_once div_mult2_eq [symmetric]
  continuation_byte drop_bit_6

lemma utf8_encode_2:
  assumes "128 \<le> cp" and "cp < 2048"
  shows "utf8_encode cp = Some [char_of (192 + cp div 64), char_of (128 + cp mod 64)]"
proof -
  have "(cp div 64 OR 192) AND 255 = 192 + cp div 64"
    using assms lead_byte [of "cp div 64" 5 6] by (simp add: div_less_iff_less_mult)
  with assms show ?thesis by (simp add: utf8_eval)
qed

lemma utf8_encode_3:
  assumes "2048 \<le> cp" and "cp < 65536"
  shows "utf8_encode cp =
    Some [char_of (224 + cp div 4096), char_of (128 + cp div 64 mod 64), char_of (128 + cp mod 64)]"
proof -
  have "(cp div 4096 OR 224) AND 255 = 224 + cp div 4096"
    using assms lead_byte [of "cp div 4096" 4 14] by (simp add: div_less_iff_less_mult)
  with assms show ?thesis by (simp add: utf8_eval)
qed

lemma utf8_encode_4:
  assumes "65536 \<le> cp" and "cp \<le> 0x10FFFF"
  shows "utf8_encode cp =
    Some [char_of (240 + cp div 262144), char_of (128 + cp div 4096 mod 64),
          char_of (128 + cp div 64 mod 64), char_of (128 + cp mod 64)]"
proof -
  have "(cp div 262144 OR 240) AND 255 = 240 + cp div 262144"
    using assms lead_byte [of "cp div 262144" 3 30] by (simp add: div_less_iff_less_mult)
  with assms show ?thesis by (simp add: utf8_eval)
qed

definition utf8_cont :: "char \<Rightarrow> bool" where
  "utf8_cont c \<longleftrightarrow> 128 \<le> ch c \<and> ch c < 192"

text \<open>
  The decoder of the UTF-8 standard: it accepts exactly the shortest encodings of values up to
  \<open>0x10FFFF\<close>.
\<close>

fun utf8_decode :: "bytes \<Rightarrow> nat option" where
  "utf8_decode [a] = (if ch a < 128 then Some (ch a) else None)"
| "utf8_decode [a, b] =
     (let v = (ch a - 192) * 64 + (ch b - 128)
      in if 192 \<le> ch a \<and> ch a < 224 \<and> utf8_cont b \<and> 128 \<le> v then Some v else None)"
| "utf8_decode [a, b, c] =
     (let v = ((ch a - 224) * 64 + (ch b - 128)) * 64 + (ch c - 128)
      in if 224 \<le> ch a \<and> ch a < 240 \<and> utf8_cont b \<and> utf8_cont c \<and> 2048 \<le> v
         then Some v else None)"
| "utf8_decode [a, b, c, d] =
     (let v = (((ch a - 240) * 64 + (ch b - 128)) * 64 + (ch c - 128)) * 64 + (ch d - 128)
      in if 240 \<le> ch a \<and> ch a < 248 \<and> utf8_cont b \<and> utf8_cont c \<and> utf8_cont d
            \<and> 65536 \<le> v \<and> v \<le> 0x10FFFF
         then Some v else None)"
| "utf8_decode _ = None"

lemma base64_digits: "(n div 64) * 64 + n mod 64 = (n::nat)"
  by simp

lemma utf8_roundtrip:
  assumes "cp \<le> 0x10FFFF"
  shows "\<exists>bs. utf8_encode cp = Some bs \<and> utf8_decode bs = Some cp"
proof -
  have d: "cp div 4096 = cp div 64 div 64" "cp div 262144 = cp div 64 div 64 div 64"
    by (simp_all add: div_mult2_eq [symmetric])
  consider "cp < 128" | "128 \<le> cp" "cp < 2048" | "2048 \<le> cp" "cp < 65536" | "65536 \<le> cp"
    by linarith
  then show ?thesis
  proof cases
    case 1
    then show ?thesis by (simp add: utf8_encode_1)
  next
    case 2
    then show ?thesis by (simp add: utf8_encode_2 of_char_of utf8_cont_def)
  next
    case 3
    then have "cp div 4096 < 16" by (simp add: div_less_iff_less_mult)
    with 3 show ?thesis by (simp add: utf8_encode_3 of_char_of utf8_cont_def d)
  next
    case 4
    with assms have "cp div 262144 < 5" by (simp add: div_less_iff_less_mult)
    with 4 assms show ?thesis by (simp add: utf8_encode_4 of_char_of utf8_cont_def d)
  qed
qed

lemma utf8_encode_None_iff: "utf8_encode cp = None \<longleftrightarrow> 0x10FFFF < cp"
  by (auto simp: utf8_encode_def)

subsection \<open>Bounds of the conversion\<close>

lemma length_utf8_tail: "length (snd (utf8_tail n cp w)) = n + length w"
  by (induction n cp w rule: utf8_tail.induct) auto

lemma length_utf8_bytes: "0 < n \<Longrightarrow> length (utf8_bytes n m cp) = n"
  using length_utf8_tail [of "n - 1" cp "[]"]
  by (auto simp: utf8_bytes_def split: prod.split)

lemma length_utf8_encode:
  "utf8_encode cp = Some bs \<Longrightarrow>
     length bs \<le> 4 \<and> (cp < 0x10000 \<longrightarrow> length bs \<le> 3) \<and> (cp = 0 \<longrightarrow> length bs = 1)"
  by (auto simp: utf8_encode_def length_utf8_bytes split: if_splits)

subsection \<open>Properties\<close>

text \<open>
  C31. The UTF-8 bytes the parser writes for a code point are the code point's: up to \<open>0x10FFFF\<close>
  the encoder succeeds, and the reference decoder reads the code point back.
\<close>

theorem utf8_encode_decode:
  assumes "cp \<le> 0x10FFFF"
  shows "\<exists>bs. utf8_encode cp = Some bs \<and> utf8_decode bs = Some cp"
  by (rule utf8_roundtrip [OF assms])

lemma utf8_encode_decode_witness:
  "\<exists>bs. utf8_encode 0x20AC = Some bs \<and> utf8_decode bs = Some 0x20AC"
  by (rule utf8_encode_decode) simp

end
