(* ===== verification/CJsonString.thy ===== *)
theory CJsonString
  imports CJsonUtf
begin

section \<open>cJSON: parsing string literals\<close>

text \<open>
  \<open>parse_string\<close> of \<open>cJSON.c\<close>: a first pass finds the closing quote and computes the size of
  the output block, a second pass writes the unescaped text into it.  The two passes do not
  always agree on where escape sequences start (an invalid \<open>\uXXXX\<close> is skipped as a whole by the
  second one), so that the block is large enough is a theorem and not obvious.
\<close>

subsection \<open>The two passes\<close>

text \<open>
  First pass, from position \<open>e\<close>: the position of the closing quote and the number of skipped
  backslashes, or \<open>None\<close> where the code jumps to \<open>fail\<close>.
\<close>

function scan_string :: "bytes \<Rightarrow> nat \<Rightarrow> nat \<Rightarrow> (nat \<times> nat) option" where
  "scan_string src e skipped =
     (if e < length src \<and> src ! e \<noteq> DQUOTE
      then if src ! e = BACKSLASH
           then if length src \<le> e + 1 then None
                else scan_string src (e + 2) (skipped + 1)
           else scan_string src (e + 1) skipped
      else if length src \<le> e \<or> src ! e \<noteq> DQUOTE then None
      else Some (e, skipped))"
  by pat_completeness auto
termination
  by (relation "measure (\<lambda>(src, e, k). length src - e)") auto

declare scan_string.simps [simp del]

text \<open>The escape sequences of one character.\<close>

definition simple_escape :: "char \<Rightarrow> char option" where
  "simple_escape c =
     (if c = CHR ''b'' then Some CHR 0x08
      else if c = CHR ''f'' then Some CHR 0x0C
      else if c = CHR ''n'' then Some CHR 0x0A
      else if c = CHR ''r'' then Some CHR 0x0D
      else if c = CHR ''t'' then Some CHR 0x09
      else if c = DQUOTE \<or> c = BACKSLASH \<or> c = CHR ''/'' then Some c
      else None)"

text \<open>
  One iteration of the second pass at position \<open>p\<close>: the number of characters used and the
  bytes written, \<open>(0, [])\<close> where the code jumps to \<open>fail\<close>.
\<close>

definition unescape_step :: "bytes \<Rightarrow> nat \<Rightarrow> nat \<Rightarrow> (nat \<times> bytes) option" where
  "unescape_step src p e =
     do {
       c \<leftarrow> rd src p;
       if c \<noteq> BACKSLASH then Some (1, [c])
       else if int e - int p < 1 then Some (0, [])
       else do {
         c1 \<leftarrow> rd src (p + 1);
         case simple_escape c1 of
           Some x \<Rightarrow> Some (2, [x])
         | None \<Rightarrow> if c1 = CHR ''u'' then utf16_literal_to_utf8 src p e else Some (0, []) } }"

text \<open>The whole second pass: whether it succeeded, the input position it reached, the output.\<close>

function unescape_loop :: "bytes \<Rightarrow> nat \<Rightarrow> nat \<Rightarrow> bytes \<Rightarrow> (bool \<times> nat \<times> bytes) option" where
  "unescape_loop src p e out =
     (if p < e
      then case unescape_step src p e of
             None \<Rightarrow> None
           | Some (n, bs) \<Rightarrow> if n = 0 then Some (False, p, out)
                             else unescape_loop src (p + n) e (out @ bs)
      else Some (True, p, out))"
  by pat_completeness auto
termination
  by (relation "measure (\<lambda>(src, p, e, out). e - p)") auto

declare unescape_loop.simps [simp del]

definition parse_string :: "cJSON \<Rightarrow> parse_buffer \<Rightarrow> parse_result" where
  "parse_string item b =
     (let start = offset b + 1
      in do {
        c \<leftarrow> at_offset b 0;
        if c \<noteq> DQUOTE then Some (False, item, b\<lparr>offset := start\<rparr>)
        else case scan_string (content b) start 0 of
          None \<Rightarrow> Some (False, item, b\<lparr>offset := start\<rparr>)
        | Some (input_end, skipped_bytes) \<Rightarrow>
            let (ok, h) = malloc (mem b)
            in if \<not> ok then Some (False, item, b\<lparr>offset := start, mem := h\<rparr>)
               else do {
                 (done, p, out) \<leftarrow> unescape_loop (content b) start input_end [];
                 if done
                 then Some (True, set_valuestring (Some out) (set_ctype cJSON_String item),
                            b\<lparr>offset := input_end + 1, mem := h\<rparr>)
                 else Some (False, item, b\<lparr>offset := p, mem := dealloc h\<rparr>) } })"

text \<open>
  The size of the output block, \<open>allocation_length + sizeof("")\<close>, from the position of the opening
  quote and the results of the first pass.
\<close>

definition output_block_size :: "nat \<Rightarrow> nat \<Rightarrow> nat \<Rightarrow> nat" where
  "output_block_size quote_pos input_end skipped_bytes =
     (let allocation_length = (input_end - quote_pos) - skipped_bytes in allocation_length + 1)"

subsection \<open>The passes stay inside the buffer\<close>

lemma scan_string_end:
  "scan_string src e k = Some (e', k') \<Longrightarrow> e \<le> e' \<and> e' < length src \<and> src ! e' = DQUOTE"
proof (induction src e k rule: scan_string.induct)
  case (1 src e k)
  from "1.prems" have "(if e < length src \<and> src ! e \<noteq> DQUOTE
      then if src ! e = BACKSLASH
           then if length src \<le> e + 1 then None else scan_string src (e + 2) (k + 1)
           else scan_string src (e + 1) k
      else if length src \<le> e \<or> src ! e \<noteq> DQUOTE then None else Some (e, k)) = Some (e', k')"
    by (simp add: scan_string.simps [of src e k])
  with "1.IH" show ?case
    by (fastforce split: if_splits)
qed

lemma utf16_defined:
  assumes "e < length src" and "p < e"
  shows "\<exists>r. utf16_literal_to_utf8 src p e = Some r"
proof (cases "int e - int p < 6")
  case True
  then show ?thesis by (simp add: utf16_literal_to_utf8_def)
next
  case False
  with assms obtain h where h: "parse_hex4 src (p + 2) = Some h"
    using parse_hex4_defined [of "p + 2" src] by auto
  show ?thesis
  proof (cases "int e - int (p + 6) < 6")
    case True
    with False h show ?thesis by (simp add: utf16_literal_to_utf8_def Let_def)
  next
    case False': False
    with assms obtain h2 where "parse_hex4 src (8 + p) = Some h2"
      using parse_hex4_defined [of "8 + p" src] by auto
    with False False' h assms show ?thesis
      by (auto simp: utf16_literal_to_utf8_def Let_def)
  qed
qed

lemma unescape_step_defined:
  "e < length src \<Longrightarrow> p < e \<Longrightarrow> \<exists>n bs. unescape_step src p e = Some (n, bs)"
  using utf16_defined [of e src p] by (auto simp: unescape_step_def split: option.split)

lemma unescape_loop_defined:
  "e < length src \<Longrightarrow> \<exists>r. unescape_loop src p e out = Some r"
proof (induction src p e out rule: unescape_loop.induct)
  case (1 src p e out)
  show ?case
  proof (cases "p < e")
    case True
    with "1.prems" obtain n bs where "unescape_step src p e = Some (n, bs)"
      using unescape_step_defined by blast
    with 1 True show ?thesis by (subst unescape_loop.simps) auto
  qed (auto simp: unescape_loop.simps [of src p e out])
qed

lemma parse_string_defined:
  assumes "offset b < length (content b)"
  shows "\<exists>r. parse_string item b = Some r"
proof -
  obtain ok h where m: "malloc (mem b) = (ok, h)" by fastforce
  show ?thesis
  proof (cases "scan_string (content b) (offset b + 1) 0")
    case None
    with assms show ?thesis by (auto simp: parse_string_def at_offset_def)
  next
    case (Some r)
    then obtain e k where s: "scan_string (content b) (offset b + 1) 0 = Some (e, k)"
      by (cases r) auto
    from scan_string_end [OF s] obtain d p out
      where "unescape_loop (content b) (offset b + 1) e [] = Some (d, p, out)"
      using unescape_loop_defined by (metis prod_cases3)
    with assms m s show ?thesis by (auto simp: parse_string_def at_offset_def)
  qed
qed

subsection \<open>The output fits into its block\<close>

text \<open>
  \<open>budget m l\<close> counts the characters of \<open>l\<close> that the first pass did not skip; \<open>m\<close> says that
  \<open>l\<close> starts in the middle of one of its escape sequences.
\<close>

fun budget :: "bool \<Rightarrow> bytes \<Rightarrow> nat" where
  "budget m [] = 0"
| "budget m (c # l) = (if \<not> m \<and> c = BACKSLASH then budget True l else Suc (budget False l))"

fun in_escape :: "bool \<Rightarrow> bytes \<Rightarrow> bool" where
  "in_escape m [] = m"
| "in_escape m (c # l) = in_escape (\<not> m \<and> c = BACKSLASH) l"

lemma budget_append: "budget m (xs @ ys) = budget m xs + budget (in_escape m xs) ys"
  by (induction m xs rule: budget.induct) auto

lemma in_escape_append: "in_escape m (xs @ ys) = in_escape (in_escape m xs) ys"
  by (induction xs arbitrary: m) auto

definition seg :: "bytes \<Rightarrow> nat \<Rightarrow> nat \<Rightarrow> bytes" where
  "seg src p e = take (e - p) (drop p src)"

lemma seg_empty [simp]: "e \<le> p \<Longrightarrow> seg src p e = []"
  by (simp add: seg_def)

lemma seg_Cons: "p < e \<Longrightarrow> e \<le> length src \<Longrightarrow> seg src p e = src ! p # seg src (Suc p) e"
  by (simp add: seg_def Cons_nth_drop_Suc [symmetric] take_Cons' Suc_diff_Suc)

lemma seg_split: "seg src p e = take n (seg src p e) @ seg src (p + n) e"
proof -
  have "drop n (seg src p e) = seg src (p + n) e"
    by (simp add: seg_def drop_take add.commute)
  then show ?thesis by (metis append_take_drop_id)
qed

lemma scan_string_budget:
  "scan_string src e k = Some (e', k') \<Longrightarrow>
     e' + k = e + budget False (seg src e e') + k' \<and> \<not> in_escape False (seg src e e')"
proof (induction src e k rule: scan_string.induct)
  case (1 src e k)
  have end': "e \<le> e'" "e' < length src"
    using scan_string_end [OF "1.prems"] by auto
  consider (plain) "e < length src" "src ! e \<noteq> DQUOTE" "src ! e \<noteq> BACKSLASH"
    | (esc) "e < length src" "src ! e \<noteq> DQUOTE" "src ! e = BACKSLASH" "\<not> length src \<le> e + 1"
    | (stop) "e' = e" "k' = k"
    using "1.prems" by (fastforce simp: scan_string.simps [of src e k] split: if_splits)
  then show ?case
  proof cases
    case plain
    then have s: "scan_string src (e + 1) k = Some (e', k')"
      using "1.prems" by (simp add: scan_string.simps [of src e k])
    moreover have "e < e'" using scan_string_end [OF s] by simp
    ultimately show ?thesis
      using "1.IH"(2) plain end' by (simp add: seg_Cons)
  next
    case esc
    then have s: "scan_string src (e + 2) (k + 1) = Some (e', k')"
      using "1.prems" by (simp add: scan_string.simps [of src e k])
    moreover have "e + 2 \<le> e'" using scan_string_end [OF s] by simp
    ultimately show ?thesis
      using "1.IH"(1) esc end' by (simp add: seg_Cons)
  qed simp
qed

lemma budget_le_append: "budget m xs \<le> budget m (xs @ ys)"
  by (simp add: budget_append)

lemma budget_plain: "BACKSLASH \<notin> set l \<Longrightarrow> budget m l = length l"
  by (induction m l rule: budget.induct) auto

lemma take_seg:
  assumes "p + n \<le> e" and "e \<le> length src"
  shows "take n (seg src p e) = map (\<lambda>i. src ! (p + i)) [0..<n]"
  using assms by (intro nth_equalityI) (auto simp: seg_def)

lemma utf16_budget:
  assumes r: "utf16_literal_to_utf8 src p e = Some (n, bs)" and "n \<noteq> 0"
    and len: "e \<le> length src"
  shows "length bs \<le> budget m (take n (seg src p e))"
proof -
  have fits: "p + 6 \<le> e"
    using r \<open>n \<noteq> 0\<close> by (auto simp: utf16_literal_to_utf8_def split: if_splits)
  with len obtain h where h: "parse_hex4 src (p + 2) = Some h"
    using parse_hex4_defined [of "p + 2" src] by auto
  have six: "take 6 (seg src p e) =
      [src ! p, src ! (p + 1), src ! (p + 2), src ! (p + 3), src ! (p + 4), src ! (p + 5)]"
    using fits len by (simp add: take_seg upt_rec numeral_eq_Suc)
  have "1 \<le> budget m (take 6 (seg src p e))"
    by (simp add: six)
  moreover have "5 \<le> budget m (take 6 (seg src p e))" if "h \<noteq> 0"
  proof -
    have "src ! (p + j) \<noteq> BACKSLASH" if j: "2 \<le> j" "j < 6" for j
    proof -
      from j obtain i where "j = 2 + i" "i < 4"
        using le_Suc_ex [of 2 j] by auto
      then show ?thesis
        using parse_hex4_digits [OF h \<open>h \<noteq> 0\<close>, of i] fits len by (simp add: add.assoc)
    qed
    from this [of 2] this [of 3] this [of 4] this [of 5] show ?thesis
      by (simp add: six)
  qed
  moreover have "n = 6 \<and> utf8_encode h = Some bs \<or> n = 12 \<and> h \<noteq> 0 \<and> length bs \<le> 4"
    using r \<open>n \<noteq> 0\<close> h
    by (auto simp: utf16_literal_to_utf8_def Let_def run_simps
        dest: length_utf8_encode split: if_splits option.splits)
  moreover have "h < 65536"
    using parse_hex4_lt [OF h] fits len by simp
  moreover have "budget m (take 6 (seg src p e)) \<le> budget m (take 12 (seg src p e))"
    using budget_le_append [of m "take 6 (seg src p e)" "take 6 (drop 6 (seg src p e))"]
    by (simp add: take_add [symmetric])
  ultimately show ?thesis
    using length_utf8_encode [of h bs] by fastforce
qed

lemma unescape_step_budget:
  assumes s: "unescape_step src p e = Some (n, bs)" and "n \<noteq> 0"
    and "p < e" "e < length src" and esc: "\<not> in_escape m (seg src p e)"
  shows "length bs \<le> budget m (take n (seg src p e))"
proof -
  have first: "seg src p e = src ! p # seg src (Suc p) e"
    using assms by (simp add: seg_Cons)
  consider (plain) "n = 1" "bs = [src ! p]" "src ! p \<noteq> BACKSLASH"
    | (simple) x where "n = 2" "bs = [x]" "src ! p = BACKSLASH"
    | (utf) "utf16_literal_to_utf8 src p e = Some (n, bs)"
    using s \<open>n \<noteq> 0\<close> by (auto simp: unescape_step_def run_simps split: if_splits option.splits)
  then show ?thesis
  proof cases
    case plain
    then show ?thesis by (simp add: first)
  next
    case simple
    show ?thesis
    proof (cases "Suc p < e")
      case True
      with simple show ?thesis
        using assms by (simp add: first seg_Cons)
    next
      case False
      with simple esc show ?thesis by (simp add: first)
    qed
  next
    case utf
    then show ?thesis using utf16_budget assms by simp
  qed
qed

lemma unescape_loop_budget:
  "unescape_loop src p e out = Some (ok, p', out') \<Longrightarrow> e < length src \<Longrightarrow>
     \<not> in_escape m (seg src p e) \<Longrightarrow> length out' \<le> length out + budget m (seg src p e)"
proof (induction src p e out arbitrary: m rule: unescape_loop.induct)
  case (1 src p e out)
  show ?case
  proof (cases "p < e")
    case True
    then obtain n bs where s: "unescape_step src p e = Some (n, bs)"
      using unescape_step_defined "1.prems"(2) by blast
    show ?thesis
    proof (cases "n = 0")
      case True
      with s \<open>p < e\<close> "1.prems" show ?thesis
        by (auto simp: unescape_loop.simps [of src p e out])
    next
      case False
      have split: "seg src p e = take n (seg src p e) @ seg src (p + n) e"
        by (rule seg_split)
      let ?m = "in_escape m (take n (seg src p e))"
      have "unescape_loop src (p + n) e (out @ bs) = Some (ok, p', out')"
        using "1.prems"(1) s \<open>p < e\<close> False by (simp add: unescape_loop.simps [of src p e out])
      moreover have "\<not> in_escape ?m (seg src (p + n) e)"
        using "1.prems"(3) split in_escape_append [of m] by metis
      ultimately have "length out' \<le> length (out @ bs) + budget ?m (seg src (p + n) e)"
        using "1.IH" [OF True s refl False] "1.prems"(2) by simp
      moreover have "length bs \<le> budget m (take n (seg src p e))"
        using unescape_step_budget [OF s False True "1.prems"(2,3)] .
      moreover have "budget m (seg src p e) =
          budget m (take n (seg src p e)) + budget ?m (seg src (p + n) e)"
        using split budget_append by metis
      ultimately show ?thesis by simp
    qed
  qed (use "1.prems" in \<open>auto simp: unescape_loop.simps [of src p e out]\<close>)
qed

lemma parse_string_no_overflow:
  assumes "scan_string src (q + 1) 0 = Some (e, k)"
    and "unescape_loop src (q + 1) e [] = Some (ok, p, out)"
  shows "length out + 1 \<le> output_block_size q e k"
proof -
  have "e < length src" "q + 1 \<le> e"
    using scan_string_end [OF assms(1)] by auto
  moreover have "e = q + 1 + budget False (seg src (q + 1) e) + k"
    "\<not> in_escape False (seg src (q + 1) e)"
    using scan_string_budget [OF assms(1)] by auto
  ultimately show ?thesis
    using unescape_loop_budget [OF assms(2)] by (fastforce simp: output_block_size_def)
qed

subsection \<open>What a call changes\<close>

lemma unescape_loop_stop:
  "unescape_loop src p e out = Some (False, p', out') \<Longrightarrow> p' < e"
proof (induction src p e out rule: unescape_loop.induct)
  case (1 src p e out)
  then show ?case
    by (auto simp: unescape_loop.simps [of src p e out] split: if_splits option.splits prod.splits)
qed

text \<open>
  On success the position is behind the closing quote and the item holds one new block; on
  failure the item is as it was and nothing new is allocated.
\<close>

lemma parse_string_frame:
  assumes r: "parse_string item b = Some (ok, item', b')" and "offset b < length (content b)"
  shows "content b' = content b \<and> depth b' = depth b \<and> oom (mem b') = oom (mem b) \<and>
    live (mem b') = live (mem b) + of_bool ok \<and>
    (ok \<longrightarrow> (\<exists>out. item' = set_valuestring (Some out) (set_ctype cJSON_String item)) \<and>
            offset b < offset b' \<and> offset b' \<le> length (content b) \<and>
            content b ! (offset b' - 1) = DQUOTE) \<and>
    (\<not> ok \<longrightarrow> item' = item \<and> offset b' \<le> length (content b))"
proof -
  obtain ok1 h where m: "malloc (mem b) = (ok1, h)" by fastforce
  show ?thesis
    using assms m malloc_live [OF m] malloc_oom [OF m]
    by (auto simp: parse_string_def run_simps Let_def
        dest!: scan_string_end unescape_loop_stop split: if_splits option.splits)
qed

subsection \<open>Properties\<close>

text \<open>
  C14. \<open>parse_string\<close> never writes past its block: for every string literal that the first pass
  delimits, the bytes the second pass writes and the terminator fit the block whose size the
  first pass computed, although escape sequences are skipped with a different rule there.
\<close>

theorem parse_string_fits:
  assumes "scan_string src (q + 1) 0 = Some (e, k)"
    and "unescape_loop src (q + 1) e [] = Some (ok, p, out)"
  shows "length out + 1 \<le> output_block_size q e k"
  by (rule parse_string_no_overflow [OF assms])

definition sample_literal :: bytes where
  "sample_literal = DQUOTE # ''a'' @ [BACKSLASH] @ ''n'' @ [DQUOTE, NUL]"

lemma parse_string_fits_witness:
  "length [CHR ''a'', CHR 0x0A] + 1 \<le> output_block_size 0 4 1"
proof -
  have "scan_string sample_literal (0 + 1) 0 = Some (4, 1)" by code_simp
  moreover have "unescape_loop sample_literal (0 + 1) 4 [] = Some (True, 4, [CHR ''a'', CHR 0x0A])"
    by code_simp
  ultimately show ?thesis by (rule parse_string_fits)
qed

end
