(* ===== verification/CJsonPrint.thy ===== *)
theory CJsonPrint
  imports CFormat CJsonParse
begin

section \<open>cJSON: printing\<close>

text \<open>
  The print buffer of \<open>cJSON.c\<close> and every function that writes to it.  \<open>p_block\<close> is the
  allocated block (\<open>None\<close> for NULL), \<open>p_length\<close> the size the code believes it has, and
  \<open>p_junk\<close> the unknown byte that fresh memory holds.  \<open>p_realloc\<close> says whether the hooks have a
  \<open>reallocate\<close> function.  A write or a read outside the block makes the result \<open>None\<close>.
\<close>

record printbuffer =
  p_block :: "bytes option"
  p_length :: nat
  p_offset :: nat
  p_depth :: nat
  p_noalloc :: bool
  p_format :: bool
  p_realloc :: bool
  p_junk :: char
  p_mem :: heap

type_synonym print_result = "(bool \<times> printbuffer) option"

subsection \<open>Growing the buffer\<close>

definition grow :: "nat \<Rightarrow> printbuffer \<Rightarrow> bytes \<Rightarrow> print_result" where
  "grow newsize p old =
     (let (ok, h) = malloc (p_mem p); h' = dealloc h
      in if \<not> ok then Some (False, p\<lparr>p_block := None, p_length := 0, p_mem := h'\<rparr>)
         else let keep = (if p_realloc p then min (length old) newsize else p_offset p + 1)
              in if keep \<le> length old
                 then Some (True, p\<lparr>p_block := Some (take keep old @ replicate (newsize - keep) (p_junk p)),
                                    p_length := newsize, p_mem := h'\<rparr>)
                 else None)"

text \<open>\<open>True\<close> when the code returns the pointer \<open>buffer + offset\<close>, \<open>False\<close> when it returns NULL.\<close>

definition ensure :: "nat \<Rightarrow> printbuffer \<Rightarrow> print_result" where
  "ensure needed p =
     (case p_block p of
        None \<Rightarrow> Some (False, p)
      | Some old \<Rightarrow>
          if 0 < p_length p \<and> p_length p \<le> p_offset p then Some (False, p)
          else if INT_MAX < int needed then Some (False, p)
          else let needed' = needed + p_offset p + 1
          in if needed' \<le> p_length p then Some (True, p)
          else if p_noalloc p then Some (False, p)
          else if INT_MAX div 2 < int needed'
          then if int needed' \<le> INT_MAX then grow (nat INT_MAX) p old else Some (False, p)
          else grow (needed' * 2) p old)"

text \<open>Bytes stored at \<open>buffer + offset\<close>.\<close>

definition put :: "bytes \<Rightarrow> printbuffer \<Rightarrow> printbuffer option" where
  "put bs p =
     do { old \<leftarrow> p_block p;
          if p_offset p + length bs \<le> length old
          then Some (p\<lparr>p_block := Some (take (p_offset p) old @ bs
                                        @ drop (p_offset p + length bs) old)\<rparr>)
          else None }"

text \<open>\<open>strlen\<close> from the offset on; a block without a terminator there would be overrun.\<close>

definition update_offset :: "printbuffer \<Rightarrow> printbuffer option" where
  "update_offset p =
     (case p_block p of
        None \<Rightarrow> Some p
      | Some buf \<Rightarrow>
          if p_offset p \<le> length buf \<and> NUL \<in> set (drop (p_offset p) buf)
          then Some (p\<lparr>p_offset := p_offset p + length (c_str (drop (p_offset p) buf))\<rparr>)
          else None)"

text \<open>The idiom of all printers: reserve, give up on NULL, store.\<close>

definition and_then :: "print_result \<Rightarrow> (printbuffer \<Rightarrow> print_result) \<Rightarrow> print_result" where
  "and_then m f = do { (ok, p) \<leftarrow> m; if ok then f p else Some (False, p) }"

definition emit :: "nat \<Rightarrow> bytes \<Rightarrow> printbuffer \<Rightarrow> print_result" where
  "emit needed bs p =
     and_then (ensure needed p) (\<lambda>p. map_option (\<lambda>p. (True, p)) (put bs p))"

definition advance :: "nat \<Rightarrow> printbuffer \<Rightarrow> print_result" where
  "advance n p = Some (True, p\<lparr>p_offset := p_offset p + n\<rparr>)"

definition deeper :: "printbuffer \<Rightarrow> print_result" where
  "deeper p = Some (True, p\<lparr>p_depth := p_depth p + 1\<rparr>)"

definition shallower :: "printbuffer \<Rightarrow> print_result" where
  "shallower p = Some (True, p\<lparr>p_depth := p_depth p - 1\<rparr>)"

definition measure_printed :: "printbuffer \<Rightarrow> print_result" where
  "measure_printed p = map_option (\<lambda>p. (True, p)) (update_offset p)"

lemma and_then_cong [fundef_cong]:
  "m = m' \<Longrightarrow> (\<And>p. m' = Some (True, p) \<Longrightarrow> f p = f' p) \<Longrightarrow> and_then m f = and_then m' f'"
  by (cases m') (auto simp: and_then_def)

subsection \<open>Numbers\<close>

definition CJSON_DOUBLE_PRECISION :: dbl where
  "CJSON_DOUBLE_PRECISION = dbl_of_rat False (1 / 10 ^ 16)"

definition compare_double :: "dbl \<Rightarrow> dbl \<Rightarrow> bool" where
  "compare_double a b \<longleftrightarrow> dbl_leq (dbl_abs_diff a b) CJSON_DOUBLE_PRECISION"

text \<open>The text of \<open>number_buffer\<close>.\<close>

definition number_text :: "dbl \<Rightarrow> bytes" where
  "number_text d =
     (let z = dbl_times_zero d
      in if dbl_less (dbl_of_rat False (1 / 10 ^ 7)) z \<or> dbl_less z (dbl_of_rat True (1 / 10 ^ 7))
         then ''null''
         else let s = format_g 15 d
              in case sscanf_lg s of
                   Some test \<Rightarrow> if compare_double test d then s else format_g 17 d
                 | None \<Rightarrow> format_g 17 d)"

definition print_number :: "cJSON \<Rightarrow> printbuffer \<Rightarrow> print_result" where
  "print_number item p =
     (let s = number_text (valuedouble item)
      in if 25 < length s then Some (False, p)
         else and_then (emit (length s + 1)
                (map (\<lambda>c. if c = decimal_point then CHR ''.'' else c) s @ [NUL]) p)
              (advance (length s)))"

subsection \<open>Strings\<close>

definition extra_chars :: "char \<Rightarrow> nat" where
  "extra_chars c =
     (if c \<in> {DQUOTE, BACKSLASH, CHR 0x08, CHR 0x0C, CHR 0x0A, CHR 0x0D, CHR 0x09} then 1
      else if ch c < 32 then 5 else 0)"

definition escape_char :: "char \<Rightarrow> bytes" where
  "escape_char c =
     (if 31 < ch c \<and> c \<noteq> DQUOTE \<and> c \<noteq> BACKSLASH then [c]
      else BACKSLASH #
        (if c = BACKSLASH then [BACKSLASH] else if c = DQUOTE then [DQUOTE]
         else if c = CHR 0x08 then ''b'' else if c = CHR 0x0C then ''f''
         else if c = CHR 0x0A then ''n'' else if c = CHR 0x0D then ''r''
         else if c = CHR 0x09 then ''t'' else CHR ''u'' # show_hex4 (ch c)))"

text \<open>
  The two passes over the input: the first counts, the second writes.  The closing quote is
  stored at the counted position, so text that were longer than the count would be cut.
\<close>

definition print_string_ptr :: "bytes option \<Rightarrow> printbuffer \<Rightarrow> print_result" where
  "print_string_ptr input p =
     (case input of
        None \<Rightarrow> emit 3 [DQUOTE, DQUOTE, NUL] p
      | Some s \<Rightarrow>
          let t = c_str s;
              escape_characters = sum_list (map extra_chars t);
              output_length = length t + escape_characters
          in and_then (ensure (output_length + 3) p)
               (\<lambda>p. if escape_characters = 0
                    then map_option (\<lambda>p. (True, p)) (put (DQUOTE # t @ [DQUOTE, NUL]) p)
                    else do {
                      q \<leftarrow> put (DQUOTE # concat (map escape_char t)) p;
                      r \<leftarrow> put [DQUOTE, NUL] (q\<lparr>p_offset := p_offset q + output_length + 1\<rparr>);
                      Some (True, r\<lparr>p_offset := p_offset p\<rparr>) }))"

definition print_string :: "cJSON \<Rightarrow> printbuffer \<Rightarrow> print_result" where
  "print_string item p = print_string_ptr (valuestring item) p"

subsection \<open>Values\<close>

text \<open>
  The first three functions are the C functions, the last two the loops of the container
  printers.
\<close>

definition indent :: "nat \<Rightarrow> bytes" where
  "indent n = replicate n CHR 0x09"

fun print_value :: "cJSON \<Rightarrow> printbuffer \<Rightarrow> print_result"
  and print_elements :: "cJSON list \<Rightarrow> printbuffer \<Rightarrow> print_result"
  and print_members :: "cJSON list \<Rightarrow> printbuffer \<Rightarrow> print_result" where
  "print_value (CJson t c s i d k) p =
     (if kind t = cJSON_NULL then emit 5 (''null'' @ [NUL]) p
      else if kind t = cJSON_False then emit 6 (''false'' @ [NUL]) p
      else if kind t = cJSON_True then emit 5 (''true'' @ [NUL]) p
      else if kind t = cJSON_Number then print_number (CJson t [] s i d k) p
      else if kind t = cJSON_Raw
      then (case s of None \<Rightarrow> Some (False, p)
            | Some v \<Rightarrow> emit (length (c_str v) + 1) (c_str v @ [NUL]) p)
      else if kind t = cJSON_String then print_string (CJson t [] s i d k) p
      else if kind t = cJSON_Array
      then and_then (emit 1 ''['' p) (\<lambda>p.
           and_then (advance 1 p) (\<lambda>p.
           and_then (deeper p) (\<lambda>p.
           and_then (print_elements c p) (\<lambda>p.
           and_then (emit 2 ('']'' @ [NUL]) p) shallower))))
      else if kind t = cJSON_Object
      then and_then (emit (if p_format p then 3 else 2)
                          (''{'' @ (if p_format p then [CHR 0x0A] else [])) p) (\<lambda>p.
           and_then (deeper p) (\<lambda>p.
           and_then (advance (if p_format p then 2 else 1) p) (\<lambda>p.
           and_then (print_members c p) (\<lambda>p.
           and_then (emit (if p_format p then p_depth p + 1 else 2)
                          ((if p_format p then indent (p_depth p - 1) else []) @ ''}'' @ [NUL]) p)
             shallower))))
      else Some (False, p))"
| "print_elements [] p = Some (True, p)"
| "print_elements (x # xs) p =
     and_then (print_value x p) (\<lambda>p.
     and_then (measure_printed p) (\<lambda>p.
     and_then
       (if xs = [] then Some (True, p)
        else let n = (if p_format p then 2 else 1)
             in and_then (emit (n + 1) (CHR '','' # (if p_format p then '' '' else []) @ [NUL]) p)
                  (advance n))
       (print_elements xs)))"
| "print_members [] p = Some (True, p)"
| "print_members (x # xs) p =
     and_then
       (if p_format p
        then and_then (emit (p_depth p) (indent (p_depth p)) p) (\<lambda>p. advance (p_depth p) p)
        else Some (True, p)) (\<lambda>p.
     and_then (print_string_ptr (item_string x) p) (\<lambda>p.
     and_then (measure_printed p) (\<lambda>p.
     and_then
       (let n = (if p_format p then 2 else 1)
        in and_then (emit n (CHR '':'' # (if p_format p then [CHR 0x09] else [])) p)
             (advance n)) (\<lambda>p.
     and_then (print_value x p) (\<lambda>p.
     and_then (measure_printed p) (\<lambda>p.
     and_then
       (let n = (if p_format p then 1 else 0) + (if xs = [] then 0 else 1)
        in and_then (emit (n + 1) ((if xs = [] then [] else '','') @
                                   (if p_format p then [CHR 0x0A] else []) @ [NUL]) p)
             (advance n))
       (print_members xs)))))))"

subsection \<open>The entry points\<close>

text \<open>
  \<open>print\<close> makes a first block of 256 bytes and gives the result a block of its own of just
  the right size.  The arguments \<open>ra\<close> and \<open>junk\<close> describe the hooks and fresh memory.
\<close>

definition fail_print :: "printbuffer \<Rightarrow> bytes option \<times> heap" where
  "fail_print p = (None, if p_block p = None then p_mem p else dealloc (p_mem p))"

definition print_default_size :: nat where
  "print_default_size = 256"

definition print :: "cJSON \<Rightarrow> bool \<Rightarrow> bool \<Rightarrow> char \<Rightarrow> heap \<Rightarrow> (bytes option \<times> heap) option" where
  "print item format ra junk h =
     (let (ok, h1) = malloc h;
          p = \<lparr>p_block = (if ok then Some (replicate print_default_size junk) else None),
               p_length = print_default_size, p_offset = 0, p_depth = 0,
               p_noalloc = False, p_format = format, p_realloc = ra, p_junk = junk, p_mem = h1\<rparr>
      in if \<not> ok then Some (fail_print p)
         else do {
           (printed, q) \<leftarrow> print_value item p;
           if \<not> printed then Some (fail_print q)
           else do {
             r \<leftarrow> update_offset q;
             buf \<leftarrow> p_block r;
             let (ok2, h2) = malloc (p_mem r); size = p_offset r + 1;
                 n = (if ra then min (length buf) size else min (p_length r) size)
             in if \<not> ok2 then Some (fail_print (r\<lparr>p_mem := h2\<rparr>))
                else if \<not> ra \<and> length buf < n then None
                else let block = take n buf @ replicate (size - n) junk
                     in Some (Some (if ra then block else block[p_offset r := NUL]), dealloc h2) }})"

definition cJSON_Print :: "cJSON \<Rightarrow> bool \<Rightarrow> char \<Rightarrow> heap \<Rightarrow> (bytes option \<times> heap) option" where
  "cJSON_Print item = print item True"

definition cJSON_PrintUnformatted ::
    "cJSON \<Rightarrow> bool \<Rightarrow> char \<Rightarrow> heap \<Rightarrow> (bytes option \<times> heap) option" where
  "cJSON_PrintUnformatted item = print item False"

definition cJSON_PrintBuffered ::
    "cJSON \<Rightarrow> int \<Rightarrow> bool \<Rightarrow> bool \<Rightarrow> char \<Rightarrow> heap \<Rightarrow> (bytes option \<times> heap) option" where
  "cJSON_PrintBuffered item prebuffer fmt ra junk h =
     (if prebuffer < 0 then Some (None, h)
      else let (ok, h1) = malloc h
      in if \<not> ok then Some (None, h1)
         else do {
           (printed, q) \<leftarrow> print_value item
             \<lparr>p_block = Some (replicate (nat prebuffer) junk), p_length = nat prebuffer,
              p_offset = 0, p_depth = 0, p_noalloc = False, p_format = fmt, p_realloc = ra,
              p_junk = junk, p_mem = h1\<rparr>;
           Some (if printed then (p_block q, p_mem q) else fail_print q) })"

text \<open>The caller's buffer, and the length the caller states for it.\<close>

definition cJSON_PrintPreallocated ::
    "cJSON \<Rightarrow> bytes option \<Rightarrow> int \<Rightarrow> bool \<Rightarrow> heap \<Rightarrow> (bool \<times> bytes option) option" where
  "cJSON_PrintPreallocated item buffer len fmt h =
     (if len < 0 \<or> buffer = None then Some (False, buffer)
      else do {
        (printed, q) \<leftarrow> print_value item
          \<lparr>p_block = buffer, p_length = nat len, p_offset = 0, p_depth = 0, p_noalloc = True,
           p_format = fmt, p_realloc = True, p_junk = NUL, p_mem = h\<rparr>;
        Some (printed, p_block q) })"

end
