(* ===== verification/DlcHmi.thy ===== *)
theory DlcHmi
  imports DlcCore DlcFrame CJsonPrint CJsonQuery
begin

section \<open>The server: messages of the user interface\<close>

text \<open>
  The part of \<open>dlc_server.c\<close> that talks to the HMI: the three response generators, the update of
  the upgrade status, the parser of requests and the socket handler.
\<close>

subsection \<open>Building a response\<close>

text \<open>
  The generators are straight-line code over a few statements: store one character, copy a
  literal, or format a text into the local array \<open>buf\<close> and copy it from there.  Every copy
  writes a terminator that the next statement overwrites.
\<close>

datatype piece = Chr char | Str bytes | Fmt bytes

fun put_piece :: "nat \<Rightarrow> piece \<Rightarrow> bytes \<times> nat \<times> bool \<Rightarrow> bytes \<times> nat \<times> bool" where
  "put_piece cap (Chr c) (msg, pc, ok) = (store pc [c] msg, pc + 1, ok)"
| "put_piece cap (Str s) (msg, pc, ok) = (store pc (c_str s @ [NUL]) msg, pc + length (c_str s), ok)"
| "put_piece cap (Fmt s) (msg, pc, ok) =
     (store pc (c_str s @ [NUL]) msg, pc + length (c_str s), ok \<and> length s < cap)"

definition put_pieces :: "nat \<Rightarrow> piece list \<Rightarrow> bytes \<times> nat \<times> bool \<Rightarrow> bytes \<times> nat \<times> bool" where
  "put_pieces cap ps st = fold (put_piece cap) ps st"

definition finish :: "bytes \<times> nat \<times> bool \<Rightarrow> bytes \<times> nat \<times> bool" where
  "finish st =
     (case st of (msg, pc, ok) \<Rightarrow>
        let pc' = pc + 1; msg' = store pc' [NUL] msg
        in (store 0 (hmi_header pc') msg', pc', ok))"

definition respond :: "nat \<Rightarrow> piece list \<Rightarrow> bytes \<Rightarrow> bytes \<times> nat \<times> bool" where
  "respond cap ps msg = finish (put_pieces cap ps (msg, 4, True))"

definition new_pkg_pieces :: "bs_pkg_info \<Rightarrow> bytes \<Rightarrow> piece list" where
  \<open>new_pkg_pieces p uuid =
     [Chr CHR ''{'', Str ''"func-id":1,"category":2,"response":{'',
      Fmt (''"door_module":"'' @ c_str (pi_door_module p) @ ''",''),
      Fmt (''"dev_id":"'' @ c_str (pi_dev_id p) @ ''",''),
      Fmt (''"soft_id":"'' @ c_str (pi_soft_id p) @ ''",''),
      Fmt (''"release_notes":"'' @ c_str (pi_release_notes p) @ ''"''),
      Chr CHR ''}'', Chr CHR '','',
      Fmt (''"uuid":"'' @ c_str uuid @ ''"''), Chr CHR ''}'']\<close>

definition hmi_resp_check_new_pkg :: "world \<Rightarrow> bytes \<Rightarrow> bytes \<Rightarrow> bytes \<times> nat \<times> bool" where
  "hmi_resp_check_new_pkg w msg uuid = respond 512 (new_pkg_pieces (hmi_pkg_info w) uuid) msg"

definition start_upgrade_pieces :: "bs_pkg_info \<Rightarrow> bytes \<Rightarrow> piece list" where
  \<open>start_upgrade_pieces p uuid =
     [Chr CHR ''{'', Str ''"func-id":2,"category":2,"response":{'',
      Fmt (''"dev_id":"'' @ c_str (pi_dev_id p) @ ''",''),
      Fmt (''"soft_id":"'' @ c_str (pi_soft_id p) @ ''"''),
      Chr CHR ''}'', Chr CHR '','',
      Fmt (''"uuid":"'' @ c_str uuid @ ''"''), Chr CHR ''}'']\<close>

definition hmi_resp_start_upgrade :: "world \<Rightarrow> bytes \<Rightarrow> bytes \<Rightarrow> bytes \<times> nat \<times> bool" where
  "hmi_resp_start_upgrade w msg uuid = respond 128 (start_upgrade_pieces (hmi_pkg_info w) uuid) msg"

definition upgrade_stat_pieces :: "bs_ecu_upgrade_stat \<Rightarrow> int \<Rightarrow> bytes \<Rightarrow> piece list" where
  \<open>upgrade_stat_pieces u progress uuid =
     [Chr CHR ''{'',
      Str ''"func-id":3,"category":2,"id":"xxx","version":"1.0.0","response":['', Chr CHR ''{'',
      Fmt (''"dev_id":"'' @ c_str (us_dev_id u) @ ''",''),
      Fmt (''"soft_id":"'' @ c_str (us_soft_id u) @ ''",''),
      Fmt (''"esti_time":"'' @ c_str (us_esti_time u) @ ''",''),
      Fmt (''"start_time":"'' @ c_str (us_start_time u) @ ''",''),
      Fmt (''"time_stamp":"'' @ c_str (us_time_stamp u) @ ''",''),
      Fmt (''"door_module":"'' @ c_str (us_door_module u) @ ''",''),
      Fmt (''"status":"'' @ c_str (us_status u) @ ''",''),
      Fmt (''"progress_percent":'' @ show_int progress),
      Chr CHR ''}'', Chr CHR '']'', Chr CHR '','',
      Fmt (''"uuid":"'' @ c_str uuid @ ''"''), Chr CHR ''}'']\<close>

definition hmi_resp_upgrade_stat :: "world \<Rightarrow> bytes \<Rightarrow> bytes \<Rightarrow> (bytes \<times> nat \<times> bool) option" where
  "hmi_resp_upgrade_stat w msg uuid =
     do { n \<leftarrow> int_of_float (us_progress (hmi_upgrade_stat w));
          Some (respond 128 (upgrade_stat_pieces (hmi_upgrade_stat w) n uuid) msg) }"

definition stub_uuid :: bytes where
  "stub_uuid = ''7950f8e2-6cd4-11ea-a9a9-571f576d565b''"

subsection \<open>The status reported by the orchestrator\<close>

text \<open>
  The result is \<open>-1\<close> for an error, 1 when the progress reaches 100, 0 otherwise (the C function
  returns an \<open>unsigned int\<close> that its caller assigns to an \<open>int\<close>).  A child without a name, or a
  text field whose value is not a string, is a null pointer handed to \<open>strcmp\<close> or \<open>strcpy\<close>.
\<close>

definition update_field :: "bytes \<Rightarrow> cJSON \<Rightarrow> bs_ecu_upgrade_stat \<Rightarrow> bs_ecu_upgrade_stat option" where
  "update_field k x u =
     (if strcmp k ''esti_time'' = 0
      then do { s \<leftarrow> valuestring x; Some (u\<lparr>us_esti_time := strcpy (us_esti_time u) s\<rparr>) }
      else if strcmp k ''start_time'' = 0
      then do { s \<leftarrow> valuestring x; Some (u\<lparr>us_start_time := strcpy (us_start_time u) s\<rparr>) }
      else if strcmp k ''time_stamp'' = 0
      then do { s \<leftarrow> valuestring x; Some (u\<lparr>us_time_stamp := strcpy (us_time_stamp u) s\<rparr>) }
      else if strcmp k ''status'' = 0
      then do { s \<leftarrow> valuestring x; Some (u\<lparr>us_status := strcpy (us_status u) s\<rparr>) }
      else if strcmp k ''progress_percent'' = 0
      then Some (u\<lparr>us_progress := float_of_int (valueint x)\<rparr>)
      else Some u)"

fun update_loop :: "cJSON list \<Rightarrow> bs_ecu_upgrade_stat \<Rightarrow> (int \<times> bs_ecu_upgrade_stat) option" where
  "update_loop [] u = Some (0, u)"
| "update_loop (x # xs) u =
     do {
       k \<leftarrow> item_string x;
       if strcmp k ''error'' = 0 then Some (- 1, u)
       else do {
         u' \<leftarrow> update_field k x u;
         if 100 \<le> us_progress u' then Some (1, u') else update_loop xs u' } }"

text \<open>The last log line prints the whole item; the text it allocates is never freed.\<close>

definition hmi_resp_upgrade_stat_update :: "config \<Rightarrow> cJSON \<Rightarrow> world \<Rightarrow> (int \<times> world) option" where
  "hmi_resp_upgrade_stat_update cfg json w =
     do {
       (r, u) \<leftarrow> update_loop (child json) (hmi_upgrade_stat w);
       let w' = w\<lparr>hmi_upgrade_stat := u\<rparr>
       in if r = 0 \<and> logs_info cfg
          then do { (text, h) \<leftarrow> cJSON_Print json True (fresh_byte cfg) (wheap w');
                    Some (r, w'\<lparr>wheap := h\<rparr>) }
          else Some (r, w') }"

subsection \<open>Requests\<close>

definition CHECK_NEW_PACKAGE :: int where "CHECK_NEW_PACKAGE = 1"
definition START_UPGRADE :: int where "START_UPGRADE = 2"
definition UPGRADE_PROGRESS :: int where "UPGRADE_PROGRESS = 3"

text \<open>
  The loop over the members of the request: \<open>False\<close> in front means that it was left by the
  \<open>goto\<close>.
\<close>

fun payload_loop :: "cJSON list \<Rightarrow> int \<Rightarrow> bytes \<Rightarrow> (bool \<times> int \<times> bytes) option" where
  "payload_loop [] code uuid = Some (True, code, uuid)"
| "payload_loop (x # xs) code uuid =
     do {
       k \<leftarrow> item_string x;
       if strcmp k ''func-id'' = 0 \<and> \<not> cJSON_IsNumber (Some x) then Some (False, code, uuid)
       else do {
         let code' = (if strcmp k ''func-id'' = 0 then valueint x else code);
         uuid' \<leftarrow> (if strcmp k ''uuid'' = 0 then map_option (strcpy uuid) (valuestring x) else Some uuid);
         payload_loop xs code' uuid' } }"

definition set_response :: "bytes \<times> nat \<times> bool \<Rightarrow> world \<Rightarrow> world" where
  "set_response r w =
     (case r of (msg, pc, ok) \<Rightarrow> w\<lparr>hmi_response := msg, stack_ok := stack_ok w \<and> ok\<rparr>)"

definition send_response :: "bytes \<times> nat \<times> bool \<Rightarrow> world \<Rightarrow> world option" where
  "send_response r w = (case r of (msg, pc, ok) \<Rightarrow> mg_send (hmi w) (take pc msg) w)"

text \<open>
  The dispatch on the request code.  \<open>seen\<close> is what the waiting loop reads from the lock, whose
  result the code ignores.
\<close>

definition dispatch :: "(nat \<Rightarrow> bool) \<Rightarrow> int \<Rightarrow> world \<Rightarrow> (int \<times> world) option" where
  "dispatch seen code w =
     (if code = START_UPGRADE
      then do {
        let r = hmi_resp_start_upgrade w (hmi_response w) (hmi_uuid w); let w1 = set_response r w;
        if g_stat w1 = ORCH_PKG_READY
        then do {
          waited \<leftarrow> wait_stat_unlocked seen 1000;
          w2 \<leftarrow> send_response r (unlock (core_state_handler ORCH_PKG_READY (lock w1)));
          Some (1, w2) }
        else Some (1, w1) }
      else if code = UPGRADE_PROGRESS
      then do {
        r \<leftarrow> hmi_resp_upgrade_stat w (hmi_response w) stub_uuid;
        w1 \<leftarrow> send_response r (set_response r w);
        Some (1, w1) }
      else if code = CHECK_NEW_PACKAGE
      then do {
        let r = hmi_resp_check_new_pkg w (hmi_response w) (hmi_uuid w);
        w1 \<leftarrow> send_response r (set_response r w);
        Some (1, w1) }
      else Some (0, w))"

definition hmi_payload_parser :: "(nat \<Rightarrow> bool) \<Rightarrow> bytes \<Rightarrow> 32 word \<Rightarrow> world \<Rightarrow> (int \<times> world) option" where
  "hmi_payload_parser seen payload len w =
     do {
       v \<leftarrow> c_string_at payload;
       out \<leftarrow> cJSON_Parse v (wheap w);
       let w1 = w\<lparr>wheap := out_heap out\<rparr>;
       case parsed out of
         None \<Rightarrow> Some (0, w1)
       | Some doc \<Rightarrow> do {
           (go_on, code, uuid) \<leftarrow> payload_loop (child doc) 0 (hmi_uuid w1);
           let w2 = w1\<lparr>hmi_uuid := uuid\<rparr>;
           (result, w3) \<leftarrow> (if go_on then dispatch seen code w2 else Some (1, w2));
           Some (result, w3\<lparr>wheap := cJSON_Delete [doc] (wheap w3)\<rparr>) } }"

subsection \<open>The socket handler\<close>

datatype mg_event = MG_EV_ACCEPT | MG_EV_RECV | MG_EV_OTHER

text \<open>
  \<open>slack\<close> is the rest of the block behind the bytes received.  The received bytes stay in the
  buffer: nothing removes them.
\<close>

definition hmi_msg_handler ::
    "config \<Rightarrow> (nat \<Rightarrow> bool) \<Rightarrow> bytes \<Rightarrow> conn \<Rightarrow> mg_event \<Rightarrow> world \<Rightarrow> world option" where
  "hmi_msg_handler cfg seen slack c ev w =
     (case ev of
        MG_EV_ACCEPT \<Rightarrow> Some (w\<lparr>hmi := Some c\<rparr>)
      | MG_EV_RECV \<Rightarrow> do {
          io \<leftarrow> recv_mbuf w c;
          let buf = io @ slack;
          len \<leftarrow> message_length cfg buf;
          (result, w') \<leftarrow> hmi_payload_parser seen (drop 4 buf) len w;
          Some w' }
      | MG_EV_OTHER \<Rightarrow> Some w)"

definition hmi_thread_run :: "world \<Rightarrow> world" where
  "hmi_thread_run w = mg_start_thread Hmi_thread w"

end
