(* ===== verification/DlcDmc.thy ===== *)
theory DlcDmc
  imports DlcHmi
begin

section \<open>The server: the connection to the DMC\<close>

text \<open>
  The part of \<open>dlc_server.c\<close> that talks to the DMC: the inventory report, the manifest, the
  download.  What a child process writes and how it ends is the environment's choice.
\<close>

subsection \<open>Running a command\<close>

text \<open>
  What the environment does with a \<open>popen\<close>: whether it succeeds, and the lines that
  \<open>fgets\<close> returns, of at most \<open>n - 1\<close> characters each.
\<close>

record process =
  popen_ok :: bool
  output_lines :: "bytes list"

definition popen :: "bytes \<Rightarrow> world \<Rightarrow> world" where
  "popen cmd w = w\<lparr>commands := commands w @ [c_str cmd]\<rparr>"

definition fgets_all :: "nat \<Rightarrow> process \<Rightarrow> world \<Rightarrow> world" where
  "fgets_all n p w =
     w\<lparr>cmd_output := fold (\<lambda>l a. store 0 (take (n - 1) l @ [NUL]) a) (output_lines p) (cmd_output w)\<rparr>"

subsection \<open>The download\<close>

definition dmc_tftp_run :: "bool \<Rightarrow> world \<Rightarrow> world option" where
  \<open>dmc_tftp_run ok w =
     mg_send (dmc w)
       (if ok then ''{ "DLC pkg new": "Downloader start to run"}''
        else ''{ "DLC pkg new": "Downloader failed to run"}'') (popen (cmd_buf w) w)\<close>

definition dmc_downloader_stat :: "world \<Rightarrow> stat" where
  "dmc_downloader_stat w = g_stat w"

text \<open>The three commands for a device other than the WPC.\<close>

definition vdcm_commands :: "bytes list" where
  "vdcm_commands =
     [''curl --output /share/mcu_SH0105A2T1.hex '' @
      ''http://hhfota-q.bosch-mobility-solutions.cn/cdn/fota/v1/VDCM/package/1.0/mcu_SH0105A2T1.hex'',
      ''curl --output /share/xcu8.0_kernel_v1.1.2.bins '' @
      ''http://hhfota-q.bosch-mobility-solutions.cn/cdn/fota/v1/VDCM/package/1.0/xcu8.0_kernel_v1.1.2.bins'',
      ''curl --output /share/xcu8.0_rootfs_hh.bin.zip '' @
      ''http://hhfota-q.bosch-mobility-solutions.cn/cdn/fota/v1/VDCM/package/1.0/xcu8.0_rootfs_hh.bin.zip'']"

text \<open>
  Commands one after the other, each with the process the environment makes of it.  \<open>False\<close>
  when a \<open>popen\<close> fails, which ends the thread.
\<close>

fun run_commands :: "bytes list \<Rightarrow> process list \<Rightarrow> world \<Rightarrow> bool \<times> world" where
  "run_commands (cmd # cmds) (p # ps) w =
     (let w1 = popen cmd w
      in if popen_ok p then run_commands cmds ps (fgets_all 512 p w1) else (False, w1))"
| "run_commands _ _ w = (True, w)"

definition build_download_command :: "world \<Rightarrow> world" where
  "build_download_command w =
     w\<lparr>cmd_buf := strcat (strcat (strcpy (cmd_buf w) (downloader w)) '' '') (pkg_url_text w)\<rparr>"

text \<open>\<open>status\<close> is the result of \<open>pclose\<close> on the last process.\<close>

definition dmc_downloader_thread :: "process list \<Rightarrow> int \<Rightarrow> world \<Rightarrow> world" where
  "dmc_downloader_thread ps status w =
     (let (ok, w1) =
            (if strcmp (cur_dev_id w) ''WPC'' = 0
             then let v = build_download_command w in run_commands [cmd_buf v] ps v
             else run_commands vdcm_commands ps w)
      in if \<not> ok then w1
         else let w2 = lock w1;
                  w3 = (if status = 0 then core_state_handler DLC_PKG_READY w2 else w2)
              in unlock w3)"

subsection \<open>The manifest\<close>

text \<open>The outer option is the null pointer handed to \<open>strcmp\<close>, the inner one the result.\<close>

fun find_json_child :: "cJSON list \<Rightarrow> bytes \<Rightarrow> cJSON option option" where
  "find_json_child [] label = Some None"
| "find_json_child (x # xs) label =
     do { k \<leftarrow> item_string x;
          if strcmp k label = 0 then Some (Some x) else find_json_child xs label }"

text \<open>The fields of the first package that the server uses: the device and the address.\<close>

definition first_package :: "cJSON \<Rightarrow> (bytes \<times> bytes) option option" where
  "first_package doc =
     do {
       manifest \<leftarrow> find_json_child (child doc) ''manifest'';
       case manifest of None \<Rightarrow> Some None
       | Some m \<Rightarrow> do {
           packages \<leftarrow> find_json_child (child m) ''packages'';
           case packages of None \<Rightarrow> Some None
           | Some ps \<Rightarrow>
              (case cJSON_GetArrayItem (Some ps) 0 of None \<Rightarrow> Some None
               | Some p \<Rightarrow>
                   let ecu = cJSON_GetObjectItem (Some p) ''ecu'';
                       res = cJSON_GetObjectItem (Some p) ''resources'';
                       url = cJSON_GetObjectItem res ''fullDownloadUrl''
                   in if ecu = None \<or> \<not> cJSON_IsString ecu then Some None
                      else if res = None then Some None
                      else if url = None \<or> \<not> cJSON_IsString url then Some None
                      else do { e \<leftarrow> ecu \<bind> valuestring; u \<leftarrow> url \<bind> valuestring;
                                Some (Some (e, u)) }) } }"

definition dmc_msg_parse :: "bytes \<Rightarrow> world \<Rightarrow> (stat \<times> world) option" where
  "dmc_msg_parse json w =
     do {
       out \<leftarrow> cJSON_Parse json (wheap w);
       let w1 = w\<lparr>wheap := out_heap out\<rparr>;
       case parsed out of
         None \<Rightarrow> Some (STAT_INVALID, w1)
       | Some doc \<Rightarrow> do {
           found \<leftarrow> first_package doc;
           case found of
             None \<Rightarrow> Some (STAT_INVALID, w1)
           | Some p \<Rightarrow>
               let w2 =
                 (if strcmp (fst p) ''WPC'' = 0
                  then w1\<lparr>cur_pkg_cdn_url := strcpy (cur_pkg_cdn_url w1) (snd p),
                          ctx_pkg_url := Url_of_manifest,
                          cur_dev_id := strcpy (cur_dev_id w1) ''WPC''\<rparr>
                  else w1\<lparr>ctx_pkg_url := Url_literal [],
                          cur_dev_id := strcpy (cur_dev_id w1) ''VDCM''\<rparr>)
               in Some (DLC_PKG_NEW, w2\<lparr>wheap := cJSON_Delete [doc] (wheap w2)\<rparr>) } }"

subsection \<open>The constants\<close>

definition g_stub_inventory :: bytes where
  \<open>g_stub_inventory =
     ''{"messageType":"xxxxxxx","correlationId":"xxxxxxx","payload":{"fotaProtocolVersion":'' @
     ''"HHFOTA-0.1","vehicleVersion":{"orchestrator":"0.1.0.0","dlc":"0.1.0.0"},"inventory"'' @
     '':[{"ecu":"WPC","softwareList":[{"softwareId":"WPC","version":"WPC_App_V1.0","lastUpd'' @
     ''ated":"19000101 000000","servicePack":"unknown","campaign":"unknown"}]},{"ecu":"Test'' @
     ''_VDCM1","softwareList":[{"softwareId":"Test_VDCM1","version":"VDCM1_App_V1.0","lastU'' @
     ''pdated":"19000101 000000","servicePack":"vdcm_pack","campaign":"vdcm_camp"}]},{"ecu"'' @
     '':"Test_VDCM2","softwareList":[{"softwareId":"Test_VDCM2","version":"VDCM2_App_V1.0",'' @
     ''"lastUpdated":"19000101 000000","servicePack":"vdcm_pack","campaign":"vdcm_camp"}]},'' @
     ''{"ecu":"Test_VDCM3","softwareList":[{"softwareId":"Test_VDCM3","version":"VDCM3_App_'' @
     ''V1.0","lastUpdated":"19000101 000000","servicePack":"vdcm_pack","campaign":"vdcm_cam'' @
     ''p"}]},{"ecu":"Test_VDCM4","softwareList":[{"softwareId":"Test_VDCM4","version":"VDCM'' @
     ''4_App_V1.0","lastUpdated":"19000101 000000","servicePack":"vdcm_pack","campaign":"vd'' @
     ''cm_camp"}]}]}}''\<close>

definition mani :: bytes where
  \<open>mani =
     ''{"fotaProtocolVersion":"HHFOTA-0.1","fotaCertUrl":"root ota cert download url","mani'' @
     ''fest":{"servicePack":{"englishName":"service pack name","chineseName":"service pack '' @
     ''name"},"featurePack":{"activationCode":"","featurePackId":""},"campaign":"campaign i'' @
     ''d","expiration":"YYYYMMDD HHMMSS","releaseNotes":[{"locale":"en","text":"English tex'' @
     ''t"},{"locale":"zh","text":""}],"keyword":"","orchestration":{"vehicleCondition":{},"'' @
     ''preprocessing":{},"postprocessing":{}},"packages":[{"ecu":"WPC","deviceType":"can","'' @
     ''softwareId":"wpc","softwareName":"wpc","softwareChineseName":"","softwareVersion":"1'' @
     ''.0.0","isHighVoltage":true,"isDoorControl":true,"previousVersions":["version 1.0"],"'' @
     ''dependencies":[],"flashSequence":1,"estimateUpgradeTime":50,"resources":{"fullLicens'' @
     ''e":"license code","fullCertificateUrl":"certificate url","fullDownloadChecksum":"MD5'' @
     '' checksum","fullDownloadUrl":"http://hhfota-q.bosch-mobility-solutions.cn/wpc/packag'' @
     ''e/1.0/wpc.zip","deltaLicense":"license code","deltaCertificateUrl":"certificate url"'' @
     '',"deltaChecksum":"MD5 checksum","deltaDownloadUrl":"delta url"},"extendedAttributes"'' @
     '':[{"extendedAttributeName":"attribute name 1","extendedAttributesValue":"value"},{"e'' @
     ''xtendedAttributeName":"attribute name 2","extendedAttributesValue":"value"}]}]}}''\<close>

definition mani_vdcm :: bytes where
  \<open>mani_vdcm =
     ''{"fotaProtocolVersion":"HHFOTA-0.1","fotaCertUrl":"root ota cert download url","mani'' @
     ''fest":{"servicePack":{"englishName":"service pack name","chineseName":"service pack '' @
     ''name"},"featurePack":{"activationCode":"","featurePackId":""},"campaign":"campaign i'' @
     ''d","expiration":"YYYYMMDD HHMMSS","releaseNotes":[{"locale":"en","text":"English tex'' @
     ''t"},{"locale":"zh","text":""}],"keyword":"","orchestration":{"vehicleCondition":{},"'' @
     ''preprocessing":{},"postprocessing":{}},"packages":[{"ecu":"VDCM","deviceType":"eth",'' @
     ''"softwareId":"id of software to upgrade","softwareName":"english name of software to'' @
     '' upgrade","softwareChineseName":"chinese name of software to upgrade","softwareVersi'' @
     ''on":"version id","isHighVoltage":true,"isDoorControl":true,"previousVersion":"previo'' @
     ''us version id","estimateUpgradeTime":50,"resources":{"fullSize":12345,"fullDownloadC'' @
     ''hecksum":"MD5 checksum","fullDownloadUrl":"download url","deltaSize":100,"deltaCheck'' @
     ''sum":"MD5 checksum","deltaDownloadUrl":"delta url"}}]}}''\<close>

subsection \<open>The socket handler\<close>

definition dmc_resp_inventory :: "conn \<Rightarrow> world \<Rightarrow> world option" where
  "dmc_resp_inventory c w =
     (let len = length (c_str g_stub_inventory);
          r1 = store 4 (c_str g_stub_inventory @ [NUL]) (inventory_resp w);
          r2 = store 0 (frame_header len) r1
      in mg_send (Some c) (take (len + 4) r2) (w\<lparr>inventory_resp := r2\<rparr>))"

definition dmc_msg_handler :: "config \<Rightarrow> bytes \<Rightarrow> conn \<Rightarrow> mg_event \<Rightarrow> world \<Rightarrow> world option" where
  "dmc_msg_handler cfg slack c ev w =
     (case ev of
        MG_EV_ACCEPT \<Rightarrow> do {
          w1 \<leftarrow> dmc_resp_inventory c (hmi_thread_run (w\<lparr>dmc := Some c\<rparr>));
          Some (mg_start_thread Cgw_msg_monitor_thread w1) }
      | MG_EV_RECV \<Rightarrow> do {
          io \<leftarrow> recv_mbuf w c;
          let buf = io @ slack;
          len \<leftarrow> message_length cfg buf;
          s \<leftarrow> c_string_at (drop 4 buf);
          w1 \<leftarrow>
            (if strstr s ''fotaProtocolVersion'' \<noteq> None \<and> strstr s ''WPC'' \<noteq> None
             then do { (st, v) \<leftarrow> dmc_msg_parse mani w; Some (core_state_handler st v) }
             else if strstr s ''fotaProtocolVersion'' \<noteq> None \<and> strstr s ''VDCM'' \<noteq> None
             then do { (st, v) \<leftarrow> dmc_msg_parse mani_vdcm w; Some (core_state_handler st v) }
             else Some w);
          Some (w1\<lparr>recv_mbuf := (recv_mbuf w1)(c := Some [])\<rparr>) }
      | MG_EV_OTHER \<Rightarrow> Some w)"

end
