(* ===== verification/DlcCgw.thy ===== *)
theory DlcCgw
  imports DlcDmc
begin

section \<open>The server: requests to the orchestrator on the CGW\<close>

text \<open>
  The part of \<open>dlc_server.c\<close> that talks to the orchestrator: the status monitor, the upload, the
  handlers of the four requests, their payloads and the thread that runs a request.
\<close>

subsection \<open>Event data\<close>

text \<open>
  What \<open>ev_data\<close> points to.  The body of a message is a pointer into the receive buffer: the
  block runs from there to the end of the allocated memory, and \<open>body_len\<close> is the length the
  HTTP parser found.
\<close>

datatype http_data =
  No_data
| Connect_status int
| Http_message (body_block: "bytes option") (body_len: nat)
| Other_data

datatype http_event = MG_EV_CONNECT | MG_EV_HTTP_REPLY | MG_EV_CLOSE | MG_EV_HTTP_OTHER

text \<open>\<open>hm->body.p\<close>: defined only if the data is a message.\<close>

fun body_p :: "http_data \<Rightarrow> bytes option option" where
  "body_p (Http_message b n) = Some b"
| "body_p _ = None"

definition body_string :: "http_data \<Rightarrow> bytes option" where
  "body_string d = do { p \<leftarrow> body_p d; block \<leftarrow> p; c_string_at block }"

fun connect_status :: "http_data \<Rightarrow> int option" where
  "connect_status (Connect_status n) = Some n"
| "connect_status _ = None"

definition close_immediately :: "conn \<Rightarrow> world \<Rightarrow> world" where
  "close_immediately c w = w\<lparr>closing := closing w @ [c]\<rparr>"

subsection \<open>The status monitor\<close>

definition cgw_monitor_handle_status :: "http_data \<Rightarrow> world \<Rightarrow> world option" where
  "cgw_monitor_handle_status d w =
     (if d = No_data then Some w
      else do {
        p \<leftarrow> body_p d;
        case p of
          None \<Rightarrow> Some w
        | Some block \<Rightarrow> do {
            s \<leftarrow> c_string_at block;
            let r = store 0 (frame_header (length s)) (store 4 (s @ [NUL]) (monitor_resp w));
            let w1 = w\<lparr>monitor_resp := r\<rparr>;
            if dmc w1 = None then Some w1
            else mg_send (dmc w1) (take (length s + 4) r) w1 } })"

subsection \<open>The upload\<close>

definition curl_upload :: bytes where
  "curl_upload = ''curl -F '' @ [CHR 0x27] @ ''data=@/share/wpc.1.0.0'' @ [CHR 0x27] @ '' ''"

text \<open>\<open>fgets\<close> on the null stream of a failed \<open>popen\<close> is undefined.\<close>

definition cgw_pkg_upload_thread :: "process \<Rightarrow> world \<Rightarrow> world option" where
  "cgw_pkg_upload_thread p w =
     (let w1 = w\<lparr>upload_cmd := strcat (strcpy (store 0 (zeros 128) (upload_cmd w)) curl_upload)
                                 (upload_api w)\<rparr>;
          w2 = popen (upload_cmd w1) w1
      in if \<not> downloader_thread_exit w2 \<and> \<not> popen_ok p then None
         else let w3 = (if downloader_thread_exit w2 then w2 else fgets_all 1024 p w2)
              in Some (unlock (set_stat ORCH_PKG_READY (lock w3))))"

subsection \<open>The handlers of the four requests\<close>

definition on_close :: "api \<Rightarrow> world \<Rightarrow> world" where
  "on_close a w =
     (let w1 = set_nc a None w
      in if cgw_thread_exit (handler a w1) = False then set_exit a True w1 else w1)"

definition cgw_handler_pkg_new :: "conn \<Rightarrow> http_event \<Rightarrow> http_data \<Rightarrow> world \<Rightarrow> world option" where
  "cgw_handler_pkg_new c ev d w =
     (case ev of
        MG_EV_CONNECT \<Rightarrow> Some (set_stat ORCH_PKG_DOWNLOADING (set_nc PkgNew (Some c) w))
      | MG_EV_HTTP_REPLY \<Rightarrow>
          let w1 = (if strcmp (cur_dev_id w) ''WPC'' \<noteq> 0 then set_stat ORCH_TDR_RUN w
                    else mg_start_thread Cgw_pkg_upload_thread (set_stat ORCH_PKG_DOWNLOADING w))
          in Some (set_exit PkgNew True (close_immediately c w1))
      | MG_EV_CLOSE \<Rightarrow> Some (on_close PkgNew w)
      | MG_EV_HTTP_OTHER \<Rightarrow> Some w)"

definition cgw_handler_pkg_stat :: "conn \<Rightarrow> http_event \<Rightarrow> http_data \<Rightarrow> world \<Rightarrow> world option" where
  "cgw_handler_pkg_stat c ev d w =
     (case ev of
        MG_EV_CONNECT \<Rightarrow> do {
          err \<leftarrow> connect_status d;
          Some (if err \<noteq> 0 then set_exit PkgStat True (set_stat ORCH_PKG_BAD w)
                else set_stat ORCH_PKG_DOWNLOADING (set_nc PkgStat (Some c) w)) }
      | MG_EV_HTTP_REPLY \<Rightarrow> do {
          s \<leftarrow> body_string d;
          Some (if strstr s ''succ'' \<noteq> None
                then set_exit PkgStat True (close_immediately c w)
                else set_stat ORCH_PKG_DOWNLOADING w) }
      | MG_EV_CLOSE \<Rightarrow> Some (on_close PkgStat w)
      | MG_EV_HTTP_OTHER \<Rightarrow> Some w)"

text \<open>The loop that looks for an error only reads; a child without a name stops it for good.\<close>

fun info_loop :: "cJSON list \<Rightarrow> bytes option \<Rightarrow> bytes option option" where
  "info_loop [] info = Some info"
| "info_loop (x # xs) info =
     do { k \<leftarrow> item_string x;
          info_loop xs (if strcmp k ''error'' = 0 then valuestring x else info) }"

text \<open>The reply is parsed, and its root is neither checked for NULL nor deleted.\<close>

definition cgw_handler_tdr_run :: "conn \<Rightarrow> http_event \<Rightarrow> http_data \<Rightarrow> world \<Rightarrow> world option" where
  "cgw_handler_tdr_run c ev d w =
     (case ev of
        MG_EV_CONNECT \<Rightarrow> Some (core_state_handler ORCH_TDR_RUN (set_nc TdrRun (Some c) w))
      | MG_EV_HTTP_REPLY \<Rightarrow> do {
          s \<leftarrow> body_string d;
          out \<leftarrow> cJSON_Parse s (wheap w);
          res \<leftarrow> parsed out;
          info \<leftarrow> info_loop (child res) None;
          Some (w\<lparr>wheap := out_heap out\<rparr>) }
      | MG_EV_CLOSE \<Rightarrow> Some (on_close TdrRun w)
      | MG_EV_HTTP_OTHER \<Rightarrow> Some w)"

text \<open>A report of 0 is answered to the HMI and asked for again.\<close>

definition report_progress :: "world \<Rightarrow> world option" where
  "report_progress w =
     do {
       (msg, pc, ok) \<leftarrow> hmi_resp_upgrade_stat w (tdr_response w) stub_uuid;
       w1 \<leftarrow> mg_send (hmi w) (take pc msg) (w\<lparr>tdr_response := msg, stack_ok := stack_ok w \<and> ok\<rparr>);
       Some (core_state_handler ORCH_TDR_RUN w1) }"

definition act_on_result :: "config \<Rightarrow> cJSON \<Rightarrow> world \<Rightarrow> world option" where
  "act_on_result cfg result w =
     do {
       (st, w1) \<leftarrow> hmi_resp_upgrade_stat_update cfg result w;
       if st < 0 then Some (core_state_handler ORCH_TDR_FAIL w1)
       else if st = 0 then report_progress w1
       else Some (core_state_handler ORCH_TDR_SUCC w1) }"

text \<open>
  The first log line reads the body of the message for every event, so it must be one unless
  logging is compiled out.
\<close>

definition cgw_handler_tdr_stat ::
    "config \<Rightarrow> conn \<Rightarrow> http_event \<Rightarrow> http_data \<Rightarrow> world \<Rightarrow> world option" where
  "cgw_handler_tdr_stat cfg c ev d w =
     do {
       logged \<leftarrow> (if logs_info cfg then body_p d else Some None);
       case ev of
         MG_EV_CONNECT \<Rightarrow> do {
           let w1 = set_nc TdrStat (Some c) w;
           err \<leftarrow> connect_status d;
           Some (if err \<noteq> 0 then set_exit TdrStat True (set_stat ORCH_CON_ERR w1)
                 else set_stat ORCH_TDR_RUN (set_nc TdrStat (Some c) w1)) }
       | MG_EV_HTTP_REPLY \<Rightarrow> do {
           s \<leftarrow> body_string d;
           out \<leftarrow> cJSON_Parse s (wheap w);
           let w1 = w\<lparr>wheap := out_heap out\<rparr>;
           case parsed out of
             None \<Rightarrow> Some w1
           | Some res \<Rightarrow>
               (case cJSON_GetObjectItem (Some res) ''result'' of
                  None \<Rightarrow> Some w1
                | Some result \<Rightarrow> do {
                    w2 \<leftarrow> act_on_result cfg result (set_exit TdrStat True (close_immediately c w1));
                    Some (w2\<lparr>wheap := cJSON_Delete [res] (wheap w2)\<rparr>) }) }
       | MG_EV_CLOSE \<Rightarrow> Some (on_close TdrStat w)
       | MG_EV_HTTP_OTHER \<Rightarrow> Some w }"

subsection \<open>Payloads and the request thread\<close>

definition cgw_api_payload_pkg_new :: "world \<Rightarrow> bytes \<times> world" where
  \<open>cgw_api_payload_pkg_new w =
     (let text = ''{"dev_id":"'' @ c_str (cur_dev_id w) @ ''","payload":{"url":"''
                 @ c_str (cur_pkg_cdn_url w) @ ''"}}'';
          a = strcpy (payload_buf w) text
      in (c_str a, w\<lparr>payload_buf := a\<rparr>))\<close>

definition cgw_api_payload_default :: bytes where
  \<open>cgw_api_payload_default = ''{"dev_id":"VDCM"}}''\<close>

fun generate_payload :: "payload_gener \<Rightarrow> world \<Rightarrow> bytes \<times> world" where
  "generate_payload Cgw_api_payload_pkg_new w = cgw_api_payload_pkg_new w"
| "generate_payload Cgw_api_payload_default w = (cgw_api_payload_default, w)"

text \<open>The thread up to its loop, and what it does once its loop has ended.\<close>

definition cgw_msg_thread_start :: "api \<Rightarrow> world \<Rightarrow> world" where
  "cgw_msg_thread_start a w =
     (let (post_data, w1) = generate_payload (payload_gener (handler a w)) w
      in w1\<lparr>posted := posted w1 @ [(api_url (handler a w1), post_data)]\<rparr>)"

definition cgw_msg_thread_end :: "api \<Rightarrow> world \<Rightarrow> world" where
  "cgw_msg_thread_end a w = set_exit a False w"

text \<open>The handler a request was opened with, run inside the poll of its thread.\<close>

fun cgw_handler :: "config \<Rightarrow> api \<Rightarrow> conn \<Rightarrow> http_event \<Rightarrow> http_data \<Rightarrow> world \<Rightarrow> world option" where
  "cgw_handler cfg PkgNew = cgw_handler_pkg_new"
| "cgw_handler cfg PkgStat = cgw_handler_pkg_stat"
| "cgw_handler cfg TdrRun = cgw_handler_tdr_run"
| "cgw_handler cfg TdrStat = cgw_handler_tdr_stat cfg"

end
