(* ===== verification/DlcServer.thy ===== *)
theory DlcServer
  imports DlcCgw
begin

section \<open>The server: events\<close>

text \<open>
  The server as a transition system.  Each event is one thing the environment can do: a socket
  event, the run of a child process, the progress of a request thread.  An event that cannot
  happen in a world leaves it alone; \<open>None\<close> is left for undefined behaviour of the code.  The
  loops of \<open>main\<close>, \<open>hmi_thread\<close> and \<open>cgw_msg_thread\<close> are the places from which the handlers are
  called; the events of one loop never overlap here (the lock protocol between the loops is in
  the theory on the lock).
\<close>

subsection \<open>Events\<close>

datatype event =
  Dmc_accept conn
| Dmc_data conn bytes bytes
| Dmc_close conn
| Hmi_accept conn
| Hmi_data conn bytes bytes "nat \<Rightarrow> bool"
| Hmi_close conn
| Monitor_request http_data
| Downloader_runs "process list" int
| Uploader_runs process
| Cgw_starts api conn
| Cgw_event api conn http_event http_data
| Cgw_ends api conn "(http_event \<times> http_data) list"

definition is_open :: "conn \<Rightarrow> world \<Rightarrow> bool" where
  "is_open c w \<longleftrightarrow> recv_mbuf w c \<noteq> None"

definition open_conn :: "conn \<Rightarrow> world \<Rightarrow> world" where
  "open_conn c w = w\<lparr>recv_mbuf := (recv_mbuf w)(c := Some [])\<rparr>"

definition close_conn :: "conn \<Rightarrow> world \<Rightarrow> world" where
  "close_conn c w = w\<lparr>recv_mbuf := (recv_mbuf w)(c := None)\<rparr>"

text \<open>What arrives is appended to the receive buffer before the handler is called.\<close>

definition receive :: "conn \<Rightarrow> bytes \<Rightarrow> world \<Rightarrow> world" where
  "receive c data w = w\<lparr>recv_mbuf := (recv_mbuf w)(c := map_option (\<lambda>b. b @ data) (recv_mbuf w c))\<rparr>"

definition end_thread :: "thread \<Rightarrow> world \<Rightarrow> world" where
  "end_thread t w = w\<lparr>threads := remove1 t (threads w)\<rparr>"

fun data_matches :: "http_event \<Rightarrow> http_data \<Rightarrow> bool" where
  "data_matches MG_EV_CONNECT d \<longleftrightarrow> connect_status d \<noteq> None"
| "data_matches MG_EV_HTTP_REPLY d \<longleftrightarrow> (case body_p d of Some (Some b) \<Rightarrow> True | _ \<Rightarrow> False)"
| "data_matches MG_EV_CLOSE d \<longleftrightarrow> d = No_data"
| "data_matches MG_EV_HTTP_OTHER d \<longleftrightarrow> d \<noteq> No_data"

fun on_dmc :: "conn \<Rightarrow> bool" where
  "on_dmc (Dmc_conn n) = True" | "on_dmc _ = False"

fun on_hmi :: "conn \<Rightarrow> bool" where
  "on_hmi (Hmi_conn n) = True" | "on_hmi _ = False"

fun on_cgw :: "conn \<Rightarrow> bool" where
  "on_cgw (Cgw_conn n) = True" | "on_cgw _ = False"

fun enabled :: "event \<Rightarrow> world \<Rightarrow> bool" where
  "enabled (Dmc_accept c) w \<longleftrightarrow> on_dmc c \<and> \<not> is_open c w"
| "enabled (Dmc_data c data slack) w \<longleftrightarrow> on_dmc c \<and> is_open c w"
| "enabled (Dmc_close c) w \<longleftrightarrow> on_dmc c \<and> is_open c w"
| "enabled (Hmi_accept c) w \<longleftrightarrow> on_hmi c \<and> \<not> is_open c w \<and> Hmi_thread \<in> set (threads w)"
| "enabled (Hmi_data c data slack seen) w \<longleftrightarrow>
     on_hmi c \<and> is_open c w \<and> Hmi_thread \<in> set (threads w)"
| "enabled (Hmi_close c) w \<longleftrightarrow> on_hmi c \<and> is_open c w \<and> Hmi_thread \<in> set (threads w)"
| "enabled (Monitor_request d) w \<longleftrightarrow> Cgw_msg_monitor_thread \<in> set (threads w) \<and>
     (d = No_data \<or> data_matches MG_EV_HTTP_REPLY d)"
| "enabled (Downloader_runs ps status) w \<longleftrightarrow> Dmc_downloader_thread \<in> set (threads w) \<and> length ps = 3"
| "enabled (Uploader_runs p) w \<longleftrightarrow> Cgw_pkg_upload_thread \<in> set (threads w)"
| "enabled (Cgw_starts a c) w \<longleftrightarrow>
     on_cgw c \<and> \<not> is_open c w \<and> Cgw_msg_thread a \<in> set (threads w)"
| "enabled (Cgw_event a c ev d) w \<longleftrightarrow> Cgw_msg_polling a c \<in> set (threads w) \<and> is_open c w \<and>
     \<not> cgw_thread_exit (handler a w) \<and> data_matches ev d"
| "enabled (Cgw_ends a c evs) w \<longleftrightarrow> Cgw_msg_polling a c \<in> set (threads w) \<and>
     cgw_thread_exit (handler a w) \<and> (c \<in> set (closing w) \<or> \<not> is_open c w \<longrightarrow> evs = []) \<and>
     (\<forall>(ev, d) \<in> set evs. ev \<noteq> MG_EV_CLOSE \<and> data_matches ev d)"

subsection \<open>Steps\<close>

text \<open>
  A failed connection is marked for closing before its handler is told; a connection that is
  closed is gone before the handler is told.
\<close>

definition deliver :: "config \<Rightarrow> api \<Rightarrow> conn \<Rightarrow> http_event \<Rightarrow> http_data \<Rightarrow> world \<Rightarrow> world option" where
  "deliver cfg a c ev d w =
     cgw_handler cfg a c ev d
       (if ev = MG_EV_CLOSE then close_conn c w
        else if ev = MG_EV_CONNECT \<and> connect_status d \<noteq> Some 0 then close_immediately c w else w)"

fun deliver_all ::
    "config \<Rightarrow> api \<Rightarrow> conn \<Rightarrow> (http_event \<times> http_data) list \<Rightarrow> world \<Rightarrow> world option" where
  "deliver_all cfg a c [] w = Some w"
| "deliver_all cfg a c ((ev, d) # evs) w =
     do { w1 \<leftarrow> deliver cfg a c ev d w; deliver_all cfg a c evs w1 }"

text \<open>
  The end of a request thread: the flag is reset, and only then does \<open>mg_mgr_free\<close> poll for the
  last time and close what is open.
\<close>

definition cgw_msg_thread_finish ::
    "config \<Rightarrow> api \<Rightarrow> conn \<Rightarrow> (http_event \<times> http_data) list \<Rightarrow> world \<Rightarrow> world option" where
  "cgw_msg_thread_finish cfg a c evs w =
     do {
       w1 \<leftarrow> deliver_all cfg a c evs (cgw_msg_thread_end a w);
       w2 \<leftarrow> (if is_open c w1 then deliver cfg a c MG_EV_CLOSE No_data w1 else Some w1);
       Some (end_thread (Cgw_msg_polling a c) w2) }"

fun effect :: "config \<Rightarrow> event \<Rightarrow> world \<Rightarrow> world option" where
  "effect cfg (Dmc_accept c) w =
     map_option unlock (dmc_msg_handler cfg [] c MG_EV_ACCEPT (lock (open_conn c w)))"
| "effect cfg (Dmc_data c data slack) w =
     map_option unlock (dmc_msg_handler cfg slack c MG_EV_RECV (lock (receive c data w)))"
| "effect cfg (Dmc_close c) w =
     map_option unlock (dmc_msg_handler cfg [] c MG_EV_OTHER (lock (close_conn c w)))"
| "effect cfg (Hmi_accept c) w = hmi_msg_handler cfg (\<lambda>_. False) [] c MG_EV_ACCEPT (open_conn c w)"
| "effect cfg (Hmi_data c data slack seen) w =
     hmi_msg_handler cfg seen slack c MG_EV_RECV (receive c data w)"
| "effect cfg (Hmi_close c) w = hmi_msg_handler cfg (\<lambda>_. False) [] c MG_EV_OTHER (close_conn c w)"
| "effect cfg (Monitor_request d) w = cgw_monitor_handle_status d w"
| "effect cfg (Downloader_runs ps status) w =
     Some (end_thread Dmc_downloader_thread (dmc_downloader_thread ps status w))"
| "effect cfg (Uploader_runs p) w =
     map_option (end_thread Cgw_pkg_upload_thread) (cgw_pkg_upload_thread p w)"
| "effect cfg (Cgw_starts a c) w =
     Some (mg_start_thread (Cgw_msg_polling a c)
             (end_thread (Cgw_msg_thread a) (open_conn c (cgw_msg_thread_start a w))))"
| "effect cfg (Cgw_event a c ev d) w = map_option unlock (deliver cfg a c ev d (lock w))"
| "effect cfg (Cgw_ends a c evs) w = cgw_msg_thread_finish cfg a c evs w"

definition step :: "config \<Rightarrow> event \<Rightarrow> world \<Rightarrow> world option" where
  "step cfg e w = (if enabled e w then effect cfg e w else Some w)"

text \<open>The worlds the server starts in.\<close>

definition started :: "world \<Rightarrow> bool" where
  "started w \<longleftrightarrow> (\<exists>h. w = boot h)"

end
