(* ===== verification/DlcProps.thy ===== *)
theory DlcProps
  imports DlcServer
begin

section \<open>The server: invariants of every run\<close>

text \<open>
  What no event changes, which values the state variable can have, and what the program can do
  to its surroundings.  Each handler is shown to keep a part of the world; the transition system
  of the prelude, interpreted on \<open>step\<close>, carries this to all runs.
\<close>

named_theorems frame_simps \<open>what the operations leave alone\<close>

subsection \<open>The fixed part of the world\<close>

definition fixed_part :: "world \<Rightarrow> bool \<times> bool \<times> (api \<Rightarrow> bytes \<times> payload_gener) \<times> bytes \<times> bytes" where
  "fixed_part w =
     (downloader_thread_exit w, hmi_thread_exit w,
      (\<lambda>a. (api_url (handler a w), payload_gener (handler a w))), upload_api w, downloader w)"

lemma handler_set_handler [simp]:
  "handler a (set_handler b x w) = (if a = b then x else handler a w)"
  by (cases a; cases b) simp_all

lemma set_handler_other [simp]:
  "downloader_thread_exit (set_handler a x w) = downloader_thread_exit w"
  "hmi_thread_exit (set_handler a x w) = hmi_thread_exit w"
  "upload_api (set_handler a x w) = upload_api w" "downloader (set_handler a x w) = downloader w"
  "g_stat (set_handler a x w) = g_stat w" "g_stat_lock (set_handler a x w) = g_stat_lock w"
  "threads (set_handler a x w) = threads w" "recv_mbuf (set_handler a x w) = recv_mbuf w"
  "wheap (set_handler a x w) = wheap w" "arrays (set_handler a x w) = arrays w"
  "stack_ok (set_handler a x w) = stack_ok w" "closing (set_handler a x w) = closing w"
  "commands (set_handler a x w) = commands w" "posted (set_handler a x w) = posted w"
  by (cases a; simp add: arrays_def)+

lemma fixed_set_handler:
  "api_url x = api_url (handler a w) \<Longrightarrow> payload_gener x = payload_gener (handler a w) \<Longrightarrow>
     fixed_part (set_handler a x w) = fixed_part w"
  by (simp add: fixed_part_def fun_eq_iff)

lemma handler_update:
  assumes "cgw_api_pkg_new v = cgw_api_pkg_new w" "cgw_api_pkg_stat v = cgw_api_pkg_stat w"
    "cgw_api_tdr_run v = cgw_api_tdr_run w" "cgw_api_tdr_stat v = cgw_api_tdr_stat w"
  shows "handler a v = handler a w"
  using assms by (cases a) simp_all

lemma fixed_cong:
  assumes "cgw_api_pkg_new v = cgw_api_pkg_new w" "cgw_api_pkg_stat v = cgw_api_pkg_stat w"
    "cgw_api_tdr_run v = cgw_api_tdr_run w" "cgw_api_tdr_stat v = cgw_api_tdr_stat w"
    "downloader_thread_exit v = downloader_thread_exit w" "hmi_thread_exit v = hmi_thread_exit w"
    "upload_api v = upload_api w" "downloader v = downloader w"
  shows "fixed_part v = fixed_part w"
  using assms handler_update [OF assms(1-4)] by (simp add: fixed_part_def)

lemma fixed_nc [frame_simps]: "fixed_part (set_nc a c w) = fixed_part w"
  by (simp add: set_nc_def fixed_set_handler)

lemma fixed_exit [frame_simps]: "fixed_part (set_exit a b w) = fixed_part w"
  by (simp add: set_exit_def fixed_set_handler)

lemma fixed_basic [frame_simps]:
  "fixed_part (set_stat s w) = fixed_part w" "fixed_part (lock w) = fixed_part w"
  "fixed_part (unlock w) = fixed_part w" "fixed_part (mg_start_thread t w) = fixed_part w"
  "fixed_part (end_thread t w) = fixed_part w" "fixed_part (open_conn c w) = fixed_part w"
  "fixed_part (close_conn c w) = fixed_part w" "fixed_part (receive c d w) = fixed_part w"
  "fixed_part (close_immediately c w) = fixed_part w" "fixed_part (popen cmd w) = fixed_part w"
  "fixed_part (fgets_all n p w) = fixed_part w" "fixed_part (core_state_handler r w) = fixed_part w"
  "fixed_part (set_response resp w) = fixed_part w" "fixed_part (build_download_command w) = fixed_part w"
  "fixed_part (hmi_thread_run w) = fixed_part w"
  by (rule fixed_cong;
      simp add: set_stat_def lock_def unlock_def mg_start_thread_def end_thread_def open_conn_def
        close_conn_def receive_def close_immediately_def popen_def fgets_all_def core_state_handler_eq
        set_response_def build_download_command_def hmi_thread_run_def split: prod.split)+

lemma fixed_fields [frame_simps]:
  "fixed_part (w\<lparr>wheap := h\<rparr>) = fixed_part w" "fixed_part (w\<lparr>hmi_uuid := u\<rparr>) = fixed_part w"
  "fixed_part (w\<lparr>hmi_upgrade_stat := x\<rparr>) = fixed_part w" "fixed_part (w\<lparr>dmc := c\<rparr>) = fixed_part w"
  "fixed_part (w\<lparr>hmi := c\<rparr>) = fixed_part w" "fixed_part (w\<lparr>inventory_resp := a\<rparr>) = fixed_part w"
  "fixed_part (w\<lparr>monitor_resp := a\<rparr>) = fixed_part w" "fixed_part (w\<lparr>upload_cmd := a\<rparr>) = fixed_part w"
  "fixed_part (w\<lparr>payload_buf := a\<rparr>) = fixed_part w" "fixed_part (w\<lparr>posted := p\<rparr>) = fixed_part w"
  "fixed_part (w\<lparr>recv_mbuf := m\<rparr>) = fixed_part w"
  "fixed_part (w\<lparr>tdr_response := a\<rparr>) = fixed_part w" "fixed_part (w\<lparr>stack_ok := b\<rparr>) = fixed_part w"
  "fixed_part (w\<lparr>cur_pkg_cdn_url := a\<rparr>) = fixed_part w" "fixed_part (w\<lparr>ctx_pkg_url := r\<rparr>) = fixed_part w"
  "fixed_part (w\<lparr>cur_dev_id := i\<rparr>) = fixed_part w" "fixed_part (w\<lparr>sent := ss\<rparr>) = fixed_part w"
  by (rule fixed_cong; simp)+

lemma fixed_mg_send [frame_simps]: "mg_send c bs w = Some w' \<Longrightarrow> fixed_part w' = fixed_part w"
  by (rule fixed_cong; auto simp: mg_send_def run_simps)

subsection \<open>The state variable\<close>

text \<open>
  Every value the variable has between two events.  \<open>DLC_PKG_NEW\<close> is left at once for
  \<open>DLC_PKG_DOWNLOADING\<close>, and \<open>DLC_PKG_BAD\<close> is never assigned.
\<close>

definition legal_stats :: "stat set" where
  "legal_stats = {STAT_IDLE, DLC_PKG_DOWNLOADING, DLC_PKG_READY, ORCH_CON_ERR, ORCH_PKG_DOWNLOADING,
     ORCH_PKG_READY, ORCH_PKG_BAD, ORCH_TDR_RUN, ORCH_TDR_FAIL, ORCH_TDR_SUCC}"

lemma legal_core:
  "r \<in> insert DLC_PKG_NEW (insert STAT_INVALID legal_stats) \<Longrightarrow> g_stat w \<in> legal_stats \<Longrightarrow>
     g_stat (core_state_handler r w) \<in> legal_stats"
  by (auto simp: g_stat_core left_in_def acted_on_def legal_stats_def)

lemma g_stat_basic [frame_simps]:
  "g_stat (set_stat s w) = s" "g_stat (lock w) = g_stat w" "g_stat (unlock w) = g_stat w"
  "g_stat (mg_start_thread t w) = g_stat w" "g_stat (end_thread t w) = g_stat w"
  "g_stat (open_conn c w) = g_stat w" "g_stat (close_conn c w) = g_stat w"
  "g_stat (receive c d w) = g_stat w" "g_stat (close_immediately c w) = g_stat w"
  "g_stat (popen cmd w) = g_stat w" "g_stat (fgets_all k p w) = g_stat w"
  "g_stat (set_response r w) = g_stat w" "g_stat (build_download_command w) = g_stat w"
  "g_stat (hmi_thread_run w) = g_stat w" "g_stat (set_handler a x w) = g_stat w"
  "g_stat (set_nc a n w) = g_stat w" "g_stat (set_exit a b w) = g_stat w"
  by (cases a; simp add: set_stat_def lock_def unlock_def mg_start_thread_def end_thread_def
      open_conn_def close_conn_def receive_def close_immediately_def popen_def fgets_all_def
      set_response_def build_download_command_def hmi_thread_run_def set_nc_def set_exit_def
      split: prod.split)+

text \<open>What the handlers have in common.\<close>

definition keeps :: "world \<Rightarrow> world \<Rightarrow> bool" where
  "keeps w w' \<longleftrightarrow> fixed_part w' = fixed_part w \<and> (g_stat w \<in> legal_stats \<longrightarrow> g_stat w' \<in> legal_stats)"

lemma keeps_refl [simp]: "keeps w w"
  by (simp add: keeps_def)

lemma keeps_trans: "keeps u v \<Longrightarrow> keeps v w \<Longrightarrow> keeps u w"
  by (simp add: keeps_def)

lemma keeps_same: "fixed_part v = fixed_part w \<Longrightarrow> g_stat v = g_stat w \<Longrightarrow> keeps u w \<Longrightarrow> keeps u v"
  by (simp add: keeps_def)

lemma keeps_core:
  "r \<in> insert DLC_PKG_NEW (insert STAT_INVALID legal_stats) \<Longrightarrow> keeps u w \<Longrightarrow>
     keeps u (core_state_handler r w)"
  using legal_core by (auto simp: keeps_def frame_simps)

lemma keeps_set_stat: "s \<in> legal_stats \<Longrightarrow> keeps u w \<Longrightarrow> keeps u (set_stat s w)"
  by (simp add: keeps_def frame_simps)

lemma legal_members [simp]:
  "DLC_PKG_READY \<in> legal_stats" "ORCH_CON_ERR \<in> legal_stats" "ORCH_PKG_DOWNLOADING \<in> legal_stats"
  "ORCH_PKG_READY \<in> legal_stats" "ORCH_PKG_BAD \<in> legal_stats" "ORCH_TDR_RUN \<in> legal_stats"
  "ORCH_TDR_FAIL \<in> legal_stats" "ORCH_TDR_SUCC \<in> legal_stats" "STAT_IDLE \<in> legal_stats"
  by (simp_all add: legal_stats_def)

lemma keeps_basic [simp]:
  "keeps u (lock w) = keeps u w" "keeps u (unlock w) = keeps u w"
  "keeps u (mg_start_thread t w) = keeps u w" "keeps u (end_thread t w) = keeps u w"
  "keeps u (open_conn c w) = keeps u w" "keeps u (close_conn c w) = keeps u w"
  "keeps u (receive c d w) = keeps u w" "keeps u (close_immediately c w) = keeps u w"
  "keeps u (popen cmd w) = keeps u w" "keeps u (fgets_all k p w) = keeps u w"
  "keeps u (set_response resp w) = keeps u w" "keeps u (build_download_command w) = keeps u w"
  "keeps u (hmi_thread_run w) = keeps u w" "keeps u (set_nc a n w) = keeps u w"
  "keeps u (set_exit a b w) = keeps u w"
  by (simp_all add: keeps_def frame_simps)

lemma keeps_fields [simp]:
  "keeps u (w\<lparr>wheap := h\<rparr>) = keeps u w" "keeps u (w\<lparr>hmi_uuid := uu\<rparr>) = keeps u w"
  "keeps u (w\<lparr>hmi_upgrade_stat := x\<rparr>) = keeps u w" "keeps u (w\<lparr>dmc := c\<rparr>) = keeps u w"
  "keeps u (w\<lparr>hmi := c\<rparr>) = keeps u w" "keeps u (w\<lparr>inventory_resp := a\<rparr>) = keeps u w"
  "keeps u (w\<lparr>monitor_resp := a\<rparr>) = keeps u w" "keeps u (w\<lparr>upload_cmd := a\<rparr>) = keeps u w"
  "keeps u (w\<lparr>payload_buf := a\<rparr>) = keeps u w" "keeps u (w\<lparr>posted := p\<rparr>) = keeps u w"
  "keeps u (w\<lparr>recv_mbuf := m\<rparr>) = keeps u w"
  "keeps u (w\<lparr>tdr_response := a\<rparr>) = keeps u w" "keeps u (w\<lparr>stack_ok := b\<rparr>) = keeps u w"
  "keeps u (w\<lparr>cur_pkg_cdn_url := a\<rparr>) = keeps u w" "keeps u (w\<lparr>ctx_pkg_url := r\<rparr>) = keeps u w"
  "keeps u (w\<lparr>cur_dev_id := i\<rparr>) = keeps u w" "keeps u (w\<lparr>sent := ss\<rparr>) = keeps u w"
  by (simp_all add: keeps_def frame_simps)

lemma keeps_from [simp]:
  "keeps (u\<lparr>wheap := h\<rparr>) w = keeps u w" "keeps (u\<lparr>hmi_uuid := uu\<rparr>) w = keeps u w"
  "keeps (lock u) w = keeps u w" "keeps (open_conn c u) w = keeps u w"
  "keeps (close_conn c u) w = keeps u w" "keeps (receive c d u) w = keeps u w"
  "keeps (close_immediately c u) w = keeps u w" "keeps (set_exit a b u) w = keeps u w"
  "keeps (build_download_command u) w = keeps u w" "keeps (popen cmd u) w = keeps u w"
  "keeps (fgets_all k p u) w = keeps u w" "keeps (hmi_thread_run u) w = keeps u w" "keeps (u\<lparr>dmc := c'\<rparr>) w = keeps u w"
  by (simp_all add: keeps_def frame_simps)

lemma keeps_mg_send: "mg_send c bs w = Some w' \<Longrightarrow> keeps u w \<Longrightarrow> keeps u w'"
  by (auto simp: mg_send_def run_simps)

subsection \<open>The handlers\<close>

lemma keeps_dispatch:
  assumes "dispatch seen code w = Some (r, w')"
  shows "keeps w w'"
  using assms
  by (auto simp: dispatch_def run_simps Let_def send_response_def split: if_splits prod.splits
      elim!: keeps_mg_send intro!: keeps_core)

lemma keeps_payload:
  assumes "hmi_payload_parser seen payload len w = Some (r, w')"
  shows "keeps w w'"
  using assms
  by (auto simp: hmi_payload_parser_def run_simps Let_def split: option.splits if_splits
      dest!: keeps_dispatch)

lemma keeps_hmi:
  assumes "hmi_msg_handler cfg seen slack c ev w = Some w'"
  shows "keeps w w'"
  using assms
  by (auto simp: hmi_msg_handler_def run_simps split: mg_event.splits dest!: keeps_payload)

lemma keeps_update:
  assumes "hmi_resp_upgrade_stat_update cfg json w = Some (r, w')"
  shows "keeps w w'"
  using assms unfolding hmi_resp_upgrade_stat_update_def Let_def
  by (auto split: if_split_asm bind_split_asm)

lemma keeps_dmc_parse:
  assumes "dmc_msg_parse json w = Some (s, w')"
  shows "keeps w w' \<and> s \<in> {STAT_INVALID, DLC_PKG_NEW}"
  using assms
  unfolding dmc_msg_parse_def
  by (auto simp: Let_def split: option.split_asm if_split_asm bind_split_asm)

lemma keeps_parse_core:
  assumes "dmc_msg_parse json w = Some (st, v)"
  shows "keeps w (core_state_handler st v)"
  using keeps_dmc_parse [OF assms] by (auto intro!: keeps_core)

lemma keeps_inventory: "dmc_resp_inventory c w = Some w' \<Longrightarrow> keeps w w'"
  by (auto simp: dmc_resp_inventory_def Let_def elim!: keeps_mg_send)

lemma keeps_dmc:
  assumes "dmc_msg_handler cfg slack c ev w = Some w'"
  shows "keeps w w'"
proof (cases ev)
  case MG_EV_ACCEPT
  with assms show ?thesis
    by (auto simp: dmc_msg_handler_def run_simps dest!: keeps_inventory)
next
  case MG_EV_RECV
  with assms show ?thesis
    by (auto simp: dmc_msg_handler_def run_simps Let_def split: if_splits dest!: keeps_parse_core)
qed (use assms in \<open>simp add: dmc_msg_handler_def\<close>)

lemma keeps_run_commands: "run_commands cs ps w = (ok, w') \<Longrightarrow> keeps w w'"
proof (induction cs ps w rule: run_commands.induct)
  case (1 cmd cmds p ps w)
  then show ?case
    by (auto simp: Let_def keeps_def frame_simps split: if_splits)
qed simp_all

lemma keeps_downloader: "keeps w (dmc_downloader_thread ps st w)"
proof -
  obtain ok w1 where r: "(if strcmp (cur_dev_id w) ''WPC'' = 0
      then let v = build_download_command w in run_commands [cmd_buf v] ps v
      else run_commands vdcm_commands ps w) = (ok, w1)"
    by fastforce
  have "keeps w w1"
    using r keeps_run_commands by (fastforce simp: Let_def split: if_splits)
  then show ?thesis
    by (simp add: dmc_downloader_thread_def r Let_def keeps_core)
qed

lemma keeps_uploader: "cgw_pkg_upload_thread p w = Some w' \<Longrightarrow> keeps w w'"
  by (auto simp: cgw_pkg_upload_thread_def Let_def intro!: keeps_set_stat split: if_splits)

lemma keeps_monitor: "cgw_monitor_handle_status d w = Some w' \<Longrightarrow> keeps w w'"
  by (auto simp: cgw_monitor_handle_status_def run_simps Let_def split: if_splits option.splits
      elim!: keeps_mg_send)

lemma keeps_on_close [simp]: "keeps u (on_close a w) = keeps u w"
  by (simp add: on_close_def Let_def)

lemma keeps_report_progress: "report_progress w = Some w' \<Longrightarrow> keeps w w'"
  unfolding report_progress_def
  by (auto split: bind_split_asm intro!: keeps_core elim!: keeps_mg_send)

lemma keeps_act_on_result: "act_on_result cfg result w = Some w' \<Longrightarrow> keeps w w'"
  unfolding act_on_result_def
  by (auto split: bind_split_asm if_split_asm intro!: keeps_core dest!: keeps_update)
    (blast intro: keeps_trans keeps_report_progress)

lemma keeps_cgw:
  assumes "cgw_handler cfg a c ev d w = Some w'"
  shows "keeps w w'"
proof (cases a)
  case PkgNew
  with assms show ?thesis
    by (auto simp: cgw_handler_pkg_new_def Let_def split: http_event.splits if_splits
        intro!: keeps_set_stat)
next
  case PkgStat
  with assms show ?thesis
    by (auto simp: cgw_handler_pkg_stat_def Let_def run_simps split: http_event.splits if_splits
        intro!: keeps_set_stat)
next
  case TdrRun
  with assms show ?thesis
    by (auto simp: cgw_handler_tdr_run_def run_simps split: http_event.splits intro!: keeps_core)
next
  case TdrStat
  with assms show ?thesis
    by (auto simp: cgw_handler_tdr_stat_def Let_def
        split: http_event.split_asm if_split_asm option.split_asm bind_split_asm
        intro!: keeps_set_stat dest!: keeps_act_on_result)
qed

subsection \<open>The lock is free between events\<close>

lemma lock_basic [simp]:
  "g_stat_lock (set_stat s w) = g_stat_lock w" "g_stat_lock (mg_start_thread t w) = g_stat_lock w"
  "g_stat_lock (end_thread t w) = g_stat_lock w" "g_stat_lock (open_conn c w) = g_stat_lock w"
  "g_stat_lock (close_conn c w) = g_stat_lock w" "g_stat_lock (receive c d w) = g_stat_lock w"
  "g_stat_lock (close_immediately c w) = g_stat_lock w" "g_stat_lock (set_nc a n w) = g_stat_lock w"
  "g_stat_lock (set_exit a b w) = g_stat_lock w" "g_stat_lock (core_state_handler r w) = g_stat_lock w"
  "g_stat_lock (set_response resp w) = g_stat_lock w" "g_stat_lock (popen cmd w) = g_stat_lock w"
  "g_stat_lock (fgets_all k p w) = g_stat_lock w" "g_stat_lock (build_download_command w) = g_stat_lock w"
  "\<not> g_stat_lock (unlock w)" "g_stat_lock (on_close a w) = g_stat_lock w"
  by (simp_all add: set_stat_def mg_start_thread_def end_thread_def open_conn_def close_conn_def
      receive_def close_immediately_def set_nc_def set_exit_def core_state_handler_eq set_response_def
      popen_def fgets_all_def build_download_command_def unlock_def on_close_def Let_def split: prod.split)

lemma lock_mg_send: "mg_send c bs w = Some w' \<Longrightarrow> g_stat_lock w' = g_stat_lock w"
  by (auto simp: mg_send_def run_simps)

lemma lock_dispatch: "dispatch seen code w = Some (r, w') \<Longrightarrow> g_stat_lock w' \<longrightarrow> g_stat_lock w"
  unfolding dispatch_def send_response_def
  by (auto simp: Let_def split: if_split_asm bind_split_asm prod.split_asm dest!: lock_mg_send)

lemma lock_hmi: "hmi_msg_handler cfg seen slack c ev w = Some w' \<Longrightarrow> \<not> g_stat_lock w \<Longrightarrow> \<not> g_stat_lock w'"
  unfolding hmi_msg_handler_def hmi_payload_parser_def
  by (auto simp: Let_def split: mg_event.split_asm bind_split_asm option.split_asm if_split_asm
      dest!: lock_dispatch)

lemma lock_update:
  "hmi_resp_upgrade_stat_update cfg json w = Some (r, w') \<Longrightarrow> g_stat_lock w' = g_stat_lock w"
  unfolding hmi_resp_upgrade_stat_update_def Let_def by (auto split: if_split_asm bind_split_asm)

lemma lock_act_on_result: "act_on_result cfg result w = Some w' \<Longrightarrow> g_stat_lock w' = g_stat_lock w"
  unfolding act_on_result_def report_progress_def
  by (auto split: bind_split_asm if_split_asm dest!: lock_update lock_mg_send)

lemma lock_cgw: "cgw_handler cfg a c ev d w = Some w' \<Longrightarrow> g_stat_lock w' = g_stat_lock w"
  by (cases a)
    (auto simp: cgw_handler_pkg_new_def cgw_handler_pkg_stat_def cgw_handler_tdr_run_def
      cgw_handler_tdr_stat_def Let_def split: http_event.split_asm bind_split_asm option.split_asm
      if_split_asm dest!: lock_act_on_result)

subsection \<open>Every step keeps the invariant\<close>

definition server_inv :: "world \<Rightarrow> bool" where
  "server_inv w \<longleftrightarrow> g_stat w \<in> legal_stats \<and> \<not> g_stat_lock w \<and> fixed_part w = fixed_part (boot fresh_heap)"

lemma fixed_boot: "fixed_part (boot h) = fixed_part (boot h')"
  by (rule fixed_cong; simp add: boot_def init_context_def init_hmi_objs_def zero_world_def Let_def)

lemma inv_boot: "server_inv (boot h)"
proof -
  have "g_stat (boot h) = 0" "\<not> g_stat_lock (boot h)"
    by (simp_all add: boot_def init_context_def init_hmi_objs_def zero_world_def Let_def)
  then show ?thesis
    using fixed_boot by (simp add: server_inv_def legal_stats_def STAT_IDLE_def)
qed

lemma server_inv_keeps:
  "server_inv w \<Longrightarrow> keeps w w' \<Longrightarrow> \<not> g_stat_lock w' \<Longrightarrow> server_inv w'"
  by (simp add: server_inv_def keeps_def)

lemma keeps_deliver: "deliver cfg a c ev d w = Some w' \<Longrightarrow> keeps w w'"
  using keeps_cgw by (fastforce simp: deliver_def split: if_split_asm)

lemma lock_deliver: "deliver cfg a c ev d w = Some w' \<Longrightarrow> g_stat_lock w' = g_stat_lock w"
  using lock_cgw by (fastforce simp: deliver_def split: if_split_asm)

lemma deliver_all_keeps:
  "deliver_all cfg a c evs w = Some w' \<Longrightarrow> keeps w w' \<and> g_stat_lock w' = g_stat_lock w"
proof (induction evs arbitrary: w)
  case (Cons x evs)
  obtain ev d where x: "x = (ev, d)" by fastforce
  with Cons.prems obtain w1 where w1: "deliver cfg a c ev d w = Some w1" "deliver_all cfg a c evs w1 = Some w'"
    by (auto simp: run_simps)
  from Cons.IH [OF w1(2)] keeps_deliver [OF w1(1)] lock_deliver [OF w1(1)] show ?case
    using keeps_trans by simp
qed simp

lemma finish_keeps:
  assumes "cgw_msg_thread_finish cfg a c evs w = Some w'"
  shows "keeps w w' \<and> g_stat_lock w' = g_stat_lock w"
proof -
  from assms obtain w1 w2 where
    1: "deliver_all cfg a c evs (cgw_msg_thread_end a w) = Some w1" and
    2: "(if is_open c w1 then deliver cfg a c MG_EV_CLOSE No_data w1 else Some w1) = Some w2" and
    w': "w' = end_thread (Cgw_msg_polling a c) w2"
    by (auto simp: cgw_msg_thread_finish_def Option.bind_eq_Some_conv simp del: if_split)
  have "keeps w1 w2 \<and> g_stat_lock w2 = g_stat_lock w1"
    using 2 keeps_deliver lock_deliver by (auto split: if_split_asm)
  moreover have "keeps w w1 \<and> g_stat_lock w1 = g_stat_lock w"
    using deliver_all_keeps [OF 1] by (simp add: cgw_msg_thread_end_def)
  ultimately show ?thesis using w' keeps_trans by auto
qed

lemma keeps_start: "keeps w (cgw_msg_thread_start a w)"
  by (cases "payload_gener (handler a w)")
    (simp_all add: cgw_msg_thread_start_def cgw_api_payload_pkg_new_def Let_def)

lemma lock_start: "g_stat_lock (cgw_msg_thread_start a w) = g_stat_lock w"
  by (cases "payload_gener (handler a w)")
    (simp_all add: cgw_msg_thread_start_def cgw_api_payload_pkg_new_def Let_def)

lemma lock_uploader: "cgw_pkg_upload_thread p w = Some w' \<Longrightarrow> \<not> g_stat_lock w'"
  by (auto simp: cgw_pkg_upload_thread_def Let_def split: if_split_asm)

lemma lock_run_commands: "run_commands cs ps w = (ok, w') \<Longrightarrow> g_stat_lock w' = g_stat_lock w"
  by (induction cs ps w rule: run_commands.induct) (auto simp: Let_def split: if_split_asm)

lemma lock_downloader:
  assumes "\<not> g_stat_lock w"
  shows "\<not> g_stat_lock (dmc_downloader_thread ps st w)"
proof -
  obtain ok w1 where r: "(if strcmp (cur_dev_id w) ''WPC'' = 0
      then let v = build_download_command w in run_commands [cmd_buf v] ps v
      else run_commands vdcm_commands ps w) = (ok, w1)"
    by fastforce
  then have "\<not> g_stat_lock w1"
    using assms lock_run_commands by (fastforce simp: Let_def split: if_split_asm)
  then show ?thesis by (simp add: dmc_downloader_thread_def r Let_def)
qed

lemma lock_monitor: "cgw_monitor_handle_status d w = Some w' \<Longrightarrow> g_stat_lock w' = g_stat_lock w"
  unfolding cgw_monitor_handle_status_def
  by (auto simp: Let_def split: if_split_asm bind_split_asm option.split_asm dest!: lock_mg_send)

lemma effect_inv:
  assumes "server_inv w" and "effect cfg e w = Some w'"
  shows "server_inv w'"
proof -
  have l: "\<not> g_stat_lock w" using assms(1) by (simp add: server_inv_def)
  have "keeps w w' \<and> \<not> g_stat_lock w'"
  proof (cases e)
    case (Hmi_accept c)
    with assms(2) l show ?thesis using keeps_hmi lock_hmi by fastforce
  next
    case (Hmi_data c data slack seen)
    with assms(2) l show ?thesis using keeps_hmi lock_hmi by fastforce
  next
    case (Hmi_close c)
    with assms(2) l show ?thesis using keeps_hmi lock_hmi by fastforce
  next
    case (Monitor_request d)
    with assms(2) l show ?thesis using keeps_monitor lock_monitor by fastforce
  next
    case (Downloader_runs ps st)
    with assms(2) l show ?thesis using keeps_downloader lock_downloader by fastforce
  next
    case (Uploader_runs p)
    with assms(2) show ?thesis using keeps_uploader lock_uploader by fastforce
  next
    case (Cgw_starts a c)
    with assms(2) l show ?thesis using keeps_start lock_start by fastforce
  next
    case (Cgw_ends a c evs)
    with assms(2) l show ?thesis using finish_keeps by fastforce
  next
    case (Cgw_event a c ev d)
    with assms(2) show ?thesis using keeps_deliver by fastforce
  qed (use assms(2) keeps_dmc in fastforce)+
  with assms(1) server_inv_keeps show ?thesis by blast
qed

interpretation server: transition_system started "step cfg" server_inv for cfg
proof
  show "started w \<Longrightarrow> server_inv w" for w
    using inv_boot by (auto simp: started_def)
  show "server_inv w \<Longrightarrow> step cfg e w = Some w' \<Longrightarrow> server_inv w'" for w e w'
    using effect_inv by (auto simp: step_def split: if_split_asm)
qed

end
