(* ===== verification/DlcHmiProps.thy ===== *)
theory DlcHmiProps
  imports DlcHmi
begin

section \<open>The server: responses and requests of the user interface\<close>

text \<open>
  What a response generator stores and sends, stated once for the interface that the three
  generators share, and the behaviour of the request dispatcher and of the status update.
\<close>

subsection \<open>What the statements of a generator store\<close>

fun piece_text :: "piece \<Rightarrow> bytes" where
  "piece_text (Chr c) = [c]"
| "piece_text (Str s) = c_str s"
| "piece_text (Fmt s) = c_str s"

fun piece_fits :: "nat \<Rightarrow> piece \<Rightarrow> bool" where
  "piece_fits cap (Fmt s) = (length s < cap)"
| "piece_fits cap _ = True"

definition pieces_text :: "piece list \<Rightarrow> bytes" where
  "pieces_text ps = concat (map piece_text ps)"

text \<open>
  \<open>wrote pc t msg pc' m\<close>: the text \<open>t\<close> was stored at \<open>pc\<close>, with at most one byte behind it, and the
  array did not have to be longer than that.
\<close>

definition wrote :: "nat \<Rightarrow> bytes \<Rightarrow> bytes \<Rightarrow> nat \<Rightarrow> bytes \<Rightarrow> bool" where
  "wrote pc t msg pc' m \<longleftrightarrow>
     pc' = pc + length t \<and> take pc' m = take pc msg @ t \<and> drop (pc' + 1) m = drop (pc' + 1) msg \<and>
     length msg \<le> length m \<and> pc' \<le> length m \<and> length m \<le> max (length msg) (pc' + 1)"

lemma wrote_store: "pc \<le> length msg \<Longrightarrow> wrote pc t msg (pc + length t) (store pc t msg)"
  by (auto simp: wrote_def store_def)

lemma wrote_store_NUL: "pc \<le> length msg \<Longrightarrow> wrote pc t msg (pc + length t) (store pc (t @ [NUL]) msg)"
  by (auto simp: wrote_def store_def)

lemma wrote_refl: "pc \<le> length msg \<Longrightarrow> wrote pc [] msg pc msg"
  by (simp add: wrote_def)

lemma wrote_trans:
  assumes "wrote pc t msg pc1 m1" and "wrote pc1 u m1 pc2 m2"
  shows "wrote pc (t @ u) msg pc2 m2"
proof -
  have n: "pc2 + 1 = length u + (pc1 + 1)"
    using assms(2) unfolding wrote_def by linarith
  have "drop (pc2 + 1) m2 = drop (pc2 + 1) m1"
    using assms(2) unfolding wrote_def by blast
  also have "drop (pc2 + 1) m1 = drop (length u) (drop (pc1 + 1) m1)"
    unfolding n by (simp only: drop_drop)
  also have "drop (pc1 + 1) m1 = drop (pc1 + 1) msg"
    using assms(1) unfolding wrote_def by blast
  also have "drop (length u) (drop (pc1 + 1) msg) = drop (pc2 + 1) msg"
    unfolding n by (simp only: drop_drop)
  finally show ?thesis
    using assms by (auto simp: wrote_def)
qed

lemma put_piece_wrote:
  assumes "put_piece cap p (msg, pc, ok) = (m, pc', ok')" and "pc \<le> length msg"
  shows "wrote pc (piece_text p) msg pc' m" and "ok' = (ok \<and> piece_fits cap p)"
  using assms wrote_store [OF assms(2), of "piece_text p"] wrote_store_NUL [OF assms(2), of "piece_text p"]
  by (cases p; simp; elim conjE; simp)+

lemma put_pieces_wrote:
  assumes "put_pieces cap ps (msg, pc, ok) = (m, pc', ok')" and "pc \<le> length msg"
  shows "wrote pc (pieces_text ps) msg pc' m \<and> ok' = (ok \<and> (\<forall>p \<in> set ps. piece_fits cap p))"
  using assms
proof (induction ps arbitrary: msg pc ok)
  case Nil
  then show ?case by (auto simp: put_pieces_def pieces_text_def wrote_refl)
next
  case (Cons p ps)
  obtain m1 pc1 ok1 where 1: "put_piece cap p (msg, pc, ok) = (m1, pc1, ok1)"
    by (metis prod_cases3)
  note r = put_piece_wrote [OF 1 Cons.prems(2)]
  have "pc1 \<le> length m1" using r(1) by (simp add: wrote_def)
  moreover have "put_pieces cap ps (m1, pc1, ok1) = (m, pc', ok')"
    using Cons.prems(1) 1 by (simp add: put_pieces_def)
  ultimately have "wrote pc1 (pieces_text ps) m1 pc' m" "ok' = (ok1 \<and> (\<forall>p \<in> set ps. piece_fits cap p))"
    using Cons.IH by blast+
  then show ?case
    using wrote_trans [OF r(1)] r(2) by (auto simp: pieces_text_def)
qed

text \<open>
  A whole response ends with a single character.  What is sent is the header, the text, and the
  byte that the array held behind the text before.
\<close>

lemma respond_result:
  assumes "respond cap (ps @ [Chr c]) msg = (m, pc, ok)" and "4 \<le> length msg"
    and "length (pieces_text (ps @ [Chr c])) + 6 \<le> length msg"
  shows "pc = length (pieces_text (ps @ [Chr c])) + 5" and "length m = length msg"
    and "take pc m = hmi_header pc @ pieces_text (ps @ [Chr c]) @ [msg ! (pc - 1)]"
    and "ok = (\<forall>p \<in> set ps. piece_fits cap p)"
proof -
  let ?t = "pieces_text ps"
  obtain m1 pc1 ok1 where 1: "put_pieces cap ps (msg, 4, True) = (m1, pc1, ok1)"
    by (metis prod_cases3)
  have w: "wrote 4 ?t msg pc1 m1" and ok1: "ok1 = (\<forall>p \<in> set ps. piece_fits cap p)"
    using put_pieces_wrote [OF 1 assms(2)] by simp_all
  have txt_eq: "pieces_text (ps @ [Chr c]) = ?t @ [c]" by (simp add: pieces_text_def)
  have len: "length ?t + 7 \<le> length msg" using assms(3) by (simp add: txt_eq)
  have m1: "length m1 = length msg" using w len by (auto simp: wrote_def max_def split: if_split_asm)
  have pc1: "pc1 = length ?t + 4" using w by (simp add: wrote_def)
  define m2 where "m2 = store pc1 [c] m1"
  define m3 where "m3 = store (pc1 + 2) [NUL] m2"
  have r: "pc = pc1 + 2" "m = store 0 (hmi_header pc) m3" "ok = ok1"
    using assms(1) 1 by (auto simp: respond_def put_pieces_def finish_def Let_def m2_def m3_def)
  show "pc = length (pieces_text (ps @ [Chr c])) + 5" using r(1) pc1 by (simp add: txt_eq)
  show "length m = length msg" using r m1 pc1 len by (simp add: m2_def m3_def)
  show "ok = (\<forall>p \<in> set ps. piece_fits cap p)" using r(3) ok1 by simp
  have stale: "m1 ! (pc1 + 1) = msg ! (pc1 + 1)"
  proof -
    have "drop (pc1 + 1) m1 = drop (pc1 + 1) msg" using w unfolding wrote_def by blast
    then have "drop (pc1 + 1) m1 ! 0 = drop (pc1 + 1) msg ! 0" by (simp only:)
    then show ?thesis using m1 pc1 len by simp
  qed
  have "take (pc1 + 2) m3 = take (pc1 + 2) m2"
    using m1 pc1 len by (simp add: m3_def m2_def store_def)
  also have "\<dots> = take pc1 m1 @ [c] @ [m1 ! (pc1 + 1)]"
  proof -
    have "m2 = take pc1 m1 @ [c] @ drop (pc1 + 1) m1"
      using m1 pc1 len by (simp add: m2_def store_def)
    moreover have "drop (pc1 + 1) m1 = m1 ! (pc1 + 1) # drop (pc1 + 2) m1"
      using m1 pc1 len by (simp add: Cons_nth_drop_Suc [symmetric])
    ultimately show ?thesis using m1 pc1 len by simp
  qed
  also have "take pc1 m1 = take 4 msg @ ?t" using w unfolding wrote_def by blast
  finally have "take (pc1 + 2) m3 = take 4 msg @ ?t @ [c] @ [msg ! (pc1 + 1)]"
    using stale by simp
  moreover have "take pc m = hmi_header pc @ drop 4 (take pc m3)"
    using r pc1 by (simp add: store_def drop_take)
  ultimately show "take pc m = hmi_header pc @ pieces_text (ps @ [Chr c]) @ [msg ! (pc - 1)]"
    using r(1) assms(2) by (simp add: txt_eq)
qed

subsection \<open>The interface of a response generator\<close>

text \<open>
  What the three generators promise of a world whose arrays are intact: for an array of at least
  512 bytes the response fits, no local array is overrun, and the bytes sent are the header, the
  text of the response and one byte of what the array held before.
\<close>

locale response_generator =
  fixes gen :: "world \<Rightarrow> bytes \<Rightarrow> bytes \<Rightarrow> (bytes \<times> nat \<times> bool) option"
    and response_text :: "world \<Rightarrow> bytes \<Rightarrow> bytes"
  assumes result: "in_bounds w \<Longrightarrow> length (c_str uuid) \<le> 64 \<Longrightarrow> 512 \<le> length msg \<Longrightarrow>
      gen w msg uuid = Some (m, pc, ok) \<Longrightarrow>
      length (response_text w uuid) + 6 \<le> 512 \<and> pc = length (response_text w uuid) + 5 \<and>
      length m = length msg \<and> ok \<and> take pc m = hmi_header pc @ response_text w uuid @ [msg ! (pc - 1)]"
begin

text \<open>The length a reader finds in front of the response.\<close>

lemma announced:
  assumes "in_bounds w" and "length (c_str uuid) \<le> 64" and "512 \<le> length msg"
    and "gen w msg uuid = Some (m, pc, ok)" and "\<not> char_signed cfg"
  shows "message_length cfg (take pc m) = Some (word_of_nat ((length (response_text w uuid) + 5) mod 256))"
proof -
  have t: "take pc m = hmi_header pc @ response_text w uuid @ [msg ! (pc - 1)]"
    and pc: "pc = length (response_text w uuid) + 5"
    using result [OF assms(1-4)] by blast+
  show ?thesis
    using message_length_bytes [of cfg "hmi_header pc"] assms(5)
    unfolding t by (simp add: hmi_header_bytes of_char_of) (simp add: pc)
qed

lemma keeps_in_bounds:
  assumes "in_bounds w" and "length (c_str uuid) \<le> 64" and "gen w (hmi_response w) uuid = Some r"
  shows "in_bounds (set_response r w)"
proof -
  obtain m pc ok where r: "r = (m, pc, ok)" by (metis prod_cases3)
  have len: "length (hmi_response w) = 1024"
    using assms(1) by (simp add: in_bounds_def arrays_def)
  from result [OF assms(1,2) _ assms(3) [unfolded r]] have "length m = 1024" "ok"
    by (simp_all add: len)
  with assms(1) show ?thesis
    by (simp add: r in_bounds_def arrays_def set_response_def)
qed

end

subsection \<open>The three generators\<close>

lemma respond_locale:
  assumes "ps = qs @ [Chr c]" and "\<forall>p \<in> set qs. piece_fits cap p" and "length (pieces_text ps) + 6 \<le> 512"
    and "512 \<le> length msg" and "respond cap ps msg = (m, pc, ok)"
  shows "length (pieces_text ps) + 6 \<le> 512 \<and> pc = length (pieces_text ps) + 5 \<and>
    length m = length msg \<and> ok \<and> take pc m = hmi_header pc @ pieces_text ps @ [msg ! (pc - 1)]"
proof -
  have "4 \<le> length msg" "length (pieces_text ps) + 6 \<le> length msg" using assms(3,4) by simp_all
  from respond_result [OF assms(5) [unfolded assms(1)] this(1)] this(2) assms(1-3) show ?thesis by simp
qed

lemma field_length: "length a = n \<Longrightarrow> length (c_str a) \<le> n"
  using length_c_str [of a] by simp

lemma in_bounds_fields:
  assumes "in_bounds w"
  shows "length (c_str (pi_door_module (hmi_pkg_info w))) \<le> 8"
    "length (c_str (pi_dev_id (hmi_pkg_info w))) \<le> 32" "length (c_str (pi_soft_id (hmi_pkg_info w))) \<le> 32"
    "length (c_str (pi_release_notes (hmi_pkg_info w))) \<le> 256"
    "length (c_str (us_dev_id (hmi_upgrade_stat w))) \<le> 32" "length (c_str (us_soft_id (hmi_upgrade_stat w))) \<le> 32"
    "length (c_str (us_esti_time (hmi_upgrade_stat w))) \<le> 64"
    "length (c_str (us_start_time (hmi_upgrade_stat w))) \<le> 32"
    "length (c_str (us_time_stamp (hmi_upgrade_stat w))) \<le> 32"
    "length (c_str (us_door_module (hmi_upgrade_stat w))) \<le> 8"
    "length (c_str (us_status (hmi_upgrade_stat w))) \<le> 15"
    "length (c_str (hmi_uuid w)) \<le> 64"
  using assms by (simp_all add: in_bounds_def arrays_def field_length)

lemma length_show_int:
  assumes "INT_MIN \<le> i" and "i \<le> INT_MAX"
  shows "length (show_int i) \<le> 11"
proof -
  have "nat \<bar>i\<bar> < 10 ^ 10" using assms by (simp add: INT_MIN_def INT_MAX_def)
  then show ?thesis
    using length_show_nat_le [of "nat \<bar>i\<bar>" 10] by (cases "i < 0") (simp_all add: show_int_def)
qed

lemma no_NUL_texts: "NUL \<notin> set s \<Longrightarrow> piece_text (Fmt s) = s" "NUL \<notin> set s \<Longrightarrow> piece_text (Str s) = s"
  by (simp_all add: c_str_no_NUL)

interpretation new_pkg: response_generator
  "\<lambda>w msg uuid. Some (hmi_resp_check_new_pkg w msg uuid)"
  "\<lambda>w uuid. pieces_text (new_pkg_pieces (hmi_pkg_info w) uuid)"
proof (unfold_locales, goal_cases)
  case (1 w uuid msg m pc ok)
  note f = in_bounds_fields [OF 1(1)]
  show ?case
  proof (rule respond_locale [where cap = 512 and c = "CHR ''}''"])
    show "new_pkg_pieces (hmi_pkg_info w) uuid =
        butlast (new_pkg_pieces (hmi_pkg_info w) uuid) @ [Chr CHR ''}'']"
      by (simp add: new_pkg_pieces_def)
    show "\<forall>p \<in> set (butlast (new_pkg_pieces (hmi_pkg_info w) uuid)). piece_fits 512 p"
      using f 1(2) by (simp add: new_pkg_pieces_def)
    show "length (pieces_text (new_pkg_pieces (hmi_pkg_info w) uuid)) + 6 \<le> 512"
      using f 1(2) by (simp add: new_pkg_pieces_def pieces_text_def c_str_append)
  qed (use 1 in \<open>simp_all add: hmi_resp_check_new_pkg_def\<close>)
qed

interpretation start_upgrade: response_generator
  "\<lambda>w msg uuid. Some (hmi_resp_start_upgrade w msg uuid)"
  "\<lambda>w uuid. pieces_text (start_upgrade_pieces (hmi_pkg_info w) uuid)"
proof (unfold_locales, goal_cases)
  case (1 w uuid msg m pc ok)
  note f = in_bounds_fields [OF 1(1)]
  show ?case
  proof (rule respond_locale [where cap = 128 and c = "CHR ''}''"])
    show "start_upgrade_pieces (hmi_pkg_info w) uuid =
        butlast (start_upgrade_pieces (hmi_pkg_info w) uuid) @ [Chr CHR ''}'']"
      by (simp add: start_upgrade_pieces_def)
    show "\<forall>p \<in> set (butlast (start_upgrade_pieces (hmi_pkg_info w) uuid)). piece_fits 128 p"
      using f 1(2) by (simp add: start_upgrade_pieces_def)
    show "length (pieces_text (start_upgrade_pieces (hmi_pkg_info w) uuid)) + 6 \<le> 512"
      using f 1(2) by (simp add: start_upgrade_pieces_def pieces_text_def c_str_append)
  qed (use 1 in \<open>simp_all add: hmi_resp_start_upgrade_def\<close>)
qed

interpretation upgrade_stat: response_generator hmi_resp_upgrade_stat
  "\<lambda>w uuid. pieces_text (upgrade_stat_pieces (hmi_upgrade_stat w) (us_progress (hmi_upgrade_stat w)) uuid)"
proof (unfold_locales, goal_cases)
  case (1 w uuid msg m pc ok)
  note f = in_bounds_fields [OF 1(1)]
  let ?u = "hmi_upgrade_stat w"
  let ?ps = "upgrade_stat_pieces ?u (us_progress ?u) uuid"
  from 1(4) have n: "INT_MIN \<le> us_progress ?u" "us_progress ?u \<le> INT_MAX"
    and r: "respond 128 ?ps msg = (m, pc, ok)"
    by (auto simp: hmi_resp_upgrade_stat_def int_of_float_def run_simps split: if_split_asm)
  note p = length_show_int [OF n]
  show ?case
  proof (rule respond_locale [where cap = 128 and c = "CHR ''}''"])
    show "?ps = butlast ?ps @ [Chr CHR ''}'']"
      by (simp add: upgrade_stat_pieces_def)
    show "\<forall>p \<in> set (butlast ?ps). piece_fits 128 p"
      using f p 1(2) by (simp add: upgrade_stat_pieces_def)
    show "length (pieces_text ?ps) + 6 \<le> 512"
      using f p 1(2) by (simp add: upgrade_stat_pieces_def pieces_text_def c_str_append c_str_no_NUL)
  qed (use 1 r in simp_all)
qed

subsection \<open>Properties of the responses\<close>

lemma hmi_resp_check_new_pkg_message_facts:
  assumes "in_bounds w" and "hmi_resp_check_new_pkg w (hmi_response w) (hmi_uuid w) = (m, pc, ok)"
    and "\<not> char_signed cfg"
  shows "in_bounds (set_response (m, pc, ok) w)"
    and "take pc m = hmi_header pc @ pieces_text (new_pkg_pieces (hmi_pkg_info w) (hmi_uuid w))
           @ [hmi_response w ! (pc - 1)]"
    and "message_length cfg (take pc m) = Some (word_of_nat
           ((length (pieces_text (new_pkg_pieces (hmi_pkg_info w) (hmi_uuid w))) + 5) mod 256))"
proof -
  have u: "length (c_str (hmi_uuid w)) \<le> 64" and r: "512 \<le> length (hmi_response w)"
    using in_bounds_fields [OF assms(1)] assms(1) by (simp_all add: in_bounds_def arrays_def)
  have g: "Some (hmi_resp_check_new_pkg w (hmi_response w) (hmi_uuid w)) = Some (m, pc, ok)"
    using assms(2) by simp
  show "in_bounds (set_response (m, pc, ok) w)"
    by (rule new_pkg.keeps_in_bounds [OF assms(1) u g])
  show "take pc m = hmi_header pc @ pieces_text (new_pkg_pieces (hmi_pkg_info w) (hmi_uuid w))
           @ [hmi_response w ! (pc - 1)]"
    using new_pkg.result [OF assms(1) u r g] by blast
  show "message_length cfg (take pc m) = Some (word_of_nat
           ((length (pieces_text (new_pkg_pieces (hmi_pkg_info w) (hmi_uuid w))) + 5) mod 256))"
    by (rule new_pkg.announced [OF assms(1) u r g assms(3)])
qed

text \<open>
  The answer to the check for a new package fits its arrays in every world whose arrays are
  intact; what is sent is the four header bytes, the JSON text of the answer, and one byte left
  over in the static array behind it; and the length the header announces is the length of all
  this modulo 256.
\<close>

theorem hmi_resp_check_new_pkg_message:
  assumes "in_bounds w" and "hmi_resp_check_new_pkg w (hmi_response w) (hmi_uuid w) = (m, pc, ok)"
    and "\<not> char_signed cfg"
  shows "in_bounds (set_response (m, pc, ok) w) \<and>
    take pc m = hmi_header pc @ pieces_text (new_pkg_pieces (hmi_pkg_info w) (hmi_uuid w))
      @ [hmi_response w ! (pc - 1)] \<and>
    message_length cfg (take pc m) = Some (word_of_nat
      ((length (pieces_text (new_pkg_pieces (hmi_pkg_info w) (hmi_uuid w))) + 5) mod 256))"
  using hmi_resp_check_new_pkg_message_facts [OF assms] by blast

lemma hmi_resp_check_new_pkg_message_witness:
  "\<exists>m pc ok. hmi_resp_check_new_pkg (boot fresh_heap) (zeros 1024) (zeros 64) = (m, pc, ok) \<and>
     take pc m = hmi_header pc @
       pieces_text (new_pkg_pieces (hmi_pkg_info (boot fresh_heap)) (zeros 64)) @ [zeros 1024 ! (pc - 1)]"
proof -
  obtain m pc ok where r: "hmi_resp_check_new_pkg (boot fresh_heap) (zeros 1024) (zeros 64) = (m, pc, ok)"
    by (metis prod_cases3)
  have b: "hmi_response (boot fresh_heap) = zeros 1024" "hmi_uuid (boot fresh_heap) = zeros 64"
    by (simp_all add: boot_def init_context_def init_hmi_objs_def zero_world_def Let_def)
  from hmi_resp_check_new_pkg_message
      [OF in_bounds_boot, of fresh_heap m pc ok "\<lparr>char_signed = False, log_level_default = 1, fresh_byte = NUL\<rparr>"] r
  show ?thesis unfolding b by auto
qed

text \<open>
  C13. Asking for the start of the upgrade is acted on exactly in the state \<open>ORCH_PKG_READY\<close>: then
  the answer is sent to the HMI and the request thread for the upgrade run is started, and in
  every other state nothing is sent and nothing is started; the state is the same afterwards.
\<close>

theorem start_upgrade_only_when_ready:
  assumes "hmi w = Some c" and "recv_mbuf w c = Some io"
  shows "\<exists>w' m pc ok. dispatch seen START_UPGRADE w = Some (1, w') \<and>
    hmi_resp_start_upgrade w (hmi_response w) (hmi_uuid w) = (m, pc, ok) \<and> g_stat w' = g_stat w \<and>
    sent w' = sent w @ (if g_stat w = ORCH_PKG_READY then [(c, take pc m)] else []) \<and>
    threads w' = threads w @ (if g_stat w = ORCH_PKG_READY then [Cgw_msg_thread TdrRun] else [])"
proof -
  obtain m pc ok where r: "hmi_resp_start_upgrade w (hmi_response w) (hmi_uuid w) = (m, pc, ok)"
    by (metis prod_cases3)
  have "\<exists>x n. wait_stat_unlocked seen 1000 = Some (x, n)"
    using wait_loop_ends [of 1000 1 10 seen 0] by (auto simp: wait_stat_unlocked_def)
  with assms r show ?thesis
    by (auto simp: dispatch_def Let_def START_UPGRADE_def set_response_def send_response_def
        core_state_handler_eq acted_on_def left_in_def started_in_def start_table_def lock_def
        unlock_def mg_send_def STAT_INVALID_def ORCH_PKG_READY_def DLC_PKG_NEW_def DLC_PKG_READY_def
        ORCH_PKG_DOWNLOADING_def)
qed

lemma start_upgrade_only_when_ready_witness:
  "\<exists>w'. dispatch (\<lambda>_. False) START_UPGRADE
      ((boot fresh_heap)\<lparr>hmi := Some (Hmi_conn 0), recv_mbuf := (\<lambda>_. Some []), g_stat := ORCH_PKG_READY\<rparr>)
      = Some (1, w') \<and> Cgw_msg_thread TdrRun \<in> set (threads w')"
  using start_upgrade_only_when_ready [of
      "(boot fresh_heap)\<lparr>hmi := Some (Hmi_conn 0), recv_mbuf := (\<lambda>_. Some []), g_stat := ORCH_PKG_READY\<rparr>"
      "Hmi_conn 0" "[]" "\<lambda>_. False"]
  by auto

subsection \<open>Waiting for the lock\<close>

text \<open>
  The wait for the lock with the time-out that all callers pass ends after at most ten
  sleeps, whatever other threads do to the lock; it slept only while it saw the lock taken, and
  the result is what the last read of the lock says.
\<close>

theorem wait_stat_unlocked_bound:
  "\<exists>r n. wait_stat_unlocked seen 1000 = Some (r, n) \<and> n \<le> 10 \<and> (\<forall>j < n. seen j) \<and>
     (r \<longleftrightarrow> \<not> seen (n + 1))"
proof -
  have "\<exists>r n. wait_loop (Suc 10) seen 1000 1 0 = Some (r, n) \<and> 0 \<le> n \<and> n \<le> 0 + 10 \<and>
    (\<forall>j < n. 0 \<le> j \<longrightarrow> seen j) \<and> (r \<longleftrightarrow> \<not> seen (n + 1)) \<and>
    (unat (1 :: 32 word) + 100 * (n - 0) < unat (1000 :: 32 word) \<longrightarrow> \<not> seen n)"
    by (rule wait_loop_ends) simp_all
  then obtain r n where w: "wait_loop (Suc 10) seen 1000 1 0 = Some (r, n)" and n: "n \<le> 10"
    "\<forall>j < n. seen j" "r \<longleftrightarrow> \<not> seen (n + 1)"
    by auto
  have "wait_stat_unlocked seen 1000 = Some (r, n)"
    using w by (simp only: wait_stat_unlocked_def) simp
  with n show ?thesis by blast
qed

lemma wait_stat_unlocked_bound_witness:
  "\<exists>n. wait_stat_unlocked (\<lambda>_. True) 1000 = Some (False, n) \<and> n \<le> 10"
  using wait_stat_unlocked_bound [of "\<lambda>_. True"] by auto

subsection \<open>The status reported by the orchestrator\<close>

text \<open>
  What the update of the upgrade status returns: an error only if the report has a member
  named \<open>error\<close>, success only if the stored progress is at least 100 afterwards, and 0 only if no
  member is named \<open>error\<close> and the stored progress is below 100 or the report is empty.
\<close>

theorem update_loop_result:
  assumes "update_loop xs u = Some (r, u')"
  shows "(r = - 1 \<and> (\<exists>x \<in> set xs. \<exists>k. item_string x = Some k \<and> c_str k = ''error'')) \<or>
    (r = 1 \<and> 100 \<le> us_progress u') \<or>
    (r = 0 \<and> (\<forall>x \<in> set xs. \<exists>k. item_string x = Some k \<and> c_str k \<noteq> ''error'') \<and>
       (xs = [] \<or> us_progress u' < 100))"
  using assms
proof (induction xs u rule: update_loop.induct)
  case (2 x xs u)
  from "2.prems" obtain k where k: "item_string x = Some k" by (auto simp: run_simps)
  show ?case
  proof (cases "strcmp k ''error'' = 0")
    case True
    with "2.prems" k show ?thesis by (auto simp: byte_simps)
  next
    case False
    with "2.prems" k obtain u1 where u1: "update_field k x u = Some u1"
      and rest: "(if 100 \<le> us_progress u1 then Some (1, u1) else update_loop xs u1) = Some (r, u')"
      by (auto simp: run_simps)
    show ?thesis
    proof (cases "100 \<le> us_progress u1")
      case True
      with rest show ?thesis by simp
    next
      case below: False
      with rest have "update_loop xs u1 = Some (r, u')" by simp
      from "2.IH" [OF k False u1 below this] False k below this show ?thesis
        by (auto simp: byte_simps)
    qed
  qed
qed simp

lemma update_loop_result_witness:
  "update_loop [CJson cJSON_String [] (Some ''x'') 0 (DFin False 0) (Some ''error'')] zero_upgrade_stat
     = Some (- 1, zero_upgrade_stat) \<and>
   (\<exists>x \<in> set [CJson cJSON_String [] (Some ''x'') 0 (DFin False 0) (Some ''error'')].
      \<exists>k. item_string x = Some k \<and> c_str k = ''error'')"
proof -
  have u: "update_loop [CJson cJSON_String [] (Some ''x'') 0 (DFin False 0) (Some ''error'')] zero_upgrade_stat
     = Some (- 1, zero_upgrade_stat)"
    by (simp add: byte_simps)
  with update_loop_result [OF u] show ?thesis by simp
qed



subsection \<open>The receive buffer of the HMI\<close>

lemma payload_parser_len:
  "hmi_payload_parser seen (p @ NUL # d) n w = hmi_payload_parser seen (p @ [NUL]) 0 w"
  by (simp add: hmi_payload_parser_def c_string_at_def)

lemma recv_mg_send: "mg_send c bs w = Some w' \<Longrightarrow> recv_mbuf w' = recv_mbuf w"
  by (auto simp: mg_send_def run_simps)

lemma recv_dispatch: "dispatch seen code w = Some (r, w') \<Longrightarrow> recv_mbuf w' = recv_mbuf w"
  unfolding dispatch_def send_response_def
  by (auto simp: Let_def set_response_def lock_def unlock_def split: if_split_asm bind_split_asm prod.split_asm
      dest!: recv_mg_send)

lemma hmi_rereads_first_message_facts:
  assumes "recv_mbuf w c = Some (h @ p @ NUL # d)" and "length h = 4"
  shows "hmi_msg_handler cfg seen slack c MG_EV_RECV w =
      map_option snd (hmi_payload_parser seen (p @ [NUL]) 0 w)"
    and "\<forall>w'. hmi_msg_handler cfg seen slack c MG_EV_RECV w = Some w' \<longrightarrow> recv_mbuf w' = recv_mbuf w"
proof -
  obtain n where "message_length cfg (h @ p @ NUL # d @ slack) = Some n"
    using assms(2) by (auto simp: message_length_def rd_def nth_append)
  then show eq: "hmi_msg_handler cfg seen slack c MG_EV_RECV w =
      map_option snd (hmi_payload_parser seen (p @ [NUL]) 0 w)"
    using assms payload_parser_len [of seen p "d @ slack" n w]
    by (cases "hmi_payload_parser seen (p @ [NUL]) 0 w") (auto simp: hmi_msg_handler_def)
  have "hmi_payload_parser seen v m w = Some (r, w') \<Longrightarrow> recv_mbuf w' = recv_mbuf w" for v m r w'
    unfolding hmi_payload_parser_def
    by (auto simp: Let_def split: bind_split_asm option.split_asm if_split_asm dest!: recv_dispatch)
  with eq show "\<forall>w'. hmi_msg_handler cfg seen slack c MG_EV_RECV w = Some w' \<longrightarrow> recv_mbuf w' = recv_mbuf w"
    by auto
qed

text \<open>
  The HMI is heard once: the receive buffer is never emptied, so when a second message
  arrives behind a first one (the first byte of its length is zero), the handler parses the first
  message again and never looks at the second, and the buffer is still the same afterwards.
\<close>

theorem hmi_rereads_first_message:
  assumes "recv_mbuf w c = Some (h @ p @ NUL # d)" and "length h = 4"
  shows "hmi_msg_handler cfg seen slack c MG_EV_RECV w =
      map_option snd (hmi_payload_parser seen (p @ [NUL]) 0 w) \<and>
    (\<forall>w'. hmi_msg_handler cfg seen slack c MG_EV_RECV w = Some w' \<longrightarrow> recv_mbuf w' = recv_mbuf w)"
  using hmi_rereads_first_message_facts [OF assms] by blast

lemma hmi_rereads_first_message_witness:
  "\<exists>w. recv_mbuf w (Hmi_conn 0) = Some ([NUL, NUL, NUL, CHR 0x02] @ ''{}'' @ NUL # ''more'') \<and>
     hmi_msg_handler \<lparr>char_signed = True, log_level_default = 1, fresh_byte = NUL\<rparr> (\<lambda>_. False) []
         (Hmi_conn 0) MG_EV_RECV w =
       map_option snd (hmi_payload_parser (\<lambda>_. False) (''{}'' @ [NUL]) 0 w)"
proof -
  define w where "w = (boot fresh_heap)\<lparr>recv_mbuf :=
    (\<lambda>_. Some ([NUL, NUL, NUL, CHR 0x02] @ ''{}'' @ NUL # ''more''))\<rparr>"
  have w: "recv_mbuf w (Hmi_conn 0) = Some ([NUL, NUL, NUL, CHR 0x02] @ ''{}'' @ NUL # ''more'')"
    by (simp add: w_def)
  show ?thesis
    using hmi_rereads_first_message [OF w] w by auto
qed

end
