(* ===== verification/CJsonParseProps.thy ===== *)
theory CJsonParseProps
  imports CJsonParse
begin

section \<open>cJSON: the contract of the parser\<close>

text \<open>
  The interface \<open>value_parser\<close> says what \<open>parse_array\<close> and \<open>parse_object\<close> rely on in the parser
  they call for their elements, and what they guarantee in turn: no read outside the buffer, a
  result for every input, an item of the right shape that is nested no deeper than the limit,
  and an exact account of the memory.  The contract is passed from one level of the recursion to
  the next, and holds of \<open>parse_value\<close> with the fuel of the entry points.
\<close>

subsection \<open>Buffers, and items before and after parsing\<close>

definition wf_buf :: "parse_buffer \<Rightarrow> bool" where
  "wf_buf b \<longleftrightarrow> offset b < length (content b) \<and> last (content b) = NUL"

definition plain :: "32 word \<Rightarrow> bool" where
  "plain t \<longleftrightarrow> \<not> has_flag t cJSON_IsReference \<and> \<not> has_flag t cJSON_StringIsConst"

text \<open>An item a value can be parsed into: nothing but, perhaps, a name.\<close>

definition blank :: "cJSON \<Rightarrow> bool" where
  "blank x \<longleftrightarrow> plain (ctype x) \<and> child x = [] \<and> valuestring x = None"

text \<open>The shape of parsed items: the fields agree with the type, and members have names.\<close>

fun wf_json :: "cJSON \<Rightarrow> bool" where
  "wf_json (CJson t c s i d k) \<longleftrightarrow>
     t \<in> {cJSON_False, cJSON_True, cJSON_NULL} \<and> c = [] \<and> s = None \<or>
     t = cJSON_Number \<and> c = [] \<and> s = None \<and> saturate_int d = Some i \<or>
     t = cJSON_String \<and> c = [] \<and> s \<noteq> None \<or>
     t = cJSON_Array \<and> s = None \<and> (\<forall>x \<in> set c. wf_json x \<and> item_string x = None) \<or>
     t = cJSON_Object \<and> s = None \<and> (\<forall>x \<in> set c. wf_json x \<and> item_string x \<noteq> None)"

text \<open>At most \<open>n\<close> levels of arrays and objects.\<close>

fun nested_within :: "nat \<Rightarrow> cJSON \<Rightarrow> bool" where
  "nested_within n (CJson t c s i d k) \<longleftrightarrow>
     (t = cJSON_Array \<or> t = cJSON_Object \<longrightarrow> 0 < n) \<and> (\<forall>x \<in> set c. nested_within (n - 1) x)"

definition value_post :: "cJSON \<Rightarrow> parse_buffer \<Rightarrow> bool \<Rightarrow> cJSON \<Rightarrow> parse_buffer \<Rightarrow> bool" where
  "value_post item b ok item' b' \<longleftrightarrow>
     content b' = content b \<and> offset b' \<le> length (content b) \<and>
     (if ok
      then offset b < offset b' \<and> wf_buf b' \<and> depth b' = depth b \<and>
           live (mem b') = live (mem b) + blocks [item'] - blocks [item] \<and>
           wf_json item' \<and> item_string item' = item_string item \<and>
           nested_within (CJSON_NESTING_LIMIT - depth b) item'
      else item' = item \<and> live (mem b') = live (mem b))"

lemma plain_kinds [simp]:
  "plain 0" "plain cJSON_False" "plain cJSON_True" "plain cJSON_NULL" "plain cJSON_Number"
  "plain cJSON_String" "plain cJSON_Array" "plain cJSON_Object"
  by (simp_all add: plain_def has_flag_def ctype_defs)

lemma ctype_distinct [simp]:
  "cJSON_Array \<noteq> cJSON_Object" "cJSON_Object \<noteq> cJSON_Array"
  "cJSON_String \<noteq> cJSON_Array" "cJSON_String \<noteq> cJSON_Object"
  "cJSON_Number \<noteq> cJSON_Array" "cJSON_Number \<noteq> cJSON_Object"
  "cJSON_NULL \<noteq> cJSON_Array" "cJSON_NULL \<noteq> cJSON_Object"
  "cJSON_True \<noteq> cJSON_Array" "cJSON_True \<noteq> cJSON_Object"
  "cJSON_False \<noteq> cJSON_Array" "cJSON_False \<noteq> cJSON_Object"
  by (simp_all add: ctype_defs)

lemma blocks_plain:
  "plain t \<Longrightarrow> blocks [CJson t c s i d k] = 1 + of_bool (s \<noteq> None) + of_bool (k \<noteq> None) + blocks c"
  by (simp add: plain_def)

lemma blank_zero_item [simp]: "blank zero_item"
  by (simp add: blank_def zero_item_def)

lemma blocks_blank: "blank x \<Longrightarrow> blocks [x] = 1 + of_bool (item_string x \<noteq> None)"
  by (cases x) (auto simp: blank_def plain_def)

lemma at_offset_Some_iff:
  "at_offset b 0 = Some c \<longleftrightarrow> offset b < length (content b) \<and> c = content b ! offset b"
  by (simp add: at_offset_def run_simps)

lemma last_nth: "xs \<noteq> [] \<Longrightarrow> last xs = xs ! (length xs - 1)"
  by (rule last_conv_nth)

text \<open>A character other than the terminator is never the last one.\<close>

lemma not_at_end:
  assumes "last src = NUL" and "p < length src" and "src ! p \<noteq> NUL"
  shows "Suc p < length src"
proof (rule ccontr)
  assume "\<not> Suc p < length src"
  with assms(2) have "p = length src - 1" by simp
  with assms show False by (metis last_conv_nth length_0_conv not_less0)
qed

lemma wf_buf_advance:
  assumes "wf_buf b" and "at_offset b 0 = Some c" and "c \<noteq> NUL"
  shows "Suc (offset b) < length (content b)"
  using assms not_at_end by (auto simp: wf_buf_def at_offset_Some_iff)

subsection \<open>White space\<close>

lemma skip_loop_bounds: "p \<le> length src \<Longrightarrow> p \<le> skip_loop src p \<and> skip_loop src p \<le> length src"
proof (induction src p rule: skip_loop.induct)
  case (1 src p)
  then show ?case by (auto simp: skip_loop.simps [of src p])
qed

lemma skip_ws_fields [simp]:
  "content (buffer_skip_whitespace b) = content b" "depth (buffer_skip_whitespace b) = depth b"
  "mem (buffer_skip_whitespace b) = mem b"
  by (simp_all add: buffer_skip_whitespace_def Let_def)

lemma skip_ws_offset:
  assumes "wf_buf b"
  shows "wf_buf (buffer_skip_whitespace b) \<and> offset b \<le> offset (buffer_skip_whitespace b)"
  using assms skip_loop_bounds [of "offset b" "content b"]
  by (auto simp: buffer_skip_whitespace_def Let_def wf_buf_def)

subsection \<open>Values other than containers\<close>

lemma looking_at_length:
  assumes "looking_at b lit" and "NUL \<notin> set lit" and "lit \<noteq> []" and "wf_buf b"
  shows "offset b + length lit < length (content b)"
proof -
  let ?t = "take (length lit) (drop (offset b) (content b))"
  have fits: "offset b + length lit \<le> length (content b)"
    using assms(1) by (simp add: looking_at_def can_read_def)
  have "c_str ?t = lit"
    using assms(1,2) by (simp add: looking_at_def strncmp_eq_def c_str_no_NUL)
  then have t: "?t = lit"
    using c_str_full [of ?t] fits by simp
  obtain n where n: "length lit = Suc n"
    using assms(3) by (cases lit) auto
  have "content b ! (offset b + n) = ?t ! n"
    using fits n by simp
  also have "\<dots> = last lit"
    using t n assms(3) by (simp add: last_conv_nth)
  finally have "content b ! (offset b + n) \<noteq> NUL"
    using assms(2,3) by (metis last_in_set)
  with assms(4) fits n show ?thesis
    using not_at_end [of "content b" "offset b + n"] by (simp add: wf_buf_def)
qed

lemma value_post_literal:
  assumes "looking_at b lit" and "NUL \<notin> set lit" and "lit \<noteq> []" and "wf_buf b" and "blank item"
    and "t \<in> {cJSON_False, cJSON_True, cJSON_NULL}"
    and "item' = set_ctype t item \<or> item' = set_valueint 1 (set_ctype t item)"
  shows "value_post item b True item' (b\<lparr>offset := offset b + length lit\<rparr>)"
proof -
  have "plain t" using assms(6) by auto
  moreover have "t \<noteq> cJSON_Array \<and> t \<noteq> cJSON_Object" using assms(6) by auto
  ultimately show ?thesis
    using looking_at_length [OF assms(1-4)] assms(3-7)
    by (cases item) (auto simp: value_post_def wf_buf_def blank_def plain_def)
qed

lemma value_post_string:
  assumes "parse_string item b = Some (ok, item', b')" and "wf_buf b" and "blank item"
  shows "value_post item b ok item' b'"
proof -
  note f = parse_string_frame [OF assms(1)]
  show ?thesis
  proof (cases ok)
    case True
    with f assms(2) obtain out where
      out: "item' = set_valuestring (Some out) (set_ctype cJSON_String item)" and
      o: "offset b < offset b'" "offset b' \<le> length (content b)"
        "content b ! (offset b' - 1) = DQUOTE" "content b' = content b" "depth b' = depth b"
        "live (mem b') = live (mem b) + 1"
      by (auto simp: wf_buf_def)
    have "offset b' < length (content b)"
      using not_at_end [of "content b" "offset b' - 1"] o assms(2) by (simp add: wf_buf_def)
    with True out o assms(2,3) show ?thesis
      by (cases item) (auto simp: value_post_def wf_buf_def blank_def plain_def
          has_flag_def ctype_defs)
  qed (use f assms(2) in \<open>auto simp: value_post_def wf_buf_def\<close>)
qed

lemma parse_number_end:
  assumes r: "parse_number item b = Some (True, item', b')" and "wf_buf b"
  shows "offset b' < length (content b)"
proof -
  let ?s = "copy_number 63 (drop (offset b) (content b))"
  have nonul: "c \<in> set (copy_number n s) \<Longrightarrow> c \<noteq> NUL" for c n s
    by (induction n s rule: copy_number.induct) (auto simp: decimal_point_def number_chars_def split: if_splits)
  have pre: "prefix (copy_number n s) (map (\<lambda>c. if c = CHR ''.'' then decimal_point else c) s)" for n s
    by (induction n s rule: copy_number.induct) (auto simp: decimal_point_def number_chars_def)
  have id: "map (\<lambda>c. if c = CHR ''.'' then decimal_point else c) s = s" for s
    by (induction s) (simp_all add: decimal_point_def)
  from pre [of 63 "drop (offset b) (content b)"]
  have p: "prefix ?s (drop (offset b) (content b))" by (simp add: id)
  have "length ?s < length (content b) - offset b"
  proof (rule ccontr)
    assume "\<not> length ?s < length (content b) - offset b"
    moreover from p obtain zs where z: "drop (offset b) (content b) = ?s @ zs"
      by (auto simp: prefix_def)
    then have "length (content b) - offset b = length ?s + length zs"
      by (metis length_append length_drop)
    ultimately have "?s = drop (offset b) (content b)"
      using z by simp
    moreover have "last (drop (offset b) (content b)) = NUL" "drop (offset b) (content b) \<noteq> []"
      using assms(2) by (auto simp: wf_buf_def)
    ultimately show False using nonul [of NUL] last_in_set by metis
  qed
  moreover have "offset b' \<le> offset b + length ?s"
    using r strtod_used_le [of ?s] by (auto simp: parse_number_def run_simps split: prod.splits if_splits)
  ultimately show ?thesis by simp
qed

lemma value_post_number:
  assumes "parse_number item b = Some (ok, item', b')" and "wf_buf b" and "blank item"
  shows "value_post item b ok item' b'"
proof (cases ok)
  case True
  with assms have r: "parse_number item b = Some (True, item', b')" by simp
  have "offset b \<le> length (content b)" using assms(2) by (simp add: wf_buf_def)
  note f = parse_number_offset [OF r this] and i = parse_number_item [OF r]
    and e = parse_number_end [OF r assms(2)]
  have "plain (ctype item')" using i by simp
  with True f i e assms(2,3) show ?thesis
    by (cases item; cases item')
      (auto simp: value_post_def wf_buf_def blank_def plain_def)
next
  case False
  with assms parse_number_fail [of item b item' b'] show ?thesis
    by (simp add: value_post_def wf_buf_def)
qed

subsection \<open>The loop over elements\<close>

text \<open>
  What the loop relies on: parsing an element into a new item either succeeds, with a well-formed
  item (with a name for the members of an object, without one for the elements of an array), or
  leaves an item whose blocks are accounted for.
\<close>

definition element_post :: "bool \<Rightarrow> parse_buffer \<Rightarrow> bool \<Rightarrow> cJSON \<Rightarrow> parse_buffer \<Rightarrow> bool" where
  "element_post named b ok x b' \<longleftrightarrow>
     content b' = content b \<and> offset b' \<le> length (content b) \<and>
     live (mem b') = live (mem b) + blocks [x] - 1 \<and>
     (ok \<longrightarrow> offset b < offset b' \<and> wf_buf b' \<and> depth b' = depth b \<and> wf_json x \<and>
            (item_string x \<noteq> None \<longleftrightarrow> named) \<and> nested_within (CJSON_NESTING_LIMIT - depth b) x)"

definition elements_ok :: "bool \<Rightarrow> nat \<Rightarrow> cJSON list \<Rightarrow> bool" where
  "elements_ok named d xs \<longleftrightarrow>
     (\<forall>x \<in> set xs. wf_json x \<and> (item_string x \<noteq> None \<longleftrightarrow> named)
        \<and> nested_within (CJSON_NESTING_LIMIT - d) x)"

definition loop_post ::
    "bool \<Rightarrow> cJSON list \<Rightarrow> parse_buffer \<Rightarrow> bool \<Rightarrow> cJSON list \<Rightarrow> parse_buffer \<Rightarrow> bool" where
  "loop_post named head b ok head' b' \<longleftrightarrow>
     content b' = content b \<and> offset b' \<le> length (content b) \<and>
     live (mem b') = live (mem b) + blocks head' - blocks head \<and>
     (ok \<longrightarrow> wf_buf b' \<and> offset b < offset b' \<and> depth b' = depth b \<and>
            elements_ok named (depth b) head')"

lemma loop_post_trans:
  assumes "loop_post named head1 b1 ok head2 b2"
    and "content b1 = content b" "depth b1 = depth b" "offset b < offset b1"
    and "live (mem b1) = live (mem b) + blocks head1 - blocks head"
  shows "loop_post named head b ok head2 b2"
  using assms by (auto simp: loop_post_def)

locale element_parser =
  fixes elem :: item_parser
    and named :: bool
    and allowance :: nat
  assumes elem: "wf_buf b \<Longrightarrow> depth b \<le> CJSON_NESTING_LIMIT \<Longrightarrow>
      CJSON_NESTING_LIMIT < depth b + allowance \<Longrightarrow>
      \<exists>ok x b'. elem zero_item b = Some (ok, x, b') \<and> element_post named b ok x b'"
begin

lemma element_loop_ok:
  assumes "last (content b) = NUL" and "offset b + 1 < length (content b)"
    and "length (content b) - offset b \<le> k" and "elements_ok named (depth b) head"
    and "depth b \<le> CJSON_NESTING_LIMIT" and "CJSON_NESTING_LIMIT < depth b + allowance"
  shows "\<exists>ok head' b'. element_loop elem k head b = Some (ok, head', b') \<and>
           loop_post named head b ok head' b'"
  using assms
proof (induction k arbitrary: b head)
  case (Suc k)
  obtain new h where n: "cJSON_New_Item (mem b) = (new, h)" by fastforce
  note live_h = cJSON_New_Item_live [OF n]
  show ?case
  proof (cases new)
    case None
    with n live_h Suc.prems show ?thesis by (auto simp: loop_post_def)
  next
    case (Some x)
    with n have x: "x = zero_item" using cJSON_New_Item_zero by simp
    let ?b0 = "b\<lparr>mem := h, offset := offset b + 1\<rparr>"
    let ?b1 = "buffer_skip_whitespace ?b0"
    have "wf_buf ?b0" using Suc.prems by (simp add: wf_buf_def)
    note b1 = skip_ws_offset [OF this]
    obtain ok x' b2 where p: "elem x ?b1 = Some (ok, x', b2)"
      and post: "element_post named ?b1 ok x' b2"
      using elem [of ?b1] b1 x Suc.prems by auto
    show ?thesis
    proof (cases ok)
      case False
      with n Some p post x live_h show ?thesis by (auto simp: loop_post_def element_post_def)
    next
      case True
      let ?b3 = "buffer_skip_whitespace b2"
      have "wf_buf b2" using post True by (simp add: element_post_def)
      note b3 = skip_ws_offset [OF this]
      have head': "elements_ok named (depth ?b3) (head @ [x'])"
        using post True Suc.prems(4) by (auto simp: element_post_def elements_ok_def)
      have frame: "content ?b3 = content b" "depth ?b3 = depth b" "offset b < offset ?b3"
        "live (mem ?b3) = live (mem b) + blocks (head @ [x']) - blocks head"
        using post True b1 b3 live_h Some x by (auto simp: element_post_def)
      show ?thesis
      proof (cases "at_offset ?b3 0 = Some CHR '',''")
        case comma: True
        have "Suc (offset ?b3) < length (content ?b3)"
          using wf_buf_advance [OF conjunct1 [OF b3] comma] by simp
        moreover have "length (content ?b3) - offset ?b3 \<le> k"
          using frame Suc.prems(2,3) by simp
        ultimately obtain ok2 head2 bend where
          l: "element_loop elem k (head @ [x']) ?b3 = Some (ok2, head2, bend)" and
          lp: "loop_post named (head @ [x']) ?b3 ok2 head2 bend"
          using Suc.IH [of ?b3 "head @ [x']"] Suc.prems head' frame by auto
        with n Some p True comma show ?thesis
          using loop_post_trans [OF lp frame] by auto
      next
        case False
        with n Some p True b3 frame head' show ?thesis
          by (auto simp: loop_post_def wf_buf_def)
      qed
    qed
  qed
qed simp

end

subsection \<open>Containers over a value parser\<close>

text \<open>
  A value parser meets the contract of \<open>value_post\<close> on every blank item.  It is an element
  parser for arrays as it is, and \<open>parse_member\<close> over it is one for objects.
\<close>

locale value_parser =
  fixes pv :: item_parser
    and allowance :: nat
  assumes pv: "wf_buf b \<Longrightarrow> blank item \<Longrightarrow> depth b \<le> CJSON_NESTING_LIMIT \<Longrightarrow>
      CJSON_NESTING_LIMIT < depth b + allowance \<Longrightarrow>
      \<exists>ok item' b'. pv item b = Some (ok, item', b') \<and> value_post item b ok item' b'"
begin

lemma parse_member_ok:
  assumes "wf_buf b" and "depth b \<le> CJSON_NESTING_LIMIT"
    and "CJSON_NESTING_LIMIT < depth b + allowance"
  shows "\<exists>ok x b'. parse_member pv zero_item b = Some (ok, x, b') \<and> element_post True b ok x b'"
proof -
  obtain ok1 x1 b1 where s: "parse_string zero_item b = Some (ok1, x1, b1)"
    using parse_string_defined [of b zero_item] assms(1) by (auto simp: wf_buf_def)
  note post1 = value_post_string [OF s assms(1) blank_zero_item]
  show ?thesis
  proof (cases ok1)
    case False
    with s post1 show ?thesis
      by (auto simp: parse_member_def value_post_def element_post_def)
  next
    case True
    let ?b2 = "buffer_skip_whitespace b1"
    let ?x2 = "set_valuestring None (set_item_string (valuestring x1) x1)"
    have "wf_buf b1" using post1 True by (simp add: value_post_def)
    note b2 = skip_ws_offset [OF this]
    obtain out where "x1 = set_valuestring (Some out) (set_ctype cJSON_String zero_item)"
      using parse_string_frame [OF s] True assms(1) by (auto simp: wf_buf_def)
    then have x2: "blank ?x2" "item_string ?x2 = Some out" "blocks [?x2] = 2" "blocks [x1] = 2"
      by (auto simp: zero_item_def blank_def plain_def has_flag_def ctype_defs)
    have frame: "content ?b2 = content b" "depth ?b2 = depth b" "offset b < offset ?b2"
      "live (mem ?b2) = live (mem b) + 1"
      using post1 True b2 x2 by (auto simp: value_post_def)
    show ?thesis
    proof (cases "at_offset ?b2 0 = Some CHR '':''")
      case False
      with s True frame b2 x2 show ?thesis
        by (auto simp: parse_member_def element_post_def wf_buf_def)
    next
      case colon: True
      let ?b3 = "?b2\<lparr>offset := offset ?b2 + 1\<rparr>"
      let ?b4 = "buffer_skip_whitespace ?b3"
      have "wf_buf ?b3"
        using wf_buf_advance [OF conjunct1 [OF b2] colon] b2 by (simp add: wf_buf_def)
      note b4 = skip_ws_offset [OF this]
      obtain ok x3 b5 where p: "pv ?x2 ?b4 = Some (ok, x3, b5)"
        and post2: "value_post ?x2 ?b4 ok x3 b5"
        using pv [of ?b4 ?x2] b4 x2 frame assms by auto
      have "element_post True b ok x3 b5"
        using post2 frame b4 x2 by (auto simp: value_post_def element_post_def split: if_splits)
      with s True colon p show ?thesis by (auto simp: parse_member_def)
    qed
  qed
qed

lemma value_is_element:
  assumes "value_post zero_item b ok x b'"
  shows "element_post False b ok x b'"
  using assms by (auto simp: value_post_def element_post_def zero_item_def split: if_splits)

end

sublocale value_parser \<subseteq> elements: element_parser pv False allowance
  using pv value_is_element by unfold_locales (metis blank_zero_item)

sublocale value_parser \<subseteq> members: element_parser "parse_member pv" True allowance
  using parse_member_ok by unfold_locales blast

text \<open>What follows the loop, for both containers.\<close>

lemma container_fail_post:
  assumes "content b = content b0" and "offset b \<le> length (content b)"
    and "live (mem b) = live (mem b0) + blocks head"
  shows "\<exists>b'. container_fail head item b = Some (False, item, b') \<and> value_post item b0 False item b'"
  using assms by (auto simp: container_fail_def value_post_def)

lemma container_success_post:
  assumes t: "t = cJSON_Array \<and> \<not> named \<or> t = cJSON_Object \<and> named"
    and "blank item" and "depth b0 < CJSON_NESTING_LIMIT"
    and "wf_buf b" and "at_offset b 0 = Some c" and "c \<noteq> NUL"
    and "content b = content b0" "depth b = depth b0 + 1" "offset b0 \<le> offset b"
    and "live (mem b) = live (mem b0) + blocks head" and "elements_ok named (depth b) head"
  shows "\<exists>item' b'. container_success t head item b = Some (True, item', b') \<and>
           value_post item b0 True item' b'"
proof -
  have "plain t" using t by auto
  moreover have "Suc (offset b) < length (content b)"
    using wf_buf_advance assms by blast
  ultimately show ?thesis
    using assms
    by (cases item) (auto simp: container_success_def value_post_def wf_buf_def blank_def plain_def
        elements_ok_def)
qed

context value_parser
begin

text \<open>The text between the brackets, once the opening one has been read.\<close>

lemma container_body_ok:
  fixes named t c item b0 elem
  defines "b2 \<equiv> buffer_skip_whitespace (b0\<lparr>depth := depth b0 + 1, offset := offset b0 + 1\<rparr>)"
  assumes t: "t = cJSON_Array \<and> \<not> named \<and> elem = pv \<or>
              t = cJSON_Object \<and> named \<and> elem = parse_member pv"
    and wf: "wf_buf b0" and bl: "blank item" and lim: "depth b0 < CJSON_NESTING_LIMIT"
      "CJSON_NESTING_LIMIT \<le> depth b0 + allowance"
    and op: "at_offset b0 0 = Some c0" "c0 \<noteq> NUL" and cl: "c \<noteq> NUL"
  shows "\<exists>ok item' b'. value_post item b0 ok item' b' \<and>
    (if at_offset b2 0 = Some c then container_success t [] item b2
     else if \<not> can_access_at_index b2 0 then container_fail [] item (b2\<lparr>offset := offset b2 - 1\<rparr>)
     else do {
       (ok, head, b3) \<leftarrow> element_loop elem (length (content b2)) [] (b2\<lparr>offset := offset b2 - 1\<rparr>);
       if \<not> ok \<or> at_offset b3 0 \<noteq> Some c then container_fail head item b3
       else container_success t head item b3 }) = Some (ok, item', b')"
proof -
  have "wf_buf (b0\<lparr>depth := depth b0 + 1, offset := offset b0 + 1\<rparr>)"
    using wf_buf_advance [OF wf op] wf by (simp add: wf_buf_def)
  from skip_ws_offset [OF this]
  have b2: "wf_buf b2" "offset b0 < offset b2" "content b2 = content b0"
      "depth b2 = depth b0 + 1" "mem b2 = mem b0"
    by (simp_all add: b2_def)
  have t': "t = cJSON_Array \<and> \<not> named \<or> t = cJSON_Object \<and> named" using t by blast
  show ?thesis
  proof (cases "at_offset b2 0 = Some c")
    case True
    with container_success_post [OF t' bl lim(1) b2(1) True cl b2(3,4), of "[]"] b2
    show ?thesis by (auto simp: elements_ok_def)
  next
    case no_close: False
    let ?b3 = "b2\<lparr>offset := offset b2 - 1\<rparr>"
    have acc: "can_access_at_index b2 0"
      using b2(1) by (simp add: can_access_at_index_def wf_buf_def)
    have pre: "last (content ?b3) = NUL" "offset ?b3 + 1 < length (content ?b3)"
      "length (content ?b3) - offset ?b3 \<le> length (content b2)"
      "elements_ok named (depth ?b3) []" "depth ?b3 \<le> CJSON_NESTING_LIMIT"
      "CJSON_NESTING_LIMIT < depth ?b3 + allowance"
      using b2 lim by (auto simp: wf_buf_def elements_ok_def)
    from t have "\<exists>ok head b4. element_loop elem (length (content b2)) [] ?b3 = Some (ok, head, b4) \<and>
        loop_post named [] ?b3 ok head b4"
      using elements.element_loop_ok [OF pre(1,2,3) _ pre(5,6), of "[]"]
        members.element_loop_ok [OF pre(1,2,3) _ pre(5,6), of "[]"] pre(4) by (elim disjE) simp_all
    then obtain ok head b4 where
      l: "element_loop elem (length (content b2)) [] ?b3 = Some (ok, head, b4)" and
      lp: "loop_post named [] ?b3 ok head b4"
      by blast
    show ?thesis
    proof (cases "\<not> ok \<or> at_offset b4 0 \<noteq> Some c")
      case True
      with no_close acc l lp b2 container_fail_post [of b4 b0 head item] show ?thesis
        by (auto simp: loop_post_def)
    next
      case False
      then have close: "at_offset b4 0 = Some c" and ok by auto
      have post: "wf_buf b4" "content b4 = content b0" "depth b4 = depth b0 + 1"
        "offset b0 \<le> offset b4" "live (mem b4) = live (mem b0) + blocks head"
        "elements_ok named (depth b4) head"
        using lp \<open>ok\<close> b2 by (auto simp: loop_post_def)
      note container_success_post [OF t' bl lim(1) post(1) close cl post(2-6)]
      with no_close acc l close \<open>ok\<close> show ?thesis by (auto simp del: One_nat_def)
    qed
  qed
qed

lemma parse_array_ok:
  assumes "wf_buf b" and "blank item" and "CJSON_NESTING_LIMIT \<le> depth b + allowance"
  shows "\<exists>ok item' b'. parse_array pv item b = Some (ok, item', b') \<and> value_post item b ok item' b'"
proof (cases "CJSON_NESTING_LIMIT \<le> depth b \<or> at_offset b 0 \<noteq> Some CHR ''['' ")
  case True
  with assms(1) show ?thesis
    by (auto simp: parse_array_def value_post_def wf_buf_def at_offset_def run_simps container_fail_def)
next
  case False
  with container_body_ok [of cJSON_Array False pv b item "CHR ''[''" "CHR '']''"] assms
  show ?thesis by (fastforce simp: parse_array_def Let_def at_offset_def)
qed

lemma parse_object_ok:
  assumes "wf_buf b" and "blank item" and "CJSON_NESTING_LIMIT \<le> depth b + allowance"
  shows "\<exists>ok item' b'. parse_object pv item b = Some (ok, item', b') \<and> value_post item b ok item' b'"
proof (cases "CJSON_NESTING_LIMIT \<le> depth b \<or> at_offset b 0 \<noteq> Some CHR ''{'' ")
  case True
  with assms(1) show ?thesis
    by (auto simp: parse_object_def value_post_def wf_buf_def at_offset_def run_simps container_fail_def)
next
  case False
  with container_body_ok [of cJSON_Object True "parse_member pv" b item "CHR ''{''" "CHR ''}''"] assms
  show ?thesis by (fastforce simp: parse_object_def Let_def at_offset_def)
qed

end

subsection \<open>The parser of values meets its contract\<close>

lemma result_iff:
  "(\<exists>ok x b'. r = Some (ok, x, b') \<and> P ok x b') \<longleftrightarrow>
     (case r of None \<Rightarrow> False | Some (ok, x, b') \<Rightarrow> P ok x b')"
  by (auto split: option.splits)

lemma value_parser_parse_value: "value_parser (parse_value fuel) fuel"
proof (induction fuel)
  case 0
  show ?case by unfold_locales simp
next
  case (Suc fuel)
  show ?case
  proof (unfold_locales)
    fix b item
    assume wf: "wf_buf b" and bl: "blank item" and lim: "depth b \<le> CJSON_NESTING_LIMIT"
      "CJSON_NESTING_LIMIT < depth b + Suc fuel"
    then obtain c where c: "at_offset b 0 = Some c"
      by (auto simp: at_offset_Some_iff wf_buf_def)
    note lit = value_post_literal [OF _ _ _ wf bl]
    note cont = value_parser.parse_array_ok [OF Suc.IH wf bl] value_parser.parse_object_ok [OF Suc.IH wf bl]
    have str: "\<exists>ok item' b'. parse_string item b = Some (ok, item', b') \<and> value_post item b ok item' b'"
      using parse_string_defined [where b = b and item = item] value_post_string [OF _ wf bl] wf
      by (force simp: wf_buf_def)
    have num: "\<exists>ok item' b'. parse_number item b = Some (ok, item', b') \<and> value_post item b ok item' b'"
      using parse_number_defined [where b = b and item = item] value_post_number [OF _ wf bl] wf
      by (force simp: wf_buf_def)
    have none: "value_post item b False item b"
      using wf by (simp add: value_post_def wf_buf_def)
    have null: "value_post item b True (set_ctype cJSON_NULL item) (b\<lparr>offset := offset b + 4\<rparr>)"
      if "looking_at b ''null''"
      using lit [of "''null''" cJSON_NULL] that by (simp add: eval_nat_numeral)
    have false: "value_post item b True (set_ctype cJSON_False item) (b\<lparr>offset := offset b + 5\<rparr>)"
      if "looking_at b ''false''"
      using lit [of "''false''" cJSON_False] that by (simp add: eval_nat_numeral)
    have true: "value_post item b True (set_valueint 1 (set_ctype cJSON_True item))
        (b\<lparr>offset := offset b + 4\<rparr>)"
      if "looking_at b ''true''"
      using lit [of "''true''" cJSON_True] that by (simp add: eval_nat_numeral)
    have "CJSON_NESTING_LIMIT \<le> depth b + fuel" using lim by simp
    note cont = cont(1) [OF this] cont(2) [OF this]
    show "\<exists>ok item' b'. parse_value (Suc fuel) item b = Some (ok, item', b') \<and>
        value_post item b ok item' b'"
      using c str num none cont null false true
      unfolding result_iff by (simp add: if_cancel)
  qed
qed

text \<open>The entry points run the parser with this fuel.\<close>

interpretation json: value_parser "parse_value parse_fuel" parse_fuel
  by (rule value_parser_parse_value)

subsection \<open>The entry points\<close>

text \<open>What a run of \<open>cJSON_ParseWithOpts\<close> on a non-NULL text of \<open>n\<close> bytes leaves behind.\<close>

definition outcome_ok :: "bytes \<Rightarrow> bool \<Rightarrow> heap \<Rightarrow> parse_outcome \<Rightarrow> bool" where
  "outcome_ok v rnt h out \<longleftrightarrow>
     (\<exists>p. parse_end out = Some p \<and> p \<le> length (c_str v) \<and>
        (case parsed out of
           None \<Rightarrow> live (out_heap out) = live h \<and> error_json out = Some v \<and> error_position out = p
         | Some x \<Rightarrow> live (out_heap out) = live h + blocks [x] \<and> wf_json x \<and> item_string x = None \<and>
             nested_within CJSON_NESTING_LIMIT x \<and> error_json out = None \<and>
             (\<not> rnt \<or> p = length (c_str v))))"

lemma parse_failed_ok:
  assumes "content b = c_str v @ [NUL]"
    and "live (mem b) = live h + (case item of None \<Rightarrow> 0 | Some x \<Rightarrow> blocks [x])"
  shows "outcome_ok v rnt h (parse_failed v item b)"
  using assms by (auto simp: outcome_ok_def parse_failed_def Let_def split: option.splits)

lemma skip_utf8_bom_ok:
  assumes "wf_buf b" and "offset b = 0"
  shows "\<exists>b'. skip_utf8_bom b = Some b' \<and> wf_buf b' \<and> content b' = content b \<and>
    depth b' = depth b \<and> mem b' = mem b"
  using assms by (auto simp: skip_utf8_bom_def wf_buf_def can_access_at_index_def)

lemma NUL_only_at_end:
  assumes "at_offset b 0 = Some NUL" and "content b = c_str v @ [NUL]"
  shows "offset b = length (c_str v)"
proof (rule ccontr)
  assume "offset b \<noteq> length (c_str v)"
  with assms have "offset b < length (c_str v)" and "c_str v ! offset b = NUL"
    by (auto simp: at_offset_Some_iff nth_append split: if_splits)
  then have "NUL \<in> set (c_str v)" by (metis nth_mem)
  then show False by simp
qed

lemma ParseWithOpts_ok:
  "\<exists>out. cJSON_ParseWithOpts (Some v) rnt h = Some out \<and> outcome_ok v rnt h out"
proof -
  obtain new h1 where n: "cJSON_New_Item h = (new, h1)" by fastforce
  note live1 = cJSON_New_Item_live [OF n]
  let ?b = "\<lparr>content = c_str v @ [NUL], offset = 0, depth = 0, mem = h1\<rparr>"
  show ?thesis
  proof (cases new)
    case None
    with n live1 parse_failed_ok [of ?b v h None] show ?thesis
      by (simp add: cJSON_ParseWithOpts_def)
  next
    case (Some x)
    with n have x: "x = zero_item" using cJSON_New_Item_zero by simp
    have "wf_buf ?b" by (simp add: wf_buf_def)
    from skip_utf8_bom_ok [OF this] obtain b0 where b0: "skip_utf8_bom ?b = Some b0"
      "wf_buf b0" "content b0 = c_str v @ [NUL]" "depth b0 = 0" "mem b0 = h1"
      by auto
    let ?b1 = "buffer_skip_whitespace b0"
    note b1 = skip_ws_offset [OF b0(2)]
    obtain ok x' b2 where p: "parse_value parse_fuel x ?b1 = Some (ok, x', b2)"
      and post: "value_post x ?b1 ok x' b2"
      using json.pv [of ?b1 x] b1 b0 x by (auto simp: parse_fuel_def)
    have c2: "content b2 = c_str v @ [NUL]" using post b0 by (simp add: value_post_def)
    show ?thesis
    proof (cases ok)
      case False
      with post b0 x Some live1 have "live (mem b2) = live h + blocks [x']"
        by (simp add: value_post_def)
      with n Some b0 p False parse_failed_ok [of b2 v h "Some x'"] c2 show ?thesis
        by (simp add: cJSON_ParseWithOpts_def)
    next
      case True
      let ?b3 = "if rnt then buffer_skip_whitespace b2 else b2"
      have w2: "wf_buf b2" and item: "wf_json x'" "item_string x' = None"
        "nested_within CJSON_NESTING_LIMIT x'" "live (mem b2) = live h + blocks [x']"
        using post True b0 x Some live1 by (simp_all add: value_post_def zero_item_def)
      have b3: "wf_buf ?b3" "content ?b3 = c_str v @ [NUL]" "mem ?b3 = mem b2"
        using skip_ws_offset [OF w2] w2 c2 by simp_all
      show ?thesis
      proof (cases "rnt \<and> at_offset ?b3 0 \<noteq> Some NUL")
        case True
        with n Some b0 p \<open>ok\<close> b3 item parse_failed_ok [of ?b3 v h "Some x'"] show ?thesis
          by (auto simp: cJSON_ParseWithOpts_def Let_def)
      next
        case False
        have "outcome_ok v rnt h \<lparr>parsed = Some x', parse_end = Some (offset ?b3),
            error_json = None, error_position = 0, out_heap = mem ?b3\<rparr>"
          using False NUL_only_at_end [OF _ b3(2)] b3 item
          by (auto simp: outcome_ok_def wf_buf_def)
        with n Some b0 p \<open>ok\<close> False show ?thesis
          by (simp add: cJSON_ParseWithOpts_def Let_def del: split_paired_Ex)
      qed
    qed
  qed
qed

lemma parsed_doc_wf:
  assumes "cJSON_Parse v h = Some out" and "parsed out = Some doc"
  shows "wf_json doc" and "live (out_heap out) = live h + blocks [doc]"
  using ParseWithOpts_ok [of v False h] assms
  by (auto simp: cJSON_Parse_def outcome_ok_def)

subsection \<open>Properties\<close>

text \<open>
  C1. Parsing is total, safe and leak-free: for every text, every option and every behaviour of
  the allocator, \<open>cJSON_ParseWithOpts\<close> returns (no read outside the text, no endless loop or
  recursion); when it returns an item, the item is well-formed JSON, has no name, is nested no
  deeper than the limit, and the live blocks grew by exactly the blocks the item owns; when it
  returns NULL, nothing it allocated is left.
\<close>

theorem cJSON_ParseWithOpts_safe:
  "\<exists>out. cJSON_ParseWithOpts (Some v) rnt h = Some out \<and>
     (case parsed out of
        None \<Rightarrow> live (out_heap out) = live h
      | Some x \<Rightarrow> wf_json x \<and> item_string x = None \<and> nested_within CJSON_NESTING_LIMIT x \<and>
          live (out_heap out) = live h + blocks [x])"
proof -
  obtain out where "cJSON_ParseWithOpts (Some v) rnt h = Some out" and "outcome_ok v rnt h out"
    using ParseWithOpts_ok by blast
  then show ?thesis by (auto simp: outcome_ok_def split: option.splits)
qed

text \<open>
  The position a parse reports lies within the text or on its terminator.  On failure it is
  the error position, and the global error names the text; on success with
  \<open>require_null_terminated\<close> it is the terminator, so nothing but white space follows the value.
\<close>

theorem cJSON_ParseWithOpts_end:
  assumes "cJSON_ParseWithOpts (Some v) rnt h = Some out"
  shows "\<exists>p \<le> length (c_str v). parse_end out = Some p \<and>
    (parsed out = None \<longrightarrow> error_json out = Some v \<and> error_position out = p) \<and>
    (parsed out \<noteq> None \<and> rnt \<longrightarrow> p = length (c_str v))"
proof -
  have "outcome_ok v rnt h out"
    using ParseWithOpts_ok [of v rnt h] assms by auto
  then show ?thesis by (auto simp: outcome_ok_def split: option.splits)
qed

lemma cJSON_ParseWithOpts_end_witness:
  "\<exists>out. cJSON_ParseWithOpts (Some ''[[]] x'') True fresh_heap = Some out \<and>
     parsed out = None \<and> error_position out = 5"
proof -
  have "map_option (\<lambda>out. (parsed out, parse_end out))
      (cJSON_ParseWithOpts (Some ''[[]] x'') True fresh_heap) = Some (None, Some 5)"
    by code_simp
  then obtain out where out: "cJSON_ParseWithOpts (Some ''[[]] x'') True fresh_heap = Some out"
    and "parsed out = None" "parse_end out = Some 5"
    by auto
  with cJSON_ParseWithOpts_end [OF out] show ?thesis by auto
qed

end
