(* ===== verification/DlcClaims.thy ===== *)
theory DlcClaims
  imports DlcProps DlcHmiProps CJsonParseProps
begin

section \<open>The server: properties of handlers and runs\<close>

text \<open>
  What holds of every run, and what single handlers do at their edges: closed connections,
  oversized and malformed input, the end of a request.
\<close>

subsection \<open>Runs\<close>

lemma run_keeps_state_legal_facts:
  assumes "server.run cfg es (boot h) = Some w"
  shows "g_stat w \<in> legal_stats" and "\<not> g_stat_lock w" and "fixed_part w = fixed_part (boot h)"
proof -
  have "started (boot h)" by (auto simp: started_def)
  from server.run_init_inv [OF this assms] have "server_inv w" .
  then show "g_stat w \<in> legal_stats" and "\<not> g_stat_lock w" and "fixed_part w = fixed_part (boot h)"
    using fixed_boot by (simp_all add: server_inv_def)
qed


definition test_config :: config where
  "test_config = \<lparr>char_signed = False, log_level_default = IDCM_LOG_LEVEL_VERBOSE, fresh_byte = NUL\<rparr>"


subsection \<open>Closed connections\<close>

lemma status_after_dmc_close_undefined_facts:
  assumes "dmc w = Some c" and "effect cfg (Dmc_close c) w = Some w1"
  shows "dmc w1 = Some c" and "effect cfg (Monitor_request (Http_message (Some block) n)) w1 = None"
proof -
  from assms(2) have w1: "w1 = unlock (lock (close_conn c w))"
    by (simp add: dmc_msg_handler_def)
  then show d: "dmc w1 = Some c"
    using assms(1) by (simp add: unlock_def lock_def close_conn_def)
  have "recv_mbuf w1 c = None"
    by (simp add: w1 unlock_def lock_def close_conn_def)
  with d show "effect cfg (Monitor_request (Http_message (Some block) n)) w1 = None"
    by (auto simp: cgw_monitor_handle_status_def mg_send_def Let_def split: bind_splits)
qed

text \<open>
  C37. The pointer to the DMC connection outlives the connection: after the DMC has closed it,
  the next status report of the orchestrator is sent through the dangling pointer, whatever the
  report says.
\<close>

theorem status_after_dmc_close_undefined:
  assumes "dmc w = Some c" and "effect cfg (Dmc_close c) w = Some w1"
  shows "dmc w1 = Some c \<and> effect cfg (Monitor_request (Http_message (Some block) n)) w1 = None"
  using status_after_dmc_close_undefined_facts [OF assms] by blast

lemma status_after_dmc_close_undefined_witness:
  "\<exists>w1. effect test_config (Dmc_close (Dmc_conn 0)) ((boot fresh_heap)\<lparr>dmc := Some (Dmc_conn 0)\<rparr>) = Some w1 \<and>
     effect test_config (Monitor_request (Http_message (Some ''{}'') 2)) w1 = None"
proof -
  have "\<exists>w1. effect test_config (Dmc_close (Dmc_conn 0)) ((boot fresh_heap)\<lparr>dmc := Some (Dmc_conn 0)\<rparr>) = Some w1"
    by (simp add: dmc_msg_handler_def)
  then obtain w1 where w1:
    "effect test_config (Dmc_close (Dmc_conn 0)) ((boot fresh_heap)\<lparr>dmc := Some (Dmc_conn 0)\<rparr>) = Some w1"
    by blast
  have "dmc ((boot fresh_heap)\<lparr>dmc := Some (Dmc_conn 0)\<rparr>) = Some (Dmc_conn 0)" by simp
  from status_after_dmc_close_undefined [OF this w1] w1 show ?thesis by blast
qed

subsection \<open>Messages that are not messages\<close>

text \<open>
  With logging as it is built by default, the handler of the status request has no defined
  behaviour for any event but a message: it reads the body before it looks at the event, so the
  report of a connection, of a timer and of the end of the connection all read through a pointer
  that does not point to a message.
\<close>

theorem tdr_stat_needs_message:
  assumes "log_level_default cfg = IDCM_LOG_LEVEL_VERBOSE" and "body_p d = None"
  shows "cgw_handler_tdr_stat cfg c ev d w = None"
  using assms by (simp add: cgw_handler_tdr_stat_def logs_info_def IDCM_LOG_LEVEL_VERBOSE_def
      IDCM_LOG_LEVEL_INFO_def)

lemma tdr_stat_needs_message_witness:
  "cgw_handler_tdr_stat test_config (Cgw_conn 0) MG_EV_CLOSE No_data (boot fresh_heap) = None"
  by (rule tdr_stat_needs_message) (simp_all add: test_config_def)

text \<open>
  The HMI can stop the server with an array: a request whose JSON root is an array with any
  element makes the parser compare a null name.
\<close>

theorem hmi_array_request_undefined:
  assumes "c_string_at payload = Some v" and "cJSON_Parse v (wheap w) = Some out"
    and "parsed out = Some doc" and "ctype doc = cJSON_Array" and "child doc \<noteq> []"
  shows "hmi_payload_parser seen payload len w = None"
proof -
  have "wf_json doc" by (rule parsed_doc_wf [OF assms(2,3)])
  then have "\<forall>x \<in> set (child doc). item_string x = None"
    using assms(4) by (cases doc) (auto simp: ctype_defs)
  with assms(5) obtain x xs where "child doc = x # xs" "item_string x = None"
    by (cases "child doc") auto
  with assms(1-3) show ?thesis by (simp add: hmi_payload_parser_def Let_def)
qed

lemma hmi_array_request_undefined_witness:
  "hmi_payload_parser (\<lambda>_. False) (''[[]]'' @ [NUL]) 0 (boot fresh_heap) = None"
proof -
  have h: "wheap (boot fresh_heap) = fresh_heap"
    by (simp add: boot_def init_context_def init_hmi_objs_def zero_world_def Let_def)
  have "map_option (\<lambda>out. map_option (\<lambda>x. (ctype x = cJSON_Array, child x \<noteq> [])) (parsed out))
      (cJSON_Parse ''[[]]'' fresh_heap) = Some (Some (True, True))"
    by code_simp
  then obtain out doc where "cJSON_Parse ''[[]]'' fresh_heap = Some out" "parsed out = Some doc"
    "ctype doc = cJSON_Array" "child doc \<noteq> []"
    by auto
  then show ?thesis
    by (intro hmi_array_request_undefined [where v = "''[[]]''"]) (simp_all add: h c_string_at_def)
qed

subsection \<open>Arrays that are too small\<close>

lemma length_inventory: "length g_stub_inventory = 1022"
  by (simp add: g_stub_inventory_def)

lemma inventory_no_NUL: "NUL \<notin> set g_stub_inventory"
  by (simp add: g_stub_inventory_def)

lemma inventory_overruns_facts:
  assumes "in_bounds w" and "dmc_resp_inventory c w = Some w'"
  shows "length (inventory_resp w') = 1027" and "\<not> in_bounds w'"
proof -
  have "length (inventory_resp w) = 1024"
    using assms(1) by (simp add: in_bounds_def arrays_def)
  with assms(2) show l: "length (inventory_resp w') = 1027"
    by (auto simp: dmc_resp_inventory_def Let_def mg_send_def run_simps c_str_no_NUL [OF inventory_no_NUL]
        length_inventory)
  then show "\<not> in_bounds w'" by (simp add: in_bounds_def arrays_def)
qed

text \<open>
  C38. The inventory report overruns its array: the constant has 1022 characters, and behind the
  four header bytes it needs 1027 bytes with its terminator where the array has 1024, whatever
  the world and the connection.
\<close>

theorem inventory_overruns:
  assumes "in_bounds w" and "dmc_resp_inventory c w = Some w'"
  shows "length (inventory_resp w') = 1027 \<and> \<not> in_bounds w'"
  using inventory_overruns_facts [OF assms] by blast

lemma inventory_overruns_witness:
  "\<exists>w'. dmc_resp_inventory (Dmc_conn 0) (open_conn (Dmc_conn 0) (boot fresh_heap)) = Some w' \<and>
     length (inventory_resp w') = 1027"
proof -
  have b: "in_bounds (open_conn (Dmc_conn 0) (boot fresh_heap))"
    using in_bounds_boot by (simp add: in_bounds_def open_conn_def arrays_def)
  have "\<exists>w'. dmc_resp_inventory (Dmc_conn 0) (open_conn (Dmc_conn 0) (boot fresh_heap)) = Some w'"
    by (simp add: dmc_resp_inventory_def Let_def mg_send_def open_conn_def)
  then show ?thesis using inventory_overruns [OF b] by blast
qed

text \<open>
  The identifier of a request is copied without a check: after a request whose last
  \<open>uuid\<close> member is a string of \<open>n\<close> characters, the 64-byte array is intact if and only if \<open>n\<close> is at
  most 63.
\<close>

theorem uuid_copy_bound:
  assumes "item_string x = Some k" and "c_str k = ''uuid''" and "valuestring x = Some s"
    and "length uuid = 64" and "NUL \<notin> set s"
  shows "\<exists>uuid'. payload_loop [x] code uuid = Some (True, code, uuid') \<and>
    (length uuid' = 64 \<longleftrightarrow> length s \<le> 63)"
  using assms by (auto simp: byte_simps strcpy_def c_str_no_NUL)

lemma uuid_copy_bound_witness:
  "\<exists>uuid'. payload_loop [CJson cJSON_String [] (Some (replicate 70 CHR ''a'')) 0 (DFin False 0) (Some ''uuid'')]
     1 (zeros 64) = Some (True, 1, uuid') \<and> length uuid' \<noteq> 64"
proof -
  have "\<exists>uuid'. payload_loop [CJson cJSON_String [] (Some (replicate 70 CHR ''a'')) 0 (DFin False 0) (Some ''uuid'')]
     1 (zeros 64) = Some (True, 1, uuid') \<and> (length uuid' = 64 \<longleftrightarrow> length (replicate 70 CHR ''a'') \<le> 63)"
    by (rule uuid_copy_bound [where k = "''uuid''"]) simp_all
  then show ?thesis by auto
qed

subsection \<open>The manifest of the DMC\<close>



subsection \<open>The end of a request\<close>

lemma exit_on_close: "cgw_thread_exit (handler a (on_close a w))"
  by (simp add: on_close_def set_nc_def set_exit_def Let_def)

lemma handler_end_thread [simp]: "handler a (end_thread t w) = handler a w"
  by (rule handler_update; simp add: end_thread_def)

lemma handler_open_conn [simp]: "handler a (open_conn c w) = handler a w"
  by (rule handler_update; simp add: open_conn_def)

lemma handler_mg_start_thread [simp]: "handler a (mg_start_thread t w) = handler a w"
  by (rule handler_update; simp add: mg_start_thread_def)

lemma handler_start [simp]: "handler b (cgw_msg_thread_start a w) = handler b w"
  by (rule handler_update; cases "payload_gener (handler a w)";
      simp add: cgw_msg_thread_start_def cgw_api_payload_pkg_new_def Let_def)

lemma close_handler:
  assumes "a \<noteq> TdrStat \<or> \<not> logs_info cfg"
  shows "cgw_handler cfg a c MG_EV_CLOSE No_data w = Some (on_close a w)"
  using assms
  by (cases a) (auto simp: cgw_handler_pkg_new_def cgw_handler_pkg_stat_def cgw_handler_tdr_run_def
      cgw_handler_tdr_stat_def)

lemma second_request_never_polls_facts:
  assumes "is_open c w" and "a \<noteq> TdrStat \<or> \<not> logs_info cfg"
    and "cgw_msg_thread_finish cfg a c [] w = Some w1"
  shows "cgw_thread_exit (handler a w1)"
    and "effect cfg (Cgw_starts a c') w1 = Some w2 \<Longrightarrow> \<not> enabled (Cgw_event a c' ev d) w2"
proof -
  have "is_open c (cgw_msg_thread_end a w)"
    using assms(1) by (cases a) (simp_all add: is_open_def cgw_msg_thread_end_def set_exit_def)
  with assms(2,3) have w1: "w1 = end_thread (Cgw_msg_polling a c)
      (on_close a (close_conn c (cgw_msg_thread_end a w)))"
    by (simp add: cgw_msg_thread_finish_def deliver_def close_handler)
  then show e: "cgw_thread_exit (handler a w1)"
    by (simp add: exit_on_close)
  show "\<not> enabled (Cgw_event a c' ev d) w2" if "effect cfg (Cgw_starts a c') w1 = Some w2"
    using that e by auto
qed



text \<open>
  The payload of the two status requests is not a JSON document: the text has one closing
  brace too many, and a parse that requires the end of the text rejects it.
\<close>

theorem default_payload_not_json:
  "\<exists>out. cJSON_ParseWithOpts (Some cgw_api_payload_default) True fresh_heap = Some out \<and>
     parsed out = None \<and> error_position out = 17"
proof -
  have "map_option (\<lambda>out. (parsed out, error_position out))
      (cJSON_ParseWithOpts (Some cgw_api_payload_default) True fresh_heap) = Some (None, 17)"
    by code_simp
  then show ?thesis by auto
qed

end
