(* ===== verification/DlcManifest.thy ===== *)
theory DlcManifest
  imports CJsonQuery CJsonParseProps
begin

section \<open>The level-one manifest\<close>

text \<open>
  \<open>bs_dlc_utils.c\<close> and its header: the manifest structure with its fixed-size character
  arrays, and \<open>bs_parse_l1_manifest\<close>.  A character array is the list of all its bytes, so its
  length never changes; \<open>strncpy\<close> overwrites a prefix of it.
\<close>

subsection \<open>The structures\<close>

datatype err_json_cfg =
  JCFG_ERR_OK | JCFG_ERR_BAD_DOCUMENT | JCFG_ERR_SYSTEM_CALL_FAIL | JCFG_ERR_ALLOC_MEM_FAIL

datatype bs_dev_type =
  BS_DEV_TYPE_NONE | BS_DEV_TYPE_ETH | BS_DEV_TYPE_CAN | BS_DEV_TYPE_CAN_FD

definition BS_MAX_MANI_PKG_NUM :: nat where "BS_MAX_MANI_PKG_NUM = 4"
definition BS_MAX_DEV_ID_LEN :: nat where "BS_MAX_DEV_ID_LEN = 32"
definition BS_PKG_CHK_SUM_LEN :: nat where "BS_PKG_CHK_SUM_LEN = 32"
definition BS_MAX_PKG_URL_LEN :: nat where "BS_MAX_PKG_URL_LEN = 128"

lemmas limit_defs = BS_MAX_MANI_PKG_NUM_def BS_MAX_DEV_ID_LEN_def BS_PKG_CHK_SUM_LEN_def
  BS_MAX_PKG_URL_LEN_def

record l1_pkg =
  dev_type :: bs_dev_type
  dev_id :: bytes
  chk_sum :: bytes
  pkg_url :: bytes
  pkg_siz :: int

record l1_manifest =
  pkg_num :: nat
  packages :: "l1_pkg list"

text \<open>The structure after the \<open>memset\<close> at the start of the function.\<close>

definition zero_pkg :: l1_pkg where
  "zero_pkg =
     \<lparr>dev_type = BS_DEV_TYPE_NONE, dev_id = replicate (BS_MAX_DEV_ID_LEN + 1) NUL,
      chk_sum = replicate (BS_PKG_CHK_SUM_LEN + 1) NUL,
      pkg_url = replicate (BS_MAX_PKG_URL_LEN + 1) NUL, pkg_siz = 0\<rparr>"

definition zero_manifest :: l1_manifest where
  "zero_manifest = \<lparr>pkg_num = 0, packages = replicate BS_MAX_MANI_PKG_NUM zero_pkg\<rparr>"

text \<open>\<open>strncpy\<close> from a string into an array: exactly \<open>n\<close> bytes are written.\<close>

definition strncpy :: "bytes \<Rightarrow> bytes \<Rightarrow> nat \<Rightarrow> bytes option" where
  "strncpy dst src n =
     (if n \<le> length dst
      then let t = take n (c_str src) in Some (t @ replicate (n - length t) NUL @ drop n dst)
      else None)"

subsection \<open>The parser\<close>

definition recognise_dev_type :: "bytes \<Rightarrow> bs_dev_type option" where
  "recognise_dev_type s =
     (if strcmp ''eth'' s = 0 then Some BS_DEV_TYPE_ETH
      else if strcmp ''can'' s = 0 then Some BS_DEV_TYPE_CAN
      else if strcmp ''can-fd'' s = 0 then Some BS_DEV_TYPE_CAN_FD
      else None)"

text \<open>
  The body of the loop for the package \<open>i\<close>.  The result is \<open>None\<close> where the C code would stop
  in an assertion or read through a null pointer.
\<close>

definition parse_package ::
    "cJSON option \<Rightarrow> nat \<Rightarrow> l1_manifest \<Rightarrow> (err_json_cfg \<times> l1_manifest) option" where
  "parse_package pkgs i m =
     do {
       jpkg \<leftarrow> cJSON_GetArrayItem pkgs (int i);
       let ecu = cJSON_GetObjectItem (Some jpkg) ''ecu'';
           typ = cJSON_GetObjectItem (Some jpkg) ''deviceType'';
           res = cJSON_GetObjectItem (Some jpkg) ''resources'';
           sm = cJSON_GetObjectItem res ''fullDownloadChecksum'';
           url = cJSON_GetObjectItem res ''fullDownloadUrl'';
           siz = cJSON_GetObjectItem res ''fullSize''
       in if \<not> cJSON_IsString ecu then Some (JCFG_ERR_BAD_DOCUMENT, m)
          else if \<not> cJSON_IsString typ then Some (JCFG_ERR_BAD_DOCUMENT, m)
          else if \<not> cJSON_IsObject res then Some (JCFG_ERR_BAD_DOCUMENT, m)
          else if \<not> cJSON_IsString sm then Some (JCFG_ERR_BAD_DOCUMENT, m)
          else if \<not> cJSON_IsString url then Some (JCFG_ERR_BAD_DOCUMENT, m)
          else if \<not> cJSON_IsNumber siz then Some (JCFG_ERR_BAD_DOCUMENT, m)
          else do {
            pkg \<leftarrow> rd (packages m) i;
            t \<leftarrow> typ \<bind> valuestring;
            case recognise_dev_type t of
              None \<Rightarrow> Some (JCFG_ERR_BAD_DOCUMENT, m)
            | Some d \<Rightarrow> do {
                e \<leftarrow> ecu \<bind> valuestring; id' \<leftarrow> strncpy (dev_id pkg) e BS_MAX_DEV_ID_LEN;
                u \<leftarrow> url \<bind> valuestring; url' \<leftarrow> strncpy (pkg_url pkg) u BS_MAX_PKG_URL_LEN;
                c \<leftarrow> sm \<bind> valuestring; sum' \<leftarrow> strncpy (chk_sum pkg) c BS_PKG_CHK_SUM_LEN;
                n \<leftarrow> siz;
                Some (JCFG_ERR_OK,
                  m\<lparr>pkg_num := pkg_num m + 1,
                    packages := (packages m)[i := \<lparr>dev_type = d, dev_id = id', chk_sum = sum',
                                                   pkg_url = url', pkg_siz = valueint n\<rparr>]\<rparr>) } } }"

text \<open>The loop: \<open>k\<close> more packages, starting at \<open>i\<close>.\<close>

fun package_loop ::
    "cJSON option \<Rightarrow> nat \<Rightarrow> nat \<Rightarrow> l1_manifest \<Rightarrow> (err_json_cfg \<times> l1_manifest) option" where
  "package_loop pkgs i 0 m = Some (JCFG_ERR_OK, m)"
| "package_loop pkgs i (Suc k) m =
     do { (rc, m') \<leftarrow> parse_package pkgs i m;
          if rc \<noteq> JCFG_ERR_OK then Some (rc, m') else package_loop pkgs (i + 1) k m' }"

definition read_manifest :: "cJSON \<Rightarrow> (err_json_cfg \<times> l1_manifest) option" where
  "read_manifest doc =
     (let manifest = cJSON_GetObjectItem (Some doc) ''manifest'';
          pkgs = cJSON_GetObjectItem manifest ''packages''
      in if \<not> cJSON_IsObject manifest then Some (JCFG_ERR_BAD_DOCUMENT, zero_manifest)
         else if \<not> cJSON_IsArray pkgs then Some (JCFG_ERR_BAD_DOCUMENT, zero_manifest)
         else if int BS_MAX_MANI_PKG_NUM < cJSON_GetArraySize pkgs
         then Some (JCFG_ERR_BAD_DOCUMENT, zero_manifest)
         else package_loop pkgs 0 (nat (cJSON_GetArraySize pkgs)) zero_manifest)"

definition bs_parse_l1_manifest ::
    "bytes option \<Rightarrow> heap \<Rightarrow> (err_json_cfg \<times> l1_manifest \<times> heap) option" where
  "bs_parse_l1_manifest json_txt h =
     do {
       v \<leftarrow> json_txt;
       out \<leftarrow> cJSON_Parse v h;
       case parsed out of
         None \<Rightarrow> Some (JCFG_ERR_BAD_DOCUMENT, zero_manifest, out_heap out)
       | Some doc \<Rightarrow> do {
           (rc, m) \<leftarrow> read_manifest doc;
           Some (rc, m, cJSON_Delete [doc] (out_heap out)) } }"

subsection \<open>What a parsed manifest satisfies\<close>

text \<open>Every array keeps its size and its last byte, the terminator.\<close>

definition array_ok :: "nat \<Rightarrow> bytes \<Rightarrow> bool" where
  "array_ok n a \<longleftrightarrow> length a = n + 1 \<and> a ! n = NUL"

definition wf_pkg :: "l1_pkg \<Rightarrow> bool" where
  "wf_pkg p \<longleftrightarrow> array_ok BS_MAX_DEV_ID_LEN (dev_id p) \<and> array_ok BS_PKG_CHK_SUM_LEN (chk_sum p) \<and>
     array_ok BS_MAX_PKG_URL_LEN (pkg_url p) \<and> INT_MIN \<le> pkg_siz p \<and> pkg_siz p \<le> INT_MAX"

definition wf_manifest :: "l1_manifest \<Rightarrow> bool" where
  "wf_manifest m \<longleftrightarrow> pkg_num m \<le> BS_MAX_MANI_PKG_NUM \<and> length (packages m) = BS_MAX_MANI_PKG_NUM \<and>
     (\<forall>p \<in> set (packages m). wf_pkg p) \<and>
     (\<forall>i < pkg_num m. dev_type (packages m ! i) \<noteq> BS_DEV_TYPE_NONE)"

lemma wf_zero_pkg [simp]: "wf_pkg zero_pkg"
  by (simp add: wf_pkg_def zero_pkg_def array_ok_def INT_MIN_def INT_MAX_def limit_defs)

lemma wf_zero_manifest [simp]: "wf_manifest zero_manifest"
  by (simp add: wf_manifest_def zero_manifest_def)

lemma strncpy_into_array:
  assumes "array_ok n a"
  shows "strncpy a s n = Some (take n (c_str s) @ replicate (n + 1 - length (take n (c_str s))) NUL)"
proof -
  have "drop n a = [NUL]"
    using assms by (simp add: array_ok_def Cons_nth_drop_Suc [symmetric])
  moreover have "Suc n - min (length (c_str s)) n = Suc (n - min (length (c_str s)) n)"
    by simp
  ultimately show ?thesis
    using assms by (simp add: strncpy_def Let_def array_ok_def replicate_append_same [symmetric])
qed

lemma array_ok_strncpy: "array_ok n (take n (c_str s) @ replicate (n + 1 - length (take n (c_str s))) NUL)"
  by (simp add: array_ok_def nth_append)

text \<open>The string an array holds is the source string, cut at the size of the field.\<close>

lemma c_str_strncpy: "c_str (take n (c_str s) @ replicate k NUL) = take n (c_str s)"
proof -
  have "NUL \<notin> set (take n (c_str s))"
    using NUL_notin_c_str in_set_takeD by metis
  then have "c_str (take n (c_str s) @ replicate k NUL) = take n (c_str s) @ c_str (replicate k NUL)"
    by (rule c_str_append)
  also have "c_str (replicate k NUL) = []" by (cases k) simp_all
  finally show ?thesis by simp
qed

subsection \<open>Lookups in parsed items\<close>

lemma kind_defs [simp]:
  "kind cJSON_False = 1" "kind cJSON_True = 2" "kind cJSON_NULL = 4" "kind cJSON_Number = 8"
  "kind cJSON_String = 16" "kind cJSON_Array = 32" "kind cJSON_Object = 64"
  by (simp_all add: kind_def ctype_defs)

lemma wf_json_string: "wf_json x \<Longrightarrow> cJSON_IsString (Some x) \<Longrightarrow> \<exists>s. valuestring x = Some s"
  by (cases x) (auto simp: is_type_defs, (simp_all add: cJSON_String_def kind_def ctype_defs)?)

lemma wf_json_number:
  "wf_json x \<Longrightarrow> cJSON_IsNumber (Some x) \<Longrightarrow> saturate_int (valuedouble x) = Some (valueint x)"
  by (cases x) (auto simp: is_type_defs, (simp_all add: cJSON_Number_def kind_def ctype_defs)?)

lemma wf_json_child: "wf_json x \<Longrightarrow> y \<in> set (child x) \<Longrightarrow> wf_json y"
  by (cases x) auto

lemma wf_json_lookup: "wf_json x \<Longrightarrow> cJSON_GetObjectItem (Some x) n = Some y \<Longrightarrow> wf_json y"
  using GetObjectItem_child wf_json_child by blast

subsection \<open>The contents of a manifest\<close>

text \<open>
  What the document says, without arrays, loops and error codes: a package is read from its
  named fields, a manifest from its list of packages.
\<close>

definition string_field :: "cJSON \<Rightarrow> bytes \<Rightarrow> bytes option" where
  "string_field x n =
     do { y \<leftarrow> List.find (ci_named n) (child x);
          if kind (ctype y) = cJSON_String then valuestring y else None }"

definition number_field :: "cJSON \<Rightarrow> bytes \<Rightarrow> int option" where
  "number_field x n =
     do { y \<leftarrow> List.find (ci_named n) (child x);
          if kind (ctype y) = cJSON_Number then Some (valueint y) else None }"

definition container_field :: "32 word \<Rightarrow> cJSON \<Rightarrow> bytes \<Rightarrow> cJSON option" where
  "container_field t x n =
     do { y \<leftarrow> List.find (ci_named n) (child x); if kind (ctype y) = t then Some y else None }"

text \<open>A string in a field of \<open>n\<close> characters and a terminator.\<close>

definition fixed_field :: "nat \<Rightarrow> bytes \<Rightarrow> bytes" where
  "fixed_field n s =
     (let t = take n (c_str s) in t @ replicate (n + 1 - length t) NUL)"

definition package_ref :: "cJSON \<Rightarrow> l1_pkg option" where
  "package_ref j =
     do { ecu \<leftarrow> string_field j ''ecu'';
          typ \<leftarrow> string_field j ''deviceType'';
          res \<leftarrow> container_field cJSON_Object j ''resources'';
          checksum \<leftarrow> string_field res ''fullDownloadChecksum'';
          url \<leftarrow> string_field res ''fullDownloadUrl'';
          siz \<leftarrow> number_field res ''fullSize'';
          d \<leftarrow> recognise_dev_type typ;
          Some \<lparr>dev_type = d, dev_id = fixed_field BS_MAX_DEV_ID_LEN ecu,
                chk_sum = fixed_field BS_PKG_CHK_SUM_LEN checksum,
                pkg_url = fixed_field BS_MAX_PKG_URL_LEN url, pkg_siz = siz\<rparr> }"

definition manifest_ref :: "cJSON \<Rightarrow> l1_pkg list option" where
  "manifest_ref doc =
     do { man \<leftarrow> container_field cJSON_Object doc ''manifest'';
          pkgs \<leftarrow> container_field cJSON_Array man ''packages'';
          if length (child pkgs) \<le> BS_MAX_MANI_PKG_NUM
          then those (map package_ref (child pkgs)) else None }"

lemma string_field_eq:
  assumes "wf_json x"
  shows "string_field x n =
    (if cJSON_IsString (cJSON_GetObjectItem (Some x) n)
     then cJSON_GetObjectItem (Some x) n \<bind> valuestring else None)"
  using wf_json_lookup [OF assms] wf_json_string
  by (auto simp: string_field_def GetObjectItem_eq is_type_defs split: option.split)

lemma number_field_eq:
  "number_field x n =
    (if cJSON_IsNumber (cJSON_GetObjectItem (Some x) n)
     then map_option valueint (cJSON_GetObjectItem (Some x) n) else None)"
  by (auto simp: number_field_def GetObjectItem_eq is_type_defs split: option.split)

lemma container_field_eq:
  "container_field t x n =
    (if type_is t (cJSON_GetObjectItem (Some x) n) then cJSON_GetObjectItem (Some x) n else None)"
  by (auto simp: container_field_def GetObjectItem_eq is_type_defs split: option.split)

subsection \<open>The loop fills the array\<close>

definition filled :: "l1_pkg list \<Rightarrow> l1_manifest" where
  "filled ps =
     \<lparr>pkg_num = length ps, packages = ps @ replicate (BS_MAX_MANI_PKG_NUM - length ps) zero_pkg\<rparr>"

lemma strncpy_zero:
  "strncpy (replicate (n + 1) NUL) s n = Some (fixed_field n s)"
  using strncpy_into_array [of n "replicate (n + 1) NUL" s]
  by (simp add: array_ok_def fixed_field_def Let_def del: replicate_Suc)

lemma filled_slot:
  assumes "length ps < BS_MAX_MANI_PKG_NUM"
  shows "rd (packages (filled ps)) (length ps) = Some zero_pkg"
    and "(filled ps)\<lparr>pkg_num := pkg_num (filled ps) + 1,
            packages := (packages (filled ps))[length ps := p]\<rparr> = filled (ps @ [p])"
proof -
  obtain k where "BS_MAX_MANI_PKG_NUM - length ps = Suc k"
    using assms by (metis Suc_diff_Suc)
  moreover from this have "BS_MAX_MANI_PKG_NUM - Suc (length ps) = k" by simp
  ultimately show "rd (packages (filled ps)) (length ps) = Some zero_pkg"
    and "(filled ps)\<lparr>pkg_num := pkg_num (filled ps) + 1,
            packages := (packages (filled ps))[length ps := p]\<rparr> = filled (ps @ [p])"
    by (simp_all add: filled_def rd_def nth_append list_update_append)
qed

lemma parse_package_eq:
  assumes a: "wf_json a" and i: "length ps < length (child a)" "length ps < BS_MAX_MANI_PKG_NUM"
  shows "parse_package (Some a) (length ps) (filled ps) =
    (case package_ref (child a ! length ps) of
       None \<Rightarrow> Some (JCFG_ERR_BAD_DOCUMENT, filled ps)
     | Some p \<Rightarrow> Some (JCFG_ERR_OK, filled (ps @ [p])))"
proof -
  define j where "j = child a ! length ps"
  have j: "cJSON_GetArrayItem (Some a) (int (length ps)) = Some j"
    using i by (simp add: j_def cJSON_GetArrayItem_def get_array_item_def walk_eq)
  have wf: "wf_json j"
    using wf_json_child [OF a] i by (simp add: j_def)
  note str = string_field_eq [OF wf] and res = wf_json_lookup [OF wf, of "''resources''"]
  note def = cJSON_IsString_def cJSON_IsObject_def cJSON_IsNumber_def type_is_def
  note slot = filled_slot [OF i(2)]
  have zero: "dev_id zero_pkg = replicate (BS_MAX_DEV_ID_LEN + 1) NUL"
    "chk_sum zero_pkg = replicate (BS_PKG_CHK_SUM_LEN + 1) NUL"
    "pkg_url zero_pkg = replicate (BS_MAX_PKG_URL_LEN + 1) NUL"
    by (simp_all only: zero_pkg_def l1_pkg.simps)
  show ?thesis
  proof (cases "cJSON_IsString (cJSON_GetObjectItem (Some j) ''ecu'') \<and>
      cJSON_IsString (cJSON_GetObjectItem (Some j) ''deviceType'') \<and>
      cJSON_IsObject (cJSON_GetObjectItem (Some j) ''resources'')")
    case False
    then show ?thesis
      unfolding j_def [symmetric] parse_package_def package_ref_def
      by (auto simp: j str container_field_eq Let_def cJSON_IsObject_def)
  next
    case True
    then obtain e t r where
      e: "cJSON_GetObjectItem (Some j) ''ecu'' = Some e" "cJSON_IsString (Some e)" and
      t: "cJSON_GetObjectItem (Some j) ''deviceType'' = Some t" "cJSON_IsString (Some t)" and
      r: "cJSON_GetObjectItem (Some j) ''resources'' = Some r" "cJSON_IsObject (Some r)"
      by (auto simp: def split: option.splits)
    have wr: "wf_json r" using res r by blast
    obtain es ts where s: "valuestring e = Some es" "valuestring t = Some ts"
      using e t wf_json_lookup [OF wf] wf_json_string by metis
    have ref: "package_ref j =
      do { checksum \<leftarrow> string_field r ''fullDownloadChecksum''; url \<leftarrow> string_field r ''fullDownloadUrl'';
           siz \<leftarrow> number_field r ''fullSize''; d \<leftarrow> recognise_dev_type ts;
           Some \<lparr>dev_type = d, dev_id = fixed_field BS_MAX_DEV_ID_LEN es,
                chk_sum = fixed_field BS_PKG_CHK_SUM_LEN checksum,
                pkg_url = fixed_field BS_MAX_PKG_URL_LEN url, pkg_siz = siz\<rparr> }"
      using e t r s by (simp add: package_ref_def str container_field_eq cJSON_IsObject_def)
    have strs: "cJSON_IsString (cJSON_GetObjectItem (Some r) n) \<Longrightarrow>
      \<exists>y c. cJSON_GetObjectItem (Some r) n = Some y \<and> valuestring y = Some c" for n
      using wf_json_lookup [OF wr] wf_json_string
      by (cases "cJSON_GetObjectItem (Some r) n") (auto simp: def)
    have num: "cJSON_IsNumber x \<Longrightarrow> \<exists>y. x = Some y" for x
      by (cases x) (auto simp: def)
    show ?thesis
      unfolding j_def [symmetric] ref
      using e t r s strs [of "''fullDownloadChecksum''"] strs [of "''fullDownloadUrl''"]
        num [of "cJSON_GetObjectItem (Some r) ''fullSize''"]
      by (cases "recognise_dev_type ts")
        (auto simp: parse_package_def j string_field_eq [OF wr] number_field_eq Let_def slot zero
          strncpy_zero simp del: One_nat_def replicate_Suc Suc_eq_plus1)
  qed
qed

text \<open>The packages in front of the first one that is not accepted.\<close>

fun accepted_prefix :: "cJSON list \<Rightarrow> l1_pkg list" where
  "accepted_prefix [] = []"
| "accepted_prefix (j # js) =
     (case package_ref j of None \<Rightarrow> [] | Some p \<Rightarrow> p # accepted_prefix js)"

lemma package_loop_eq:
  assumes "wf_json a" and "length ps + k \<le> BS_MAX_MANI_PKG_NUM"
    and "length ps + k \<le> length (child a)"
  shows "package_loop (Some a) (length ps) k (filled ps) =
    Some (if those (map package_ref (take k (drop (length ps) (child a)))) = None
          then JCFG_ERR_BAD_DOCUMENT else JCFG_ERR_OK,
          filled (ps @ accepted_prefix (take k (drop (length ps) (child a)))))"
  using assms
proof (induction k arbitrary: ps)
  case (Suc k)
  let ?j = "child a ! length ps"
  have i: "length ps < length (child a)" "length ps < BS_MAX_MANI_PKG_NUM"
    using Suc.prems by simp_all
  have d: "drop (length ps) (child a) = ?j # drop (Suc (length ps)) (child a)"
    using i(1) by (rule Cons_nth_drop_Suc [symmetric])
  show ?case
  proof (cases "package_ref ?j")
    case None
    then show ?thesis by (simp add: parse_package_eq [OF Suc.prems(1) i] d)
  next
    case (Some p)
    note Suc.IH [of "ps @ [p]"]
    with Some Suc.prems show ?thesis
      by (simp add: parse_package_eq [OF Suc.prems(1) i] d)
  qed
qed simp

lemma accepted_prefix_those: "those (map package_ref js) = Some ps \<Longrightarrow> accepted_prefix js = ps"
  by (induction js arbitrary: ps) (auto split: option.splits)

lemma length_accepted_prefix: "length (accepted_prefix js) \<le> length js"
  by (induction js) (auto split: option.split)

lemma array_ok_fixed_field [simp]: "array_ok n (fixed_field n s)"
  using array_ok_strncpy by (simp add: fixed_field_def Let_def)

lemma package_ref_wf:
  assumes "wf_json j" and "package_ref j = Some p"
  shows "wf_pkg p \<and> dev_type p \<noteq> BS_DEV_TYPE_NONE"
proof -
  have num: "INT_MIN \<le> i \<and> i \<le> INT_MAX" if "wf_json x" "number_field x n = Some i" for x n i
    using that wf_json_number wf_json_lookup saturate_int_range
    by (fastforce simp: number_field_eq split: if_splits)
  have res: "container_field t j n = Some r \<Longrightarrow> wf_json r" for t n r
    using wf_json_lookup [OF assms(1)] by (auto simp: container_field_eq split: if_splits)
  then have "INT_MIN \<le> i" "i \<le> INT_MAX"
    if "container_field t j n = Some r" "number_field r n' = Some i" for t n r n' i
    using num that by blast+
  then show ?thesis
    using assms(2)
    by (auto simp: package_ref_def run_simps wf_pkg_def recognise_dev_type_def split: if_splits)
qed

lemma accepted_prefix_wf:
  assumes "\<forall>j \<in> set js. wf_json j"
  shows "\<forall>p \<in> set (accepted_prefix js). wf_pkg p \<and> dev_type p \<noteq> BS_DEV_TYPE_NONE"
  using assms
proof (induction js)
  case (Cons j js)
  then show ?case using package_ref_wf [of j] by (cases "package_ref j") auto
qed simp

lemma wf_filled:
  assumes "length ps \<le> BS_MAX_MANI_PKG_NUM"
    and "\<forall>p \<in> set ps. wf_pkg p \<and> dev_type p \<noteq> BS_DEV_TYPE_NONE"
  shows "wf_manifest (filled ps)"
  using assms by (auto simp: wf_manifest_def filled_def nth_append)

lemma zero_manifest_filled: "zero_manifest = filled []"
  by (simp add: zero_manifest_def filled_def)

text \<open>The whole document, with the number of packages as \<open>cJSON_GetArraySize\<close> counts it.\<close>

lemma GetArraySize_le: "nat (cJSON_GetArraySize (Some x)) \<le> length (child x)"
proof -
  have "signed_take_bit 31 (int n) \<le> int n" for n :: nat
    using take_bit_int_less_eq_self_iff [of "Suc 31" "int n"]
    by (simp only: signed_take_bit_eq_take_bit_minus) simp
  from this [of "length (child x)"] show ?thesis
    by (simp add: cJSON_GetArraySize_def signed_of_nat)
qed

lemma read_manifest_cases:
  assumes "wf_json doc"
  obtains (bad) "read_manifest doc = Some (JCFG_ERR_BAD_DOCUMENT, zero_manifest)"
      and "manifest_ref doc = None \<or> (\<exists>man pkgs. container_field cJSON_Object doc ''manifest'' = Some man \<and>
             container_field cJSON_Array man ''packages'' = Some pkgs \<and> 2 ^ 31 \<le> length (child pkgs))"
    | (list) man pkgs k where "wf_json pkgs" and "k \<le> BS_MAX_MANI_PKG_NUM" and "k \<le> length (child pkgs)"
      and "container_field cJSON_Object doc ''manifest'' = Some man"
      and "container_field cJSON_Array man ''packages'' = Some pkgs"
      and "length (child pkgs) < 2 ^ 31 \<Longrightarrow> k = length (child pkgs)"
      and "read_manifest doc =
        Some (if those (map package_ref (take k (child pkgs))) = None
              then JCFG_ERR_BAD_DOCUMENT else JCFG_ERR_OK, filled (accepted_prefix (take k (child pkgs))))"
proof (cases "container_field cJSON_Object doc ''manifest'' \<bind> (\<lambda>man. container_field cJSON_Array man ''packages'')")
  case None
  then have "read_manifest doc = Some (JCFG_ERR_BAD_DOCUMENT, zero_manifest)" "manifest_ref doc = None"
    by (cases "cJSON_GetObjectItem (Some doc) ''manifest''";
        auto simp: read_manifest_def manifest_ref_def container_field_eq cJSON_IsObject_def
          cJSON_IsArray_def Let_def type_is_def split: if_splits bind_splits option.splits)+
  then show thesis using bad by blast
next
  case (Some pkgs)
  then obtain man where c: "container_field cJSON_Object doc ''manifest'' = Some man"
    "container_field cJSON_Array man ''packages'' = Some pkgs"
    by (auto simp: run_simps)
  have "wf_json pkgs"
    using wf_json_lookup [OF wf_json_lookup [OF assms]] c by (auto simp: container_field_eq split: if_splits)
  let ?k = "nat (cJSON_GetArraySize (Some pkgs))"
  have r: "read_manifest doc =
    (if int BS_MAX_MANI_PKG_NUM < cJSON_GetArraySize (Some pkgs)
     then Some (JCFG_ERR_BAD_DOCUMENT, zero_manifest)
     else package_loop (Some pkgs) 0 ?k zero_manifest)"
    using c by (auto simp: read_manifest_def container_field_eq cJSON_IsObject_def cJSON_IsArray_def
        Let_def split: if_splits)
  show thesis
  proof (cases "int BS_MAX_MANI_PKG_NUM < cJSON_GetArraySize (Some pkgs)")
    case True
    moreover have "int (length (child pkgs)) = cJSON_GetArraySize (Some pkgs)"
      if "length (child pkgs) < 2 ^ 31"
      using GetArraySize_small [OF that] by simp
    ultimately show thesis
      using bad r c by (cases "length (child pkgs) < 2 ^ 31") (auto simp: manifest_ref_def)
  next
    case False
    then have k: "?k \<le> BS_MAX_MANI_PKG_NUM" by simp
    show thesis
      using list [OF \<open>wf_json pkgs\<close> k GetArraySize_le c] GetArraySize_small [of pkgs] r False
        package_loop_eq [OF \<open>wf_json pkgs\<close>, of "[]" ?k] k GetArraySize_le [of pkgs]
      by (simp add: zero_manifest_filled)
  qed
qed

lemma read_manifest_defined:
  assumes "wf_json doc"
  shows "\<exists>rc m. read_manifest doc = Some (rc, m) \<and> rc \<in> {JCFG_ERR_OK, JCFG_ERR_BAD_DOCUMENT} \<and>
    wf_manifest m"
  using assms
proof (cases rule: read_manifest_cases)
  case (list man pkgs k)
  have "\<forall>j \<in> set (take k (child pkgs)). wf_json j"
    using list(1) wf_json_child in_set_takeD by fastforce
  then have "wf_manifest (filled (accepted_prefix (take k (child pkgs))))"
    using wf_filled accepted_prefix_wf length_accepted_prefix [of "take k (child pkgs)"] list(2)
    by simp
  with list show ?thesis by simp
qed simp

subsection \<open>Properties\<close>

text \<open>
  C2. The manifest parser is total and safe on every text: it never reads through a null
  pointer, never fails an assertion and never writes outside an array; it reports success or
  a bad document; whatever it reports, the structure it leaves has all its arrays terminated,
  at most four packages counted, each with a recognised device type, and all the memory the
  JSON tree took is released.
\<close>

theorem bs_parse_l1_manifest_safe:
  "\<exists>rc m h'. bs_parse_l1_manifest (Some v) h = Some (rc, m, h') \<and>
     rc \<in> {JCFG_ERR_OK, JCFG_ERR_BAD_DOCUMENT} \<and> wf_manifest m \<and> live h' = live h"
proof -
  obtain out where p: "cJSON_Parse v h = Some out" "outcome_ok v False h out"
    using ParseWithOpts_ok [of v False h] by (auto simp: cJSON_Parse_def)
  show ?thesis
  proof (cases "parsed out")
    case None
    with p show ?thesis by (auto simp: bs_parse_l1_manifest_def outcome_ok_def)
  next
    case (Some doc)
    note wf = parsed_doc_wf [OF p(1) Some]
    from read_manifest_defined [OF wf(1)] obtain rc m where
      "read_manifest doc = Some (rc, m)" "rc \<in> {JCFG_ERR_OK, JCFG_ERR_BAD_DOCUMENT}" "wf_manifest m"
      by blast
    with p Some wf(2) show ?thesis by (auto simp: bs_parse_l1_manifest_def)
  qed
qed

text \<open>
  C3. Success means exactly what the document says: for a parsed document whose package list is
  shorter than \<open>2^31\<close>, the parser returns \<open>JCFG_ERR_OK\<close> with the manifest \<open>m\<close> if and only if the
  reference reading of the document succeeds, and then the packages of \<open>m\<close> are the packages of
  the document in order, with their strings cut at the field sizes, and the other slots zero.
\<close>

theorem read_manifest_refines:
  assumes "wf_json doc"
    and "\<forall>man pkgs. container_field cJSON_Object doc ''manifest'' = Some man \<longrightarrow>
      container_field cJSON_Array man ''packages'' = Some pkgs \<longrightarrow> length (child pkgs) < 2 ^ 31"
  shows "read_manifest doc = Some (JCFG_ERR_OK, m) \<longleftrightarrow>
    (\<exists>ps. manifest_ref doc = Some ps \<and> m = filled ps)"
  using assms(1)
proof (cases rule: read_manifest_cases)
  case bad
  with assms(2) have "manifest_ref doc = None" by fastforce
  with bad show ?thesis by simp
next
  case (list man pkgs k)
  with assms(2) have k: "k = length (child pkgs)" by blast
  then have "manifest_ref doc = those (map package_ref (child pkgs))"
    using list by (simp add: manifest_ref_def)
  with list k show ?thesis
    using accepted_prefix_those by (cases "those (map package_ref (child pkgs))") auto
qed

definition sample_package :: cJSON where
  "sample_package =
     CJson cJSON_Object
       [CJson cJSON_String [] (Some ''WPC'') 0 (DFin False 0) (Some ''ECU''),
        CJson cJSON_String [] (Some ''can'') 0 (DFin False 0) (Some ''deviceType''),
        CJson cJSON_Object
          [CJson cJSON_Number [] None 7 (DFin False 7) (Some ''fullSize''),
           CJson cJSON_String [] (Some ''abc'') 0 (DFin False 0) (Some ''fullDownloadChecksum''),
           CJson cJSON_String [] (Some ''u'') 0 (DFin False 0) (Some ''fullDownloadUrl'')]
          None 0 (DFin False 0) (Some ''resources'')]
       None 0 (DFin False 0) None"

definition sample_document :: cJSON where
  "sample_document =
     CJson cJSON_Object
       [CJson cJSON_Object
          [CJson cJSON_Array [sample_package] None 0 (DFin False 0) (Some ''packages'')]
          None 0 (DFin False 0) (Some ''manifest'')]
       None 0 (DFin False 0) None"

lemma sample_wf: "wf_json sample_document"
  by (simp add: sample_document_def sample_package_def saturate_int_def INT_MAX_def INT_MIN_def trunc_rat_def)

lemma read_manifest_refines_witness:
  "\<exists>p. read_manifest sample_document = Some (JCFG_ERR_OK, filled [p]) \<and> pkg_siz p = 7 \<and>
     dev_type p = BS_DEV_TYPE_CAN"
proof -
  have ps: "\<exists>p. manifest_ref sample_document = Some [p] \<and> pkg_siz p = 7 \<and> dev_type p = BS_DEV_TYPE_CAN"
    by (simp add: manifest_ref_def sample_document_def sample_package_def container_field_def
        string_field_def number_field_def package_ref_def ci_named_def tolower_def kind_def ctype_defs
        recognise_dev_type_def strcmp_def limit_defs char_of_def bit_Suc_0_iff)
  have "\<forall>man pkgs. container_field cJSON_Object sample_document ''manifest'' = Some man \<longrightarrow>
      container_field cJSON_Array man ''packages'' = Some pkgs \<longrightarrow> length (child pkgs) < 2 ^ 31"
    by (simp add: sample_document_def container_field_def ci_named_def tolower_def kind_def ctype_defs)
  from read_manifest_refines [OF sample_wf this] ps show ?thesis by blast
qed

end
