(* ===== verification/CJsonRender.thy ===== *)
theory CJsonRender
  imports CJsonPrint
begin

section \<open>cJSON: what printing writes\<close>

text \<open>
  The text of an item as a function of the item, without a buffer, and the proof that the
  printers of \<open>CJsonPrint\<close> write exactly this text: they never touch a byte outside the block,
  they fail only when the item has no text or there is no room, and no block is lost.
\<close>

subsection \<open>The text of an item\<close>

definition quoted :: "bytes option \<Rightarrow> bytes" where
  "quoted s = DQUOTE # (case s of None \<Rightarrow> [] | Some v \<Rightarrow> concat (map escape_char (c_str v))) @ [DQUOTE]"

definition number_shown :: "dbl \<Rightarrow> bytes option" where
  "number_shown d =
     (let s = number_text d
      in if 25 < length s then None
         else Some (map (\<lambda>c. if c = decimal_point then CHR ''.'' else c) s))"

fun render :: "bool \<Rightarrow> nat \<Rightarrow> cJSON \<Rightarrow> bytes option"
  and render_elements :: "bool \<Rightarrow> nat \<Rightarrow> cJSON list \<Rightarrow> bytes option"
  and render_members :: "bool \<Rightarrow> nat \<Rightarrow> cJSON list \<Rightarrow> bytes option" where
  "render f n (CJson t c s i d k) =
     (if kind t = cJSON_NULL then Some ''null''
      else if kind t = cJSON_False then Some ''false''
      else if kind t = cJSON_True then Some ''true''
      else if kind t = cJSON_Number then number_shown d
      else if kind t = cJSON_Raw then map_option c_str s
      else if kind t = cJSON_String then Some (quoted s)
      else if kind t = cJSON_Array
      then do { r \<leftarrow> render_elements f (n + 1) c; Some (''['' @ r @ '']'') }
      else if kind t = cJSON_Object
      then do { r \<leftarrow> render_members f (n + 1) c;
                Some (''{'' @ (if f then [CHR 0x0A] else []) @ r
                        @ (if f then indent n else []) @ ''}'') }
      else None)"
| "render_elements f n [] = Some []"
| "render_elements f n (x # xs) =
     do { a \<leftarrow> render f n x; r \<leftarrow> render_elements f n xs;
          Some (a @ (if xs = [] then [] else CHR '','' # (if f then '' '' else [])) @ r) }"
| "render_members f n [] = Some []"
| "render_members f n (x # xs) =
     do { a \<leftarrow> render f n x; r \<leftarrow> render_members f n xs;
          Some ((if f then indent n else []) @ quoted (item_string x)
                @ CHR '':'' # (if f then [CHR 0x09] else []) @ a
                @ (if xs = [] then [] else '','') @ (if f then [CHR 0x0A] else []) @ r) }"

subsection \<open>Texts have no terminator\<close>

lemma hex_char_not_NUL: "d < 16 \<Longrightarrow> hex_char d \<noteq> NUL"
  by (cases "d < 10") (auto simp: hex_char_def byte_simps dest: arg_cong [where f = "of_char :: char \<Rightarrow> nat"])

lemma show_hex4_no_NUL: "NUL \<notin> set (show_hex4 n)"
  using hex_char_not_NUL [of "n div 4096 mod 16"] hex_char_not_NUL [of "n div 256 mod 16"]
    hex_char_not_NUL [of "n div 16 mod 16"] hex_char_not_NUL [of "n mod 16"]
  by (auto simp: show_hex4_def)

lemma escape_char_no_NUL: "c \<noteq> NUL \<Longrightarrow> NUL \<notin> set (escape_char c)"
  using show_hex4_no_NUL [of "ch c"] by (simp add: escape_char_def)

lemma concat_escape_no_NUL: "NUL \<notin> set xs \<Longrightarrow> NUL \<notin> set (concat (map escape_char xs))"
  by (induction xs) (auto simp: escape_char_no_NUL)

lemma quoted_no_NUL: "NUL \<notin> set (quoted s)"
  using concat_escape_no_NUL [of "c_str (the s)"] by (cases s) (simp_all add: quoted_def)

lemma strip_zeros_sub: "set (strip_zeros ds) \<subseteq> set ds"
  by (auto simp: strip_zeros_def dest: set_dropWhileD)

lemma with_fraction_no_NUL: "NUL \<notin> set ip \<Longrightarrow> NUL \<notin> set fp \<Longrightarrow> NUL \<notin> set (with_fraction ip fp)"
  using strip_zeros_sub [of fp] by (auto simp: with_fraction_def Let_def)

lemma NUL_notin_part [simp]:
  "NUL \<notin> set xs \<Longrightarrow> NUL \<notin> set (take n xs)" "NUL \<notin> set xs \<Longrightarrow> NUL \<notin> set (drop n xs)"
  by (auto dest: in_set_takeD in_set_dropD)

lemma format_g_digits_no_NUL: "NUL \<notin> set (format_g_digits P n e)"
  by (simp add: format_g_digits_def with_fraction_no_NUL show_exponent_def Let_def)

lemma format_g_no_NUL: "NUL \<notin> set (format_g P d)"
  by (cases d) (simp_all add: format_g_digits_no_NUL split: prod.splits)

lemma number_shown_no_NUL: "number_shown d = Some s \<Longrightarrow> NUL \<notin> set s"
  using format_g_no_NUL
  by (auto simp: number_shown_def number_text_def Let_def split: if_split_asm option.split_asm)

lemma indent_no_NUL: "NUL \<notin> set (indent n)"
  by (simp add: indent_def)

lemma render_no_NUL:
  "render f n x = Some s \<Longrightarrow> NUL \<notin> set s"
  "render_elements f n xs = Some s \<Longrightarrow> NUL \<notin> set s"
  "render_members f n xs = Some s \<Longrightarrow> NUL \<notin> set s"
proof (induction f n x and f n xs and f n xs arbitrary: s and s and s
    rule: render_render_elements_render_members.induct)
  case (1 f n t c s' i d k)
  then show ?case
    by (auto simp: run_simps quoted_no_NUL indent_no_NUL number_shown_no_NUL split: if_split_asm)
next
  case (3 f n x xs)
  then show ?case by (auto simp: run_simps split: if_split_asm)
next
  case (5 f n x xs)
  then show ?case by (auto simp: run_simps quoted_no_NUL indent_no_NUL split: if_split_asm)
qed simp_all

subsection \<open>Print buffers\<close>

text \<open>
  A good buffer has a block of the size the code believes it has and an offset inside it (or is
  the empty buffer that only \<open>realloc\<close> can grow).  \<open>room p n\<close> is what a text of \<open>n\<close> characters needs:
  two bytes more in a buffer that may not grow, and an allocator that does not fail in one that
  may.
\<close>

definition good_buffer :: "printbuffer \<Rightarrow> bool" where
  "good_buffer p \<longleftrightarrow> (\<exists>buf. p_block p = Some buf \<and> length buf = p_length p \<and>
     (p_offset p < p_length p \<or> p_offset p = 0 \<and> p_length p = 0 \<and> (p_realloc p \<or> p_noalloc p)))"

definition room :: "printbuffer \<Rightarrow> nat \<Rightarrow> bool" where
  "room p n \<longleftrightarrow> int (p_offset p + n + 2) \<le> INT_MAX \<and>
     (if p_noalloc p then p_offset p + n + 2 \<le> p_length p else oom (p_mem p) = (\<lambda>_. False))"

text \<open>What no printer changes, and how the number of live blocks changes with the block.\<close>

definition block_count :: "printbuffer \<Rightarrow> int" where
  "block_count p = (if p_block p = None then 0 else 1)"

definition same_setup :: "printbuffer \<Rightarrow> printbuffer \<Rightarrow> bool" where
  "same_setup p q \<longleftrightarrow> p_noalloc q = p_noalloc p \<and> p_format q = p_format p \<and>
     p_realloc q = p_realloc p \<and> p_junk q = p_junk p \<and> oom (p_mem q) = oom (p_mem p) \<and>
     live (p_mem q) - block_count q = live (p_mem p) - block_count p \<and>
     (p_noalloc p \<longrightarrow> p_length q = p_length p \<and>
        map_option length (p_block q) = map_option length (p_block p))"

text \<open>
  \<open>holds q i s\<close>: the block of \<open>q\<close> has the text \<open>s\<close> at position \<open>i\<close>.  \<open>appended\<close>: the text was added
  and the offset moved behind it; \<open>written\<close>: the text was added with its terminator, and the
  offset is somewhere in it.
\<close>

definition holds :: "printbuffer \<Rightarrow> nat \<Rightarrow> bytes \<Rightarrow> bool" where
  "holds q i s \<longleftrightarrow> (\<exists>buf. p_block q = Some buf \<and> take (length s) (drop i buf) = s)"

definition kept :: "printbuffer \<Rightarrow> printbuffer \<Rightarrow> bool" where
  "kept p q \<longleftrightarrow> (\<exists>a b. p_block p = Some a \<and> p_block q = Some b \<and>
     take (p_offset p) b = take (p_offset p) a)"

definition appended :: "printbuffer \<Rightarrow> printbuffer \<Rightarrow> bytes \<Rightarrow> bool" where
  "appended p q s \<longleftrightarrow> good_buffer q \<and> kept p q \<and> holds q (p_offset p) s \<and>
     p_offset q = p_offset p + length s"

definition written :: "printbuffer \<Rightarrow> printbuffer \<Rightarrow> bytes \<Rightarrow> bool" where
  "written p q s \<longleftrightarrow> good_buffer q \<and> kept p q \<and> holds q (p_offset p) (s @ [NUL]) \<and>
     p_offset p \<le> p_offset q \<and> p_offset q \<le> p_offset p + length s"

text \<open>
  The contract of a printer: it is defined, keeps the setup, on success has done \<open>post\<close> with the
  text it stands for, and fails only without a text or without room.
\<close>

definition prints ::
    "(printbuffer \<Rightarrow> printbuffer \<Rightarrow> bytes \<Rightarrow> bool) \<Rightarrow> printbuffer \<Rightarrow> nat \<Rightarrow> bytes option \<Rightarrow> print_result \<Rightarrow> bool" where
  "prints post p d t m \<longleftrightarrow> (\<exists>ok q. m = Some (ok, q) \<and> same_setup p q \<and>
     (ok \<longrightarrow> p_depth q = d \<and> (\<exists>s. t = Some s \<and> post p q s)) \<and>
     (\<not> ok \<longrightarrow> (\<forall>s. t = Some s \<longrightarrow> \<not> room p (length s))))"

lemma same_setup_refl [simp]: "same_setup p p"
  by (simp add: same_setup_def)

lemma same_setup_trans: "same_setup p q \<Longrightarrow> same_setup q r \<Longrightarrow> same_setup p r"
  by (auto simp: same_setup_def)

text \<open>Reserving space: the block keeps what it holds up to the offset.\<close>

definition reserved :: "nat \<Rightarrow> printbuffer \<Rightarrow> printbuffer \<Rightarrow> bool" where
  "reserved n p q \<longleftrightarrow> same_setup p q \<and> good_buffer q \<and> kept p q \<and> p_offset q = p_offset p \<and>
     p_depth q = p_depth p \<and> p_offset p + n + 1 \<le> p_length q"

lemma grow_works:
  assumes g: "good_buffer p" "p_block p = Some old" and n: "p_offset p + n + 1 \<le> newsize"
    and a: "\<not> p_noalloc p"
  shows "\<exists>ok q. grow newsize p old = Some (ok, q) \<and> same_setup p q \<and>
    (if ok then reserved n p q else oom (p_mem p) \<noteq> (\<lambda>_. False))"
proof -
  obtain ok h where m: "malloc (p_mem p) = (ok, h)" by fastforce
  then have h: "live h = live (p_mem p) + of_bool ok" "oom h = oom (p_mem p)"
    by (auto simp: heap_simps)
  have len: "length old = p_length p" using g by (simp add: good_buffer_def)
  define keep where "keep = (if p_realloc p then min (length old) newsize else p_offset p + 1)"
  have k: "keep \<le> length old" "keep \<le> newsize" "p_offset p \<le> keep"
    using g a n by (auto simp: keep_def good_buffer_def)
  show ?thesis
  proof (cases ok)
    case False
    then show ?thesis
      using m h g a malloc_never_fails [of "p_mem p"]
      by (auto simp: grow_def same_setup_def block_count_def)
  next
    case True
    have "take (p_offset p) (take keep old @ replicate (newsize - keep) (p_junk p)) = take (p_offset p) old"
      using k by simp
    then show ?thesis
      using True m h g a n k len
      by (auto simp: grow_def same_setup_def block_count_def reserved_def good_buffer_def kept_def Let_def
          keep_def [symmetric])
  qed
qed

lemma ensure_works:
  assumes g: "good_buffer p" and "p_offset p + n + 1 \<noteq> 0"
  shows "\<exists>ok q. ensure n p = Some (ok, q) \<and> same_setup p q \<and>
    (if ok then reserved n p q else (\<forall>m. n \<le> m + 1 \<longrightarrow> \<not> room p m))"
proof -
  obtain old where old: "p_block p = Some old" "length old = p_length p"
    and off: "p_offset p < p_length p \<or> p_offset p = 0 \<and> p_length p = 0 \<and> (p_realloc p \<or> p_noalloc p)"
    using g by (auto simp: good_buffer_def)
  have no: "\<exists>ok q. Some (False, p) = Some (ok, q) \<and> same_setup p q \<and>
      (if ok then reserved n p q else (\<forall>m. n \<le> m + 1 \<longrightarrow> \<not> room p m))"
    if "\<forall>m. n \<le> m + 1 \<longrightarrow> \<not> room p m"
    using that by auto
  have grow: "\<exists>ok q. grow size p old = Some (ok, q) \<and> same_setup p q \<and>
      (if ok then reserved n p q else (\<forall>m. n \<le> m + 1 \<longrightarrow> \<not> room p m))"
    if "p_offset p + n + 1 \<le> size" and "\<not> p_noalloc p" for size
    using grow_works [OF g old(1) that] that(2) by (auto simp: room_def split: if_split_asm)
  consider "INT_MAX < int n" | "int n \<le> INT_MAX" "n + p_offset p + 1 \<le> p_length p"
    | "int n \<le> INT_MAX" "\<not> n + p_offset p + 1 \<le> p_length p" "p_noalloc p"
    | "int n \<le> INT_MAX" "\<not> n + p_offset p + 1 \<le> p_length p" "\<not> p_noalloc p" by linarith
  then show ?thesis
  proof cases
    case 1
    then show ?thesis using no old off by (auto simp: ensure_def room_def)
  next
    case 2
    then have "ensure n p = Some (True, p)" using old off by (auto simp: ensure_def)
    then show ?thesis using g old 2 by (auto simp: reserved_def kept_def)
  next
    case 3
    then show ?thesis using no old off by (auto simp: ensure_def room_def)
  next
    case 4
    have valid: "\<not> (0 < p_length p \<and> p_length p \<le> p_offset p)" using off by auto
    show ?thesis
    proof (cases "INT_MAX div 2 < int (n + p_offset p + 1)")
      case True
      then have e: "ensure n p = (if int (n + p_offset p + 1) \<le> INT_MAX then grow (nat INT_MAX) p old
          else Some (False, p))"
        unfolding ensure_def Let_def old(1) option.case using 4 valid by (simp only: not_less [symmetric] if_False if_True simp_thms)
      show ?thesis
      proof (cases "int (n + p_offset p + 1) \<le> INT_MAX")
        case True
        then have "p_offset p + n + 1 \<le> nat INT_MAX" by linarith
        with e True grow 4 show ?thesis by simp
      next
        case False
        then have "\<forall>m. n \<le> m + 1 \<longrightarrow> \<not> room p m" by (auto simp: room_def)
        with e False no show ?thesis by simp
      qed
    next
      case False
      then have "ensure n p = grow ((n + p_offset p + 1) * 2) p old"
        unfolding ensure_def Let_def old(1) option.case using 4 valid by (simp only: not_less [symmetric] if_False if_True simp_thms)
      with grow 4 show ?thesis by simp
    qed
  qed
qed

text \<open>Storing what was reserved.\<close>

lemma put_works:
  assumes "good_buffer q" and "p_offset q + length bs \<le> p_length q"
  shows "\<exists>b. put bs q = Some (q\<lparr>p_block := Some b\<rparr>) \<and> good_buffer (q\<lparr>p_block := Some b\<rparr>) \<and>
    length b = p_length q \<and> take (length bs) (drop (p_offset q) b) = bs \<and>
    (\<forall>old. p_block q = Some old \<longrightarrow> take (p_offset q) b = take (p_offset q) old) \<and>
    same_setup q (q\<lparr>p_block := Some b\<rparr>)"
proof -
  obtain old where old: "p_block q = Some old" "length old = p_length q"
    using assms(1) by (auto simp: good_buffer_def)
  define b where "b = take (p_offset q) old @ bs @ drop (p_offset q + length bs) old"
  have "put bs q = Some (q\<lparr>p_block := Some b\<rparr>)" "length b = p_length q"
    "take (length bs) (drop (p_offset q) b) = bs" "take (p_offset q) b = take (p_offset q) old"
    using old assms(2) by (auto simp: put_def b_def)
  then show ?thesis
    using old assms(1) by (auto simp: good_buffer_def same_setup_def block_count_def)
qed

lemma emit_works:
  assumes g: "good_buffer p" and n: "length bs \<le> n"
  shows "\<exists>ok q. emit n bs p = Some (ok, q) \<and> same_setup p q \<and>
    (if ok then good_buffer q \<and> kept p q \<and> p_offset q = p_offset p \<and> p_depth q = p_depth p \<and>
        p_offset p + n + 1 \<le> p_length q \<and> holds q (p_offset p) bs
     else (\<forall>m. n \<le> m + 1 \<longrightarrow> \<not> room p m))"
proof -
  obtain ok q where e: "ensure n p = Some (ok, q)" "same_setup p q"
    "if ok then reserved n p q else (\<forall>m. n \<le> m + 1 \<longrightarrow> \<not> room p m)"
    using ensure_works [OF g, of n] by auto
  show ?thesis
  proof (cases ok)
    case False
    then show ?thesis using e by (auto simp: emit_def and_then_def)
  next
    case True
    with e have r: "reserved n p q" by simp
    then obtain b where b: "put bs q = Some (q\<lparr>p_block := Some b\<rparr>)" "good_buffer (q\<lparr>p_block := Some b\<rparr>)"
      "length b = p_length q" "take (length bs) (drop (p_offset q) b) = bs"
      "\<forall>old. p_block q = Some old \<longrightarrow> take (p_offset q) b = take (p_offset q) old"
      "same_setup q (q\<lparr>p_block := Some b\<rparr>)"
      using put_works [of q bs] n by (auto simp: reserved_def)
    have "emit n bs p = Some (True, q\<lparr>p_block := Some b\<rparr>)"
      using True e b by (simp add: emit_def and_then_def)
    moreover have "kept p (q\<lparr>p_block := Some b\<rparr>)"
      using r b(5) by (auto simp: reserved_def kept_def)
    ultimately show ?thesis
      using True r b same_setup_trans [OF e(2) b(6)] by (auto simp: reserved_def holds_def)
  qed
qed

text \<open>A text without its terminator, and the offset moved behind it.\<close>

lemma holds_prefix: "holds q i (s @ r) \<Longrightarrow> holds q i s"
  by (auto simp: holds_def) (metis append_eq_conv_conj append_take_drop_id length_append min.absorb1
      nat_le_iff_add take_take)

lemma prints_step:
  assumes g: "good_buffer p" and n: "length s + length r \<le> n" "n \<le> length s + 1"
  shows "prints appended p (p_depth p) (Some s) (and_then (emit n (s @ r) p) (advance (length s)))"
proof -
  obtain ok q where e: "emit n (s @ r) p = Some (ok, q)" "same_setup p q"
    "if ok then good_buffer q \<and> kept p q \<and> p_offset q = p_offset p \<and> p_depth q = p_depth p \<and>
        p_offset p + n + 1 \<le> p_length q \<and> holds q (p_offset p) (s @ r)
     else (\<forall>m. n \<le> m + 1 \<longrightarrow> \<not> room p m)"
    using emit_works [OF g, of "s @ r" n] n by auto
  show ?thesis
  proof (cases ok)
    case False
    then show ?thesis using e n by (auto simp: prints_def and_then_def)
  next
    case True
    let ?q = "q\<lparr>p_offset := p_offset q + length s\<rparr>"
    have "same_setup p ?q" using e(2) by (simp add: same_setup_def block_count_def)
    moreover have "holds q (p_offset p) s" using True e by (auto intro: holds_prefix)
    then have "appended p ?q s"
      using True e n by (auto simp: appended_def good_buffer_def kept_def holds_def)
    ultimately show ?thesis using True e by (auto simp: prints_def and_then_def advance_def)
  qed
qed

lemma prints_emit:
  assumes g: "good_buffer p" and n: "n = length s + 1"
  shows "prints written p (p_depth p) (Some s) (emit n (s @ [NUL]) p)"
proof -
  obtain ok q where e: "emit n (s @ [NUL]) p = Some (ok, q)" "same_setup p q"
    "if ok then good_buffer q \<and> kept p q \<and> p_offset q = p_offset p \<and> p_depth q = p_depth p \<and>
        p_offset p + n + 1 \<le> p_length q \<and> holds q (p_offset p) (s @ [NUL])
     else (\<forall>m. n \<le> m + 1 \<longrightarrow> \<not> room p m)"
    using emit_works [OF g, of "s @ [NUL]" n] n by auto
  then show ?thesis using n by (cases ok) (auto simp: prints_def written_def)
qed

text \<open>Measuring what was printed moves the offset to its end.\<close>

lemma measure_written:
  assumes "written p q s" and "NUL \<notin> set s"
  shows "\<exists>r. measure_printed q = Some (True, r) \<and> same_setup q r \<and> p_depth r = p_depth q \<and> appended p r s \<and>
    r = q\<lparr>p_offset := p_offset p + length s\<rparr>"
proof -
  from assms(1) obtain a b where b: "p_block p = Some a" "p_block q = Some b" "length b = p_length q"
    "take (p_offset p) b = take (p_offset p) a" "take (length s + 1) (drop (p_offset p) b) = s @ [NUL]"
    "p_offset p \<le> p_offset q" "p_offset q \<le> p_offset p + length s"
    by (auto simp: written_def good_buffer_def kept_def holds_def)
  define k where "k = p_offset q - p_offset p"
  define rest where "rest = drop (p_offset p + length s + 1) b"
  have d: "drop (p_offset p) b = s @ NUL # rest"
    using append_take_drop_id [of "length s + 1" "drop (p_offset p) b"] b(5) by (simp add: rest_def add_ac)
  have k: "p_offset q = p_offset p + k" "k \<le> length s" using b(6,7) by (simp_all add: k_def)
  have "drop (p_offset q) b = drop k (s @ NUL # rest)"
    using k(1) d by (metis add.commute drop_drop)
  then have dq: "drop (p_offset q) b = drop k s @ NUL # rest" using k(2) by simp
  moreover have "c_str (drop k s @ NUL # rest) = drop k s"
    using assms(2) by (subst c_str_append) (auto dest: in_set_dropD)
  moreover have "length (drop (p_offset p) b) = length s + 1 + length rest" using d by simp
  ultimately have "measure_printed q = Some (True, q\<lparr>p_offset := p_offset p + length s\<rparr>)" (is "_ = Some (_, ?r)")
    "p_offset p + length s + 1 \<le> length b"
    using b(2) k by (auto simp: measure_printed_def update_offset_def)
  moreover have "take (length s) (drop (p_offset p) b) = s" using d by simp
  ultimately show ?thesis
    using assms(1) b by (auto simp: appended_def written_def good_buffer_def kept_def holds_def same_setup_def
        block_count_def)
qed

lemma prints_measure:
  assumes "prints written p d t m" and "\<And>s. t = Some s \<Longrightarrow> NUL \<notin> set s"
  shows "prints appended p d t (and_then m measure_printed)"
proof -
  obtain ok q where m: "m = Some (ok, q)" "same_setup p q"
    "ok \<longrightarrow> p_depth q = d \<and> (\<exists>s. t = Some s \<and> written p q s)"
    "\<not> ok \<longrightarrow> (\<forall>s. t = Some s \<longrightarrow> \<not> room p (length s))"
    using assms(1) by (auto simp: prints_def)
  show ?thesis
  proof (cases ok)
    case False
    then show ?thesis using m by (auto simp: prints_def and_then_def)
  next
    case True
    with m obtain s where "t = Some s" "written p q s" "p_depth q = d" by auto
    then show ?thesis
      using True m(1,2) measure_written [of p q s] assms(2) same_setup_trans
      by (fastforce simp: prints_def and_then_def)
  qed
qed

text \<open>One printer after another: the texts are joined.\<close>

lemma kept_trans: "kept p q \<Longrightarrow> kept q r \<Longrightarrow> p_offset p \<le> p_offset q \<Longrightarrow> kept p r"
  by (auto simp: kept_def) (metis min.absorb1 take_take)

lemma holds_append:
  assumes "holds q i s" and "kept q r" and "p_offset q = i + length s" and "holds r (i + length s) u"
  shows "holds r i (s @ u)"
proof -
  obtain a b where b: "p_block q = Some a" "p_block r = Some b" "take (p_offset q) b = take (p_offset q) a"
    using assms(2) by (auto simp: kept_def)
  then have "take (length s) (drop i b) = take (length s) (drop i a)"
    using assms(3) by (metis add.commute take_drop)
  then have "take (length s) (drop i b) = s" using assms(1) b by (simp add: holds_def)
  moreover have "take (length u) (drop (length s) (drop i b)) = u"
    using assms(4) b by (simp add: holds_def add.commute)
  ultimately show ?thesis using b by (simp add: holds_def take_add)
qed

lemma room_after:
  assumes "appended p q s" and "same_setup p q" and "room p (length s + n)"
  shows "room q n"
  using assms by (auto simp: room_def appended_def same_setup_def split: if_split_asm)

lemma appended_trans: "appended p q s \<Longrightarrow> appended q r u \<Longrightarrow> appended p r (s @ u)"
  using kept_trans holds_append by (fastforce simp: appended_def)

lemma appended_written: "appended p q s \<Longrightarrow> written q r u \<Longrightarrow> written p r (s @ u)"
  using kept_trans holds_append [of q "p_offset p" s r "u @ [NUL]"] by (fastforce simp: appended_def written_def)

lemma room_less: "room p (a + b) \<Longrightarrow> room p a"
  by (auto simp: room_def split: if_split_asm)

lemma prints_seq:
  assumes m: "prints appended p d t m"
    and f: "\<And>q s. appended p q s \<Longrightarrow> same_setup p q \<Longrightarrow> p_depth q = d \<Longrightarrow> t = Some s \<Longrightarrow> prints post q e u (f q)"
    and post: "\<And>q r s v. appended p q s \<Longrightarrow> post q r v \<Longrightarrow> post p r (s @ v)"
    and v: "v = do { a \<leftarrow> t; b \<leftarrow> u; Some (a @ b) }"
  shows "prints post p e v (and_then m f)"
proof -
  obtain ok q where mq: "m = Some (ok, q)" "same_setup p q"
    "ok \<longrightarrow> p_depth q = d \<and> (\<exists>s. t = Some s \<and> appended p q s)"
    "\<not> ok \<longrightarrow> (\<forall>s. t = Some s \<longrightarrow> \<not> room p (length s))"
    using m by (auto simp: prints_def)
  show ?thesis
  proof (cases ok)
    case False
    have "\<not> room p (length w)" if "v = Some w" for w
    proof -
      from that v obtain a b where "t = Some a" "w = a @ b" by (auto simp: bind_eq_Some_conv)
      then show ?thesis using mq(4) False room_less by auto
    qed
    then show ?thesis
      unfolding prints_def by (intro exI [of _ False] exI [of _ q]) (use mq False in \<open>simp add: and_then_def\<close>)
  next
    case True
    with mq obtain s where s: "t = Some s" "appended p q s" "p_depth q = d" by auto
    obtain ok2 r where r: "f q = Some (ok2, r)" "same_setup q r"
      "ok2 \<longrightarrow> p_depth r = e \<and> (\<exists>b. u = Some b \<and> post q r b)"
      "\<not> ok2 \<longrightarrow> (\<forall>b. u = Some b \<longrightarrow> \<not> room q (length b))"
      using f [OF s(2) mq(2) s(3) s(1)] by (auto simp: prints_def)
    have mf: "and_then m f = Some (ok2, r)" using True mq(1) r(1) by (simp add: and_then_def)
    have pr: "same_setup p r" by (rule same_setup_trans [OF mq(2) r(2)])
    have A: "p_depth r = e \<and> (\<exists>b. v = Some b \<and> post p r b)" if ok2
      using r(3) that s(1) v post [OF s(2)] by auto
    have B: "\<not> room p (length b)" if "\<not> ok2" "v = Some b" for b
    proof -
      from that(2) s(1) v obtain c where c: "u = Some c" "b = s @ c" by (auto simp: run_simps)
      with r(4) that(1) have "\<not> room q (length c)" by simp
      then show ?thesis using room_after [OF s(2) mq(2), of "length c"] c(2) by auto
    qed
    show ?thesis
      unfolding prints_def by (rule exI [of _ ok2], rule exI [of _ r]) (simp add: mf pr A B)
  qed
qed

lemma prints_seq_appended:
  assumes "prints appended p d t m"
    and "\<And>q s. appended p q s \<Longrightarrow> same_setup p q \<Longrightarrow> p_depth q = d \<Longrightarrow> t = Some s \<Longrightarrow> prints appended q e u (f q)"
    and "v = do { a \<leftarrow> t; b \<leftarrow> u; Some (a @ b) }"
  shows "prints appended p e v (and_then m f)"
  using assms(1,2) appended_trans assms(3) by (rule prints_seq)

lemma prints_seq_written:
  assumes "prints appended p d t m"
    and "\<And>q s. appended p q s \<Longrightarrow> same_setup p q \<Longrightarrow> p_depth q = d \<Longrightarrow> t = Some s \<Longrightarrow> prints written q e u (f q)"
    and "v = do { a \<leftarrow> t; b \<leftarrow> u; Some (a @ b) }"
  shows "prints written p e v (and_then m f)"
  using assms(1,2) appended_written assms(3) by (rule prints_seq)

subsection \<open>The printers\<close>

lemma print_number_prints:
  assumes "good_buffer p"
  shows "prints written p (p_depth p) (number_shown (valuedouble x)) (print_number x p)"
proof (cases "25 < length (number_text (valuedouble x))")
  case True
  then show ?thesis
    unfolding prints_def by (intro exI [of _ False] exI [of _ p]) (simp add: print_number_def number_shown_def)
next
  case False
  let ?s = "map (\<lambda>c. if c = decimal_point then CHR ''.'' else c) (number_text (valuedouble x))"
  have s: "number_shown (valuedouble x) = Some ?s" using False by (simp add: number_shown_def)
  obtain ok q where e: "emit (length ?s + 1) (?s @ [NUL]) p = Some (ok, q)" "same_setup p q"
    "if ok then good_buffer q \<and> kept p q \<and> p_offset q = p_offset p \<and> p_depth q = p_depth p \<and>
        p_offset p + (length ?s + 1) + 1 \<le> p_length q \<and> holds q (p_offset p) (?s @ [NUL])
     else (\<forall>m. length ?s + 1 \<le> m + 1 \<longrightarrow> \<not> room p m)"
    using emit_works [OF assms, of "?s @ [NUL]" "length ?s + 1"] by auto
  have a: "same_setup p (q\<lparr>p_offset := n\<rparr>) \<longleftrightarrow> same_setup p q" for n
    by (simp add: same_setup_def block_count_def)
  have "print_number x p = and_then (emit (length ?s + 1) (?s @ [NUL]) p) (advance (length ?s))"
    using False by (simp add: print_number_def Let_def)
  then show ?thesis
    using e s a by (cases ok) (auto simp: prints_def and_then_def advance_def written_def good_buffer_def kept_def holds_def)
qed

lemma length_escape_char: "length (escape_char c) = 1 + extra_chars c"
proof (cases "c \<in> {DQUOTE, BACKSLASH, CHR 0x08, CHR 0x0C, CHR 0x0A, CHR 0x0D, CHR 0x09}")
  case True
  then show ?thesis by (elim insertE emptyE) (simp_all add: escape_char_def extra_chars_def)
next
  case False
  then show ?thesis by (cases "ch c < 32") (simp_all add: escape_char_def extra_chars_def)
qed

lemma length_escaped: "length (concat (map escape_char t)) = length t + sum_list (map extra_chars t)"
  by (induction t) (simp_all add: length_escape_char)

lemma no_extra_chars: "sum_list (map extra_chars t) = 0 \<Longrightarrow> concat (map escape_char t) = t"
proof (induction t)
  case (Cons c t)
  then have "extra_chars c = 0" by simp
  then have "c \<noteq> DQUOTE" "c \<noteq> BACKSLASH" "31 < ch c"
    by (simp_all add: extra_chars_def split: if_split_asm)
  then have "escape_char c = [c]" by (simp add: escape_char_def)
  with Cons show ?case by simp
qed simp

lemma print_string_prints:
  assumes "good_buffer p"
  shows "prints written p (p_depth p) (Some (quoted s)) (print_string_ptr s p)"
proof (cases s)
  case None
  then show ?thesis
    using prints_emit [OF assms, of 3 "[DQUOTE, DQUOTE]"] by (simp add: print_string_ptr_def quoted_def)
next
  case (Some v)
  define t where "t = c_str v"
  define body where "body = concat (map escape_char t)"
  define n where "n = sum_list (map extra_chars t)"
  have len: "length body = length t + n"
    by (simp add: body_def length_escaped n_def)
  have psp: "print_string_ptr s p = and_then (ensure (length body + 3) p)
      (\<lambda>p. if n = 0 then map_option (\<lambda>p. (True, p)) (put (DQUOTE # t @ [DQUOTE, NUL]) p)
           else do {
             q \<leftarrow> put (DQUOTE # body) p;
             r \<leftarrow> put [DQUOTE, NUL] (q\<lparr>p_offset := p_offset q + length body + 1\<rparr>);
             Some (True, r\<lparr>p_offset := p_offset p\<rparr>) })"
    unfolding print_string_ptr_def Some option.case Let_def t_def [symmetric] n_def [symmetric]
      body_def [symmetric] len by (simp only: add.assoc)
  have q: "quoted s = DQUOTE # body @ [DQUOTE]" by (simp add: quoted_def Some body_def t_def)
  obtain ok q where e: "ensure (length body + 3) p = Some (ok, q)" "same_setup p q"
    "if ok then reserved (length body + 3) p q else (\<forall>m. length body + 3 \<le> m + 1 \<longrightarrow> \<not> room p m)"
    using ensure_works [OF assms, of "length body + 3"] by auto
  show ?thesis
  proof (cases ok)
    case False
    then show ?thesis
      unfolding prints_def psp q
      by (intro exI [of _ False] exI [of _ q]) (use e in \<open>simp add: and_then_def\<close>)
  next
    case True
    then have r: "reserved (length body + 3) p q" using e by simp
    have good: "good_buffer q" and off: "p_offset q = p_offset p" "p_depth q = p_depth p"
      and room: "p_offset q + length body + 4 \<le> p_length q" and kpq: "kept p q"
      using r by (simp_all add: reserved_def)
    show ?thesis
    proof (cases "n = 0")
      case True
      then have body: "body = t" unfolding body_def n_def by (rule no_extra_chars)
      obtain b where b: "put (DQUOTE # t @ [DQUOTE, NUL]) q = Some (q\<lparr>p_block := Some b\<rparr>)"
        "good_buffer (q\<lparr>p_block := Some b\<rparr>)"
        "take (length (DQUOTE # t @ [DQUOTE, NUL])) (drop (p_offset q) b) = DQUOTE # t @ [DQUOTE, NUL]"
        "\<forall>old. p_block q = Some old \<longrightarrow> take (p_offset q) b = take (p_offset q) old"
        "same_setup q (q\<lparr>p_block := Some b\<rparr>)"
        using put_works [OF good, of "DQUOTE # t @ [DQUOTE, NUL]"] room body by auto
      have "print_string_ptr s p = Some (True, q\<lparr>p_block := Some b\<rparr>)"
        using \<open>ok\<close> e(1) b(1) True by (simp add: psp and_then_def)
      moreover have "written p (q\<lparr>p_block := Some b\<rparr>) (quoted s)"
        using b kpq off unfolding q body by (auto simp: written_def holds_def kept_def)
      ultimately show ?thesis
        using same_setup_trans [OF e(2) b(5)] off by (auto simp: prints_def)
    next
      case False
      obtain b where b: "put (DQUOTE # body) q = Some (q\<lparr>p_block := Some b\<rparr>)"
        "good_buffer (q\<lparr>p_block := Some b\<rparr>)" "length b = p_length q"
        "take (length (DQUOTE # body)) (drop (p_offset q) b) = DQUOTE # body"
        "\<forall>old. p_block q = Some old \<longrightarrow> take (p_offset q) b = take (p_offset q) old"
        "same_setup q (q\<lparr>p_block := Some b\<rparr>)"
        using put_works [OF good, of "DQUOTE # body"] room by auto
      let ?q2 = "q\<lparr>p_block := Some b, p_offset := p_offset q + length body + 1\<rparr>"
      have good2: "good_buffer ?q2" using b(3) room by (simp add: good_buffer_def)
      obtain b2 where b2: "put [DQUOTE, NUL] ?q2 = Some (?q2\<lparr>p_block := Some b2\<rparr>)" "length b2 = p_length q"
        "take 2 (drop (p_offset q + length body + 1) b2) = [DQUOTE, NUL]"
        "take (p_offset q + length body + 1) b2 = take (p_offset q + length body + 1) b"
        using put_works [OF good2, of "[DQUOTE, NUL]"] room by (auto simp: numeral_2_eq_2)
      let ?r = "q\<lparr>p_block := Some b2\<rparr>"
      have pr: "print_string_ptr s p = Some (True, ?r)"
        using \<open>ok\<close> e(1) b(1) b2(1) False off(1) by (simp add: psp and_then_def)
      have "take (length (quoted s @ [NUL])) (drop (p_offset q) b2) = quoted s @ [NUL]"
      proof -
        have "take (length (DQUOTE # body)) (drop (p_offset q) b2) = DQUOTE # body"
          using arg_cong [OF b2(4), of "drop (p_offset q)"] b(4) by (simp add: drop_take add.commute)
        moreover have "take 2 (drop (length (DQUOTE # body)) (drop (p_offset q) b2)) = [DQUOTE, NUL]"
          using b2(3) by (simp add: add_ac)
        ultimately have "take (length (DQUOTE # body) + 2) (drop (p_offset q) b2) = (DQUOTE # body) @ [DQUOTE, NUL]"
          by (simp only: take_add)
        then show ?thesis by (simp add: q)
      qed
      moreover have "take (p_offset q) b2 = take (p_offset q) b"
        using arg_cong [OF b2(4), of "take (p_offset q)"] by (simp add: min_def)
      ultimately have "written p ?r (quoted s)"
        using b(5) b2(2) kpq off good by (auto simp: written_def good_buffer_def holds_def kept_def)
      moreover have "same_setup q ?r" using good b2(2) by (auto simp: same_setup_def block_count_def good_buffer_def)
      ultimately show ?thesis
        using pr same_setup_trans [OF e(2)] off by (auto simp: prints_def)
    qed
  qed
qed

lemma and_then_assoc: "and_then (and_then m f) g = and_then m (\<lambda>p. and_then (f p) g)"
  by (cases m) (auto simp: and_then_def)

lemma and_then_True [simp]: "and_then (Some (True, p)) f = f p"
  by (simp add: and_then_def)

lemma and_then_deeper [simp]: "and_then (deeper p) f = f (p\<lparr>p_depth := p_depth p + 1\<rparr>)"
  by (simp add: deeper_def)

lemma prints_nothing: "good_buffer p \<Longrightarrow> prints appended p (p_depth p) (Some []) (Some (True, p))"
  by (auto simp: prints_def appended_def kept_def holds_def good_buffer_def)

lemma good_after: "appended p q s \<Longrightarrow> good_buffer q"
  by (simp add: appended_def)

lemma format_after: "same_setup p q \<Longrightarrow> p_format q = p_format p"
  by (simp add: same_setup_def)

abbreviation value_prints :: "cJSON \<Rightarrow> bool" where
  "value_prints x \<equiv> \<forall>p. good_buffer p \<longrightarrow>
     prints written p (p_depth p) (render (p_format p) (p_depth p) x) (print_value x p)"

lemma value_measured:
  assumes "value_prints x" and "good_buffer p"
  shows "prints appended p (p_depth p) (render (p_format p) (p_depth p) x)
    (and_then (print_value x p) measure_printed)"
  using assms render_no_NUL(1) by (blast intro: prints_measure)

lemma string_measured:
  assumes "good_buffer p"
  shows "prints appended p (p_depth p) (Some (quoted s)) (and_then (print_string_ptr s p) measure_printed)"
  using print_string_prints [OF assms] quoted_no_NUL by (auto intro: prints_measure)

lemma print_elements_prints:
  assumes "\<forall>x \<in> set xs. value_prints x" and "good_buffer p"
  shows "prints appended p (p_depth p) (render_elements (p_format p) (p_depth p) xs) (print_elements xs p)"
  using assms
proof (induction xs arbitrary: p)
  case Nil
  then show ?case by (simp add: prints_nothing)
next
  case (Cons x xs)
  define f d where "f = p_format p" and "d = p_depth p"
  define sep where "sep = (if xs = [] then [] else CHR '','' # (if f then '' '' else []))"
  define tail where "tail = (\<lambda>q. and_then (if xs = [] then Some (True, q)
        else let n = (if p_format q then 2 else 1)
             in and_then (emit (n + 1) (CHR '','' # (if p_format q then '' '' else []) @ [NUL]) q)
                  (advance n)) (print_elements xs))"
  have tail: "prints appended q d (do { b \<leftarrow> render_elements f d xs; Some (sep @ b) }) (tail q)"
    if q: "good_buffer q" "p_format q = f" "p_depth q = d" for q
    unfolding tail_def
  proof (rule prints_seq_appended [where t = "Some sep" and d = d and u = "render_elements f d xs"])
    show "prints appended q d (Some sep) (if xs = [] then Some (True, q)
        else let n = (if p_format q then 2 else 1)
             in and_then (emit (n + 1) (CHR '','' # (if p_format q then '' '' else []) @ [NUL]) q) (advance n))"
      using prints_nothing [OF q(1)] prints_step [OF q(1), of sep "[NUL]" "length sep + 1"] q
      by (cases "xs = []"; cases f) (simp_all add: sep_def numeral_2_eq_2)
  next
    fix r s assume r: "appended q r s" "same_setup q r" "p_depth r = d"
    then show "prints appended r d (render_elements f d xs) (print_elements xs r)"
      using Cons.IH [of r] Cons.prems(1) q(2) good_after format_after by auto
  qed simp_all
  have "prints appended p d (render_elements f d (x # xs)) (and_then (and_then (print_value x p) measure_printed) tail)"
  proof (rule prints_seq_appended)
    show "prints appended p d (render f d x) (and_then (print_value x p) measure_printed)"
      unfolding f_def d_def using Cons.prems by (intro value_measured) auto
    show "prints appended q d (do { b \<leftarrow> render_elements f d xs; Some (sep @ b) }) (tail q)"
      if "appended p q s" "same_setup p q" "p_depth q = d" for q s
      using tail that good_after format_after by (auto simp: f_def)
    show "render_elements f d (x # xs) = do { a \<leftarrow> render f d x;
        b \<leftarrow> do { b \<leftarrow> render_elements f d xs; Some (sep @ b) }; Some (a @ b) }"
      by (cases "render f d x"; cases "render_elements f d xs") (simp_all add: sep_def)
  qed
  then show ?case by (simp add: and_then_assoc tail_def f_def d_def)
qed

lemma prints_step_emit:
  assumes "good_buffer p" and "n = length s" and "n \<le> k" and "k \<le> n + 1" and "length r \<le> k - n"
  shows "prints appended p (p_depth p) (Some s) (and_then (emit k (s @ r) p) (advance n))"
  using prints_step [OF assms(1), of s r k] assms(2-5) by simp

lemma length_indent: "length (indent n) \<le> n"
  by (simp add: indent_def)

lemma print_members_prints:
  assumes "\<forall>x \<in> set xs. value_prints x" and "good_buffer p"
  shows "prints appended p (p_depth p) (render_members (p_format p) (p_depth p) xs) (print_members xs p)"
  using assms
proof (induction xs arbitrary: p)
  case Nil
  then show ?case by (simp add: prints_nothing)
next
  case (Cons x xs)
  define f d where "f = p_format p" and "d = p_depth p"
  let ?ok = "\<lambda>q. good_buffer q \<and> p_format q = f \<and> p_depth q = d"
  define tabs where "tabs = (if f then indent d else [])"
  define colon where "colon = CHR '':'' # (if f then [CHR 0x09] else [])"
  define sep where "sep = (if xs = [] then [] else '','') @ (if f then [CHR 0x0A] else [])"
  define m1 where "m1 = (\<lambda>q. if p_format q
      then and_then (emit (p_depth q) (indent (p_depth q)) q) (\<lambda>q. advance (p_depth q) q) else Some (True, q))"
  define m2 where "m2 = (\<lambda>q. and_then (print_string_ptr (item_string x) q) measure_printed)"
  define m3 where "m3 = (\<lambda>q. let n = (if p_format q then 2 else 1)
      in and_then (emit n (CHR '':'' # (if p_format q then [CHR 0x09] else [])) q) (advance n))"
  define m4 where "m4 = (\<lambda>q. and_then (print_value x q) measure_printed)"
  define m5 where "m5 = (\<lambda>q. let n = (if p_format q then 1 else 0) + (if xs = [] then 0 else 1)
      in and_then (emit (n + 1) ((if xs = [] then [] else '','') @
           (if p_format q then [CHR 0x0A] else []) @ [NUL]) q) (advance n))"
  have 1: "prints appended q d (Some tabs) (m1 q)" if ok_q: "?ok q" for q
  proof (cases f)
    case True
    obtain ok r where e: "emit (p_depth q) (indent (p_depth q)) q = Some (ok, r)" "same_setup q r"
      "if ok then good_buffer r \<and> kept q r \<and> p_offset r = p_offset q \<and> p_depth r = p_depth q \<and>
          p_offset q + p_depth q + 1 \<le> p_length r \<and> holds r (p_offset q) (indent (p_depth q))
       else (\<forall>m. p_depth q \<le> m + 1 \<longrightarrow> \<not> room q m)"
      using emit_works [OF conjunct1 [OF ok_q] length_indent, of "p_depth q"]
      by (elim exE conjE) (rule that)
    have a: "same_setup q (r\<lparr>p_offset := n\<rparr>) \<longleftrightarrow> same_setup q r" for n
      by (simp add: same_setup_def block_count_def)
    show ?thesis
      using ok_q True e a by (cases ok) (auto simp: m1_def prints_def and_then_def advance_def tabs_def
          appended_def good_buffer_def kept_def holds_def indent_def)
  next
    case False
    then show ?thesis using ok_q prints_nothing [of q] by (simp add: m1_def tabs_def)
  qed
  have 2: "prints appended q d (Some (quoted (item_string x))) (m2 q)" if "?ok q" for q
    using string_measured [of q] that by (simp add: m2_def)
  have 3: "prints appended q d (Some colon) (m3 q)" if "?ok q" for q
    using prints_step_emit [of q "length colon" colon "length colon" "[]"] that
    by (cases f) (simp_all add: m3_def colon_def numeral_2_eq_2)
  have 4: "prints appended q d (render f d x) (m4 q)" if "?ok q" for q
    using value_measured [of x q] that Cons.prems(1) by (auto simp: m4_def)
  have 5: "prints appended q d (Some sep) (m5 q)" if "?ok q" for q
    using prints_step_emit [of q "length sep" sep "length sep + 1" "[NUL]"] that
    by (cases "xs = []"; cases f) (simp_all add: m5_def sep_def numeral_2_eq_2)
  have 6: "prints appended q d (render_members f d xs) (print_members xs q)" if "?ok q" for q
    using Cons.IH [of q] Cons.prems(1) that by auto
  have ok: "?ok r" if "appended q r s" "same_setup q r" "p_depth r = d" "?ok q" for q r s
    using that good_after format_after by auto
  have chain: "prints appended q d (do { a \<leftarrow> t; b \<leftarrow> u; Some (a @ b) }) (and_then (m q) g)"
    if "?ok q" "\<And>q. ?ok q \<Longrightarrow> prints appended q d t (m q)" "\<And>q. ?ok q \<Longrightarrow> prints appended q d u (g q)"
    for q t u m g
    by (rule prints_seq_appended [OF that(2) [OF that(1)] that(3) refl]) (rule ok, assumption+, rule that(1))
  note c5 = chain [where m = m5, OF _ 5 6]
  note c4 = chain [where m = m4, OF _ 4 c5]
  note c3 = chain [where m = m3, OF _ 3 c4]
  note c2 = chain [where m = m2, OF _ 2 c3]
  note c1 = chain [where m = m1, OF _ 1 c2]
  have "prints appended p d
      (do { a \<leftarrow> Some tabs; b \<leftarrow> (do { a \<leftarrow> Some (quoted (item_string x)); b \<leftarrow> (do { a \<leftarrow> Some colon;
        b \<leftarrow> (do { a \<leftarrow> render f d x; b \<leftarrow> (do { a \<leftarrow> Some sep; b \<leftarrow> render_members f d xs; Some (a @ b) });
        Some (a @ b) }); Some (a @ b) }); Some (a @ b) }); Some (a @ b) })
      (and_then (m1 p) (\<lambda>q. and_then (m2 q) (\<lambda>q. and_then (m3 q) (\<lambda>q. and_then (m4 q) (\<lambda>q.
        and_then (m5 q) (print_members xs))))))"
    by (rule c1) (simp_all add: Cons.prems(2) f_def d_def)
  then show ?case
    unfolding m1_def m2_def m3_def m4_def m5_def and_then_assoc f_def [symmetric] d_def [symmetric]
      print_members.simps
    by (cases "render f d x"; cases "render_members f d xs") (simp_all add: tabs_def colon_def sep_def)
qed

lemma prints_shallower:
  assumes "prints written p d t m"
  shows "prints written p (d - 1) t (and_then m shallower)"
proof -
  have "same_setup p (q\<lparr>p_depth := n\<rparr>) = same_setup p q" "written p (q\<lparr>p_depth := n\<rparr>) s = written p q s" for q n s
    by (simp_all add: same_setup_def block_count_def written_def good_buffer_def kept_def holds_def)
  then show ?thesis using assms by (fastforce simp: prints_def and_then_def shallower_def)
qed

lemma depth_irrelevant:
  "good_buffer (p\<lparr>p_depth := n\<rparr>) = good_buffer p"
  "prints post (p\<lparr>p_depth := n\<rparr>) d t m \<Longrightarrow> (\<And>q s. post (p\<lparr>p_depth := n\<rparr>) q s = post p q s) \<Longrightarrow> prints post p d t m"
  "written (p\<lparr>p_depth := n\<rparr>) q s = written p q s" "appended (p\<lparr>p_depth := n\<rparr>) q s = appended p q s"
proof -
  have 1: "same_setup (p\<lparr>p_depth := n\<rparr>) q = same_setup p q" "room (p\<lparr>p_depth := n\<rparr>) k = room p k" for q k
    by (simp_all add: same_setup_def block_count_def room_def)
  show "good_buffer (p\<lparr>p_depth := n\<rparr>) = good_buffer p"
    "written (p\<lparr>p_depth := n\<rparr>) q s = written p q s" "appended (p\<lparr>p_depth := n\<rparr>) q s = appended p q s"
    by (simp_all add: good_buffer_def written_def appended_def kept_def holds_def)
  show "prints post (p\<lparr>p_depth := n\<rparr>) d t m \<Longrightarrow> (\<And>q s. post (p\<lparr>p_depth := n\<rparr>) q s = post p q s) \<Longrightarrow> prints post p d t m"
    by (simp add: prints_def 1)
qed

lemma print_array_prints:
  assumes "\<forall>x \<in> set xs. value_prints x" and g: "good_buffer p"
  shows "prints written p (p_depth p)
    (do { r \<leftarrow> render_elements (p_format p) (p_depth p + 1) xs; Some (''['' @ r @ '']'') })
    (and_then (emit 1 ''['' p) (\<lambda>p. and_then (advance 1 p) (\<lambda>p. and_then (deeper p) (\<lambda>p.
       and_then (print_elements xs p) (\<lambda>p. and_then (emit 2 ('']'' @ [NUL]) p) shallower)))))"
proof -
  define f d where "f = p_format p" and "d = p_depth p"
  have open_b: "prints appended p d (Some ''['') (and_then (emit 1 ''['' p) (advance 1))"
    using prints_step_emit [OF g, of 1 "''[''" 1 "[]"] by (simp add: d_def)
  have body: "prints written q d (do { r \<leftarrow> render_elements f (d + 1) xs; b \<leftarrow> Some '']''; Some (r @ b) })
      (and_then (deeper q) (\<lambda>p. and_then (print_elements xs p) (\<lambda>p. and_then (emit 2 ('']'' @ [NUL]) p) shallower)))"
    if q: "good_buffer q" "p_format q = f" "p_depth q = d" for q
  proof -
    let ?q = "q\<lparr>p_depth := d + 1\<rparr>"
    have "prints written ?q d (do { r \<leftarrow> render_elements f (d + 1) xs; b \<leftarrow> Some '']''; Some (r @ b) })
        (and_then (print_elements xs ?q) (\<lambda>p. and_then (emit 2 ('']'' @ [NUL]) p) shallower))"
    proof (rule prints_seq_written [OF _ _ refl])
      show "prints appended ?q (d + 1) (render_elements f (d + 1) xs) (print_elements xs ?q)"
        using print_elements_prints [OF assms(1), of ?q] q by (simp add: depth_irrelevant(1))
      fix r s assume "appended ?q r s" "p_depth r = d + 1"
      then show "prints written r d (Some '']'') (and_then (emit 2 ('']'' @ [NUL]) r) shallower)"
        using prints_shallower [OF prints_emit [of r 2 "'']''"]] good_after by auto
    qed
    then show ?thesis using q by (auto intro: depth_irrelevant(2) simp: depth_irrelevant(3))
  qed
  have "prints written p d
      (do { a \<leftarrow> Some ''[''; b \<leftarrow> (do { r \<leftarrow> render_elements f (d + 1) xs; b \<leftarrow> Some '']''; Some (r @ b) }); Some (a @ b) })
      (and_then (and_then (emit 1 ''['' p) (advance 1)) (\<lambda>q. and_then (deeper q) (\<lambda>p.
         and_then (print_elements xs p) (\<lambda>p. and_then (emit 2 ('']'' @ [NUL]) p) shallower))))"
    using good_after format_after
    by (intro prints_seq_written [OF open_b _ refl] body) (auto simp: f_def)
  then show ?thesis by (simp add: and_then_assoc f_def d_def)
qed

lemma print_object_prints:
  assumes "\<forall>x \<in> set xs. value_prints x" and g: "good_buffer p"
  shows "prints written p (p_depth p)
    (do { r \<leftarrow> render_members (p_format p) (p_depth p + 1) xs;
          Some (''{'' @ (if p_format p then [CHR 0x0A] else []) @ r
                @ (if p_format p then indent (p_depth p) else []) @ ''}'') })
    (and_then (emit (if p_format p then 3 else 2) (''{'' @ (if p_format p then [CHR 0x0A] else [])) p) (\<lambda>p.
       and_then (deeper p) (\<lambda>p.
       and_then (advance (if p_format p then 2 else 1) p) (\<lambda>p.
       and_then (print_members xs p) (\<lambda>p.
       and_then (emit (if p_format p then p_depth p + 1 else 2)
                      ((if p_format p then indent (p_depth p - 1) else []) @ ''}'' @ [NUL]) p)
         shallower)))))"
proof -
  define f d where "f = p_format p" and "d = p_depth p"
  define front where "front = CHR ''{'' # (if f then [CHR 0x0A] else [])"
  define rear where "rear = (if f then indent d else []) @ ''}''"
  define close where "close = (\<lambda>p. and_then (emit (if p_format p then p_depth p + 1 else 2)
      ((if p_format p then indent (p_depth p - 1) else []) @ ''}'' @ [NUL]) p) shallower)"
  have open_b: "prints appended p d (Some front)
      (and_then (emit (if p_format p then 3 else 2) (''{'' @ (if p_format p then [CHR 0x0A] else [])) p)
        (advance (if f then 2 else 1)))"
    using prints_step_emit [OF g, of "length front" front "length front + 1" "[]"]
    by (cases f) (simp_all add: front_def f_def d_def numeral_2_eq_2 numeral_3_eq_3)
  have body: "prints written q d (do { r \<leftarrow> render_members f (d + 1) xs; b \<leftarrow> Some rear; Some (r @ b) })
      (and_then (deeper q) (\<lambda>p. and_then (print_members xs p) close))"
    if q: "good_buffer q" "p_format q = f" "p_depth q = d" for q
  proof -
    let ?q = "q\<lparr>p_depth := d + 1\<rparr>"
    have "prints written ?q d (do { r \<leftarrow> render_members f (d + 1) xs; b \<leftarrow> Some rear; Some (r @ b) })
        (and_then (print_members xs ?q) close)"
    proof (rule prints_seq_written [OF _ _ refl])
      show "prints appended ?q (d + 1) (render_members f (d + 1) xs) (print_members xs ?q)"
        using print_members_prints [OF assms(1), of ?q] q by (simp add: depth_irrelevant(1))
      fix r s assume r: "appended ?q r s" "p_depth r = d + 1" "same_setup ?q r"
      then have "p_format r = f" using format_after q(2) by fastforce
      then show "prints written r d (Some rear) (close r)"
        using prints_shallower [OF prints_emit [of r "length rear + 1" rear]] good_after [OF r(1)] r(2)
        by (cases f) (simp_all add: close_def rear_def indent_def numeral_2_eq_2)
    qed
    then show ?thesis using q by (auto intro: depth_irrelevant(2) simp: depth_irrelevant(3))
  qed
  have swap: "and_then (deeper p) (\<lambda>p. and_then (advance (if p_format p then 2 else 1) p) k) =
      and_then (advance (if p_format p then 2 else 1) p) (\<lambda>p. and_then (deeper p) k)" for p k
    by (cases p) (simp add: deeper_def advance_def)
  have fmt: "and_then (emit n bs p) (\<lambda>p. and_then (advance (if p_format p then 2 else 1) p) k) =
      and_then (and_then (emit n bs p) (advance (if f then 2 else 1))) k" if fits: "length bs \<le> n" for n bs k
  proof -
    obtain ok q where e: "emit n bs p = Some (ok, q)" "same_setup p q"
      using emit_works [OF g fits] by blast
    then have "p_format q = f" using format_after f_def by simp
    then show ?thesis using e(1) by (simp add: and_then_def)
  qed
  have "prints written p d
      (do { a \<leftarrow> Some front; b \<leftarrow> (do { r \<leftarrow> render_members f (d + 1) xs; b \<leftarrow> Some rear; Some (r @ b) }); Some (a @ b) })
      (and_then (and_then (emit (if p_format p then 3 else 2) (''{'' @ (if p_format p then [CHR 0x0A] else [])) p)
        (advance (if f then 2 else 1))) (\<lambda>q. and_then (deeper q) (\<lambda>p. and_then (print_members xs p) close)))"
    using good_after format_after
    by (intro prints_seq_written [OF open_b _ refl] body) (auto simp: f_def)
  then show ?thesis
    unfolding swap close_def [symmetric]
    by (subst fmt) (auto simp: f_def [symmetric] d_def [symmetric] front_def rear_def cong: bind_option_cong)
qed

text \<open>
  Printing an item, in whatever state the buffer is: the block gets the text of the item behind
  what it held, nothing outside the block is touched, and no block is lost.
\<close>

lemma print_value_prints: "value_prints x"
proof (induction x)
  case (CJson t c s i d k)
  show ?case
  proof (intro allI impI)
    fix p assume g: "good_buffer p"
    have no: "prints written p n None (Some (False, p))" for n
      unfolding prints_def by (intro exI [of _ False] exI [of _ p]) simp
    note lits = prints_emit [OF g, of 5 "''null''"] prints_emit [OF g, of 6 "''false''"]
      prints_emit [OF g, of 5 "''true''"]
    have raw: "prints written p (p_depth p) (map_option c_str s)
        (case s of None \<Rightarrow> Some (False, p) | Some v \<Rightarrow> emit (length (c_str v) + 1) (c_str v @ [NUL]) p)"
      using no prints_emit [OF g, of "length (c_str (the s)) + 1" "c_str (the s)"] by (cases s) simp_all
    have num: "prints written p (p_depth p) (number_shown d) (print_number (CJson t [] s i d k) p)"
      using print_number_prints [OF g, of "CJson t [] s i d k"] by simp
    have str: "prints written p (p_depth p) (Some (quoted s)) (print_string (CJson t [] s i d k) p)"
      using print_string_prints [OF g] by (simp add: print_string_def)
    show "prints written p (p_depth p) (render (p_format p) (p_depth p) (CJson t c s i d k))
        (print_value (CJson t c s i d k) p)"
      unfolding render.simps print_value.simps
      using lits raw num str no print_array_prints [OF ballI g, of c] print_object_prints [OF ballI g, of c]
        CJson.IH by (simp del: append.simps)
  qed
qed

subsection \<open>The entry points\<close>

lemma same_setup_live:
  "same_setup p q \<Longrightarrow> p_block p \<noteq> None \<Longrightarrow> live (p_mem q) = live (p_mem p) - (if p_block q = None then 1 else 0)"
  by (auto simp: same_setup_def block_count_def split: if_split_asm)

lemma print_exact:
  shows "\<exists>r h'. print item f ra junk h = Some (r, h') \<and> live h' = live h + (if r = None then 0 else 1) \<and>
    (\<forall>t. r = Some t \<longrightarrow> (\<exists>s. render f 0 item = Some s \<and> t = s @ [NUL])) \<and>
    (\<forall>s. render f 0 item = Some s \<and> int (length s + 2) \<le> INT_MAX \<and> oom h = (\<lambda>_. False) \<longrightarrow> r \<noteq> None)"
proof -
  obtain ok h1 where m: "malloc h = (ok, h1)" by fastforce
  define p where "p = \<lparr>p_block = (if ok then Some (replicate print_default_size junk) else None),
    p_length = print_default_size, p_offset = 0, p_depth = 0, p_noalloc = False, p_format = f,
    p_realloc = ra, p_junk = junk, p_mem = h1\<rparr>"
  have h1: "live h1 = live h + of_bool ok" "oom h1 = oom h" using m by (auto simp: heap_simps)
  show ?thesis
  proof (cases ok)
    case False
    then show ?thesis
      using m h1 malloc_never_fails [of h] by (auto simp: print_def fail_print_def)
  next
    case True
    have g: "good_buffer p" using True by (simp add: p_def good_buffer_def print_default_size_def)
    have p: "p_offset p = 0" "p_depth p = 0" "p_format p = f" "p_noalloc p = False" "p_mem p = h1" "p_block p \<noteq> None"
      using True by (simp_all add: p_def)
    obtain printed q where q: "print_value item p = Some (printed, q)" "same_setup p q"
      "printed \<longrightarrow> (\<exists>s. render f 0 item = Some s \<and> written p q s)"
      "\<not> printed \<longrightarrow> (\<forall>s. render f 0 item = Some s \<longrightarrow> \<not> room p (length s))"
      using print_value_prints [rule_format, OF g, of item] p by (auto simp: prints_def)
    show ?thesis
    proof (cases printed)
      case False
      have "print item f ra junk h = Some (fail_print q)"
        using m True q(1) False by (simp add: print_def p_def Let_def)
      moreover have "live (snd (fail_print q)) = live h" "fst (fail_print q) = None"
        using same_setup_live [OF q(2)] p True h1 by (auto simp: fail_print_def)
      moreover have "\<not> room p (length s)" if "render f 0 item = Some s" for s using q(4) False that by blast
      ultimately show ?thesis using p h1 by (cases "fail_print q") (auto simp: room_def)
    next
      case printed: True
      with q obtain s where s: "render f 0 item = Some s" "written p q s" by auto
      have "NUL \<notin> set s" using s(1) by (rule render_no_NUL)
      from measure_written [OF s(2) this] p
      have upd: "update_offset q = Some (q\<lparr>p_offset := length s\<rparr>)"
        by (auto simp: measure_printed_def)
      obtain buf where buf: "p_block q = Some buf" "length buf = p_length q"
        "take (length s + 1) buf = s @ [NUL]"
        using s(2) p by (auto simp: written_def good_buffer_def holds_def)
      have len: "length s + 1 \<le> length buf" using arg_cong [OF buf(3), of length] by simp
      obtain ok2 h2 where m2: "malloc (p_mem q) = (ok2, h2)" by fastforce
      have h2: "live h2 = live h + 1 + of_bool ok2"
        using m2 same_setup_live [OF q(2)] p h1 True buf by (auto simp: heap_simps)
      have "oom (p_mem q) = oom h" using q(2) h1 p by (simp add: same_setup_def)
      then have ok2: "oom h = (\<lambda>_. False) \<longrightarrow> ok2" using m2 malloc_never_fails [of "p_mem q"] by auto
      have "print item f ra junk h =
          (if \<not> ok2 then Some (None, dealloc h2) else Some (Some (s @ [NUL]), dealloc h2))"
        using m True q(1) printed upd buf m2 len
        by (simp add: print_def p_def Let_def fail_print_def min_def nth_append list_update_append)
      then show ?thesis using h2 s ok2 by auto
    qed
  qed
qed

lemma preallocated_exact:
  assumes "0 \<le> len" and "len \<le> INT_MAX" and "length b = nat len"
  shows "\<exists>ok b'. cJSON_PrintPreallocated item (Some b) len f h = Some (ok, Some b') \<and> length b' = length b \<and>
    (ok \<longrightarrow> (\<exists>s. render f 0 item = Some s \<and> take (length s + 1) b' = s @ [NUL])) \<and>
    (\<forall>s. render f 0 item = Some s \<and> length s + 2 \<le> length b \<longrightarrow> ok)"
proof -
  define p where "p = \<lparr>p_block = Some b, p_length = nat len, p_offset = 0, p_depth = 0, p_noalloc = True,
    p_format = f, p_realloc = True, p_junk = NUL, p_mem = h\<rparr>"
  have g: "good_buffer p" using assms by (auto simp: p_def good_buffer_def)
  have p: "p_offset p = 0" "p_depth p = 0" "p_format p = f" "p_noalloc p" "p_mem p = h" "p_length p = nat len"
    by (simp_all add: p_def)
  obtain printed q where q: "print_value item p = Some (printed, q)" "same_setup p q"
    "printed \<longrightarrow> (\<exists>s. render f 0 item = Some s \<and> written p q s)"
    "\<not> printed \<longrightarrow> (\<forall>s. render f 0 item = Some s \<longrightarrow> \<not> room p (length s))"
    using print_value_prints [rule_format, OF g, of item] p by (auto simp: prints_def)
  have "map_option length (p_block q) = Some (nat len)" "p_length q = nat len"
    using q(2) p assms by (simp_all add: same_setup_def p_def)
  then obtain b' where b': "p_block q = Some b'" "length b' = nat len" by auto
  have "cJSON_PrintPreallocated item (Some b) len f h = Some (printed, Some b')"
    using assms q(1) b' by (simp add: cJSON_PrintPreallocated_def p_def)
  moreover have "\<exists>s. render f 0 item = Some s \<and> take (length s + 1) b' = s @ [NUL]" if printed
    using that q(3) b' p by (auto simp: written_def holds_def)
  moreover have printed if "render f 0 item = Some s" "length s + 2 \<le> length b" for s
  proof -
    have "room p (length s)" using that assms p by (simp add: room_def)
    then show ?thesis using q(4) that(1) by blast
  qed
  ultimately show ?thesis using b' assms by auto
qed

lemma buffered_exact:
  assumes "0 \<le> prebuffer" and "0 < prebuffer \<or> ra"
  shows "\<exists>r h'. cJSON_PrintBuffered item prebuffer f ra junk h = Some (r, h') \<and>
    live h' = live h + (if r = None then 0 else 1) \<and>
    (\<forall>t. r = Some t \<longrightarrow> (\<exists>s. render f 0 item = Some s \<and> take (length s + 1) t = s @ [NUL]))"
proof -
  obtain ok h1 where m: "malloc h = (ok, h1)" by fastforce
  define p where "p = \<lparr>p_block = Some (replicate (nat prebuffer) junk), p_length = nat prebuffer,
    p_offset = 0, p_depth = 0, p_noalloc = False, p_format = f, p_realloc = ra, p_junk = junk, p_mem = h1\<rparr>"
  have h1: "live h1 = live h + of_bool ok" using m by (auto simp: heap_simps)
  have g: "good_buffer p" using assms by (auto simp: p_def good_buffer_def)
  have p: "p_offset p = 0" "p_depth p = 0" "p_format p = f" "p_mem p = h1" "p_block p \<noteq> None"
    by (simp_all add: p_def)
  obtain printed q where q: "print_value item p = Some (printed, q)" "same_setup p q"
    "printed \<longrightarrow> (\<exists>s. render f 0 item = Some s \<and> written p q s)"
    using print_value_prints [rule_format, OF g, of item] p by (auto simp: prints_def)
  have live: "live (p_mem q) = live h1 - (if p_block q = None then 1 else 0)"
    using same_setup_live [OF q(2) p(5)] p(4) by simp
  have r: "cJSON_PrintBuffered item prebuffer f ra junk h =
      (if \<not> ok then Some (None, h1) else Some (if printed then (p_block q, p_mem q) else fail_print q))"
    using assms(1) m q(1) by (simp add: cJSON_PrintBuffered_def p_def)
  show ?thesis
  proof (cases "ok \<and> printed")
    case True
    then obtain s where s: "render f 0 item = Some s" "written p q s" using q(3) by auto
    then obtain b where "p_block q = Some b" "take (length s + 1) b = s @ [NUL]"
      using p(1) by (auto simp: written_def holds_def)
    then show ?thesis using True r s live h1 by auto
  next
    case False
    then show ?thesis using r live h1 by (auto simp: fail_print_def)
  qed
qed

text \<open>
  C7. Printing refines rendering: whatever the hooks, the heap and the depth of the item, the
  printer touches no byte outside its block and loses no block; what it returns is the rendering
  of the item and its terminator; and it returns nothing only if the item has no rendering, an
  allocation fails or the text reaches \<open>INT_MAX\<close>.
\<close>

theorem print_refines_render:
  "\<exists>r h'. print item f ra junk h = Some (r, h') \<and> live h' = live h + (if r = None then 0 else 1) \<and>
    (\<forall>t. r = Some t \<longrightarrow> (\<exists>s. render f 0 item = Some s \<and> t = s @ [NUL])) \<and>
    (\<forall>s. render f 0 item = Some s \<and> int (length s + 2) \<le> INT_MAX \<and> oom h = (\<lambda>_. False) \<longrightarrow> r \<noteq> None)"
  by (rule print_exact)

lemma print_refines_render_witness:
  "\<exists>h'. print (CJson cJSON_True [] None 0 (DFin False 0) None) True True NUL fresh_heap = Some (Some (''true'' @ [NUL]), h')"
proof -
  have "render True 0 (CJson cJSON_True [] None 0 (DFin False 0) None) = Some ''true''" by code_simp
  then show ?thesis
    using print_refines_render [of "CJson cJSON_True [] None 0 (DFin False 0) None" True True NUL fresh_heap]
    by (auto simp: INT_MAX_def fresh_heap_def)
qed

text \<open>
  C15. Printing into a block of the caller stays in the block, fits whenever the block has two
  bytes more than the text, and what is then in the block is the text and its terminator (the
  header of the library asks for five bytes more).
\<close>

theorem print_preallocated_fits:
  assumes "0 \<le> len" and "len \<le> INT_MAX" and "length b = nat len"
  shows "\<exists>ok b'. cJSON_PrintPreallocated item (Some b) len f h = Some (ok, Some b') \<and> length b' = length b \<and>
    (ok \<longrightarrow> (\<exists>s. render f 0 item = Some s \<and> take (length s + 1) b' = s @ [NUL])) \<and>
    (\<forall>s. render f 0 item = Some s \<and> length s + 2 \<le> length b \<longrightarrow> ok)"
  using assms by (rule preallocated_exact)

lemma print_preallocated_fits_witness:
  "\<exists>b'. cJSON_PrintPreallocated (CJson cJSON_True [] None 0 (DFin False 0) None)
      (Some (replicate 6 NUL)) 6 False fresh_heap = Some (True, Some b') \<and> take 5 b' = ''true'' @ [NUL]"
proof -
  have "render False 0 (CJson cJSON_True [] None 0 (DFin False 0) None) = Some ''true''" by code_simp
  then show ?thesis
    using print_preallocated_fits [of 6 "replicate 6 NUL" "CJson cJSON_True [] None 0 (DFin False 0) None" False fresh_heap]
    by (auto simp: INT_MAX_def eval_nat_numeral)
qed

end
