(* ===== verification/CJsonRound.thy ===== *)
theory CJsonRound
  imports CJsonRender CJsonParseProps
begin

section \<open>cJSON: printing and parsing back\<close>

text \<open>
  Parsing the text of an item gives the item back: the parser undoes the escapes of the printer,
  reads the numbers it wrote, and skips the white space of the formatted style.  The items are
  those the parser itself can produce (\<open>canonical\<close>), with strings that have no terminator inside
  and numbers whose text reads back as themselves, which is shown for all integers below
  \<open>10^15\<close>.
\<close>

subsection \<open>Strings\<close>

lemma at_offset_in: "content b = p @ c # q \<Longrightarrow> offset b = length p \<Longrightarrow> at_offset b 0 = Some c"
  by (simp add: at_offset_def)

lemma escape_cases:
  obtains (plain) "escape_char c = [c]" "c \<noteq> DQUOTE" "c \<noteq> BACKSLASH"
  | (short) x where "escape_char c = [BACKSLASH, x]" "simple_escape x = Some c"
  | (hex) "escape_char c = BACKSLASH # CHR ''u'' # show_hex4 (ch c)" "ch c < 32"
proof (cases "c \<in> {DQUOTE, BACKSLASH, CHR 0x08, CHR 0x0C, CHR 0x0A, CHR 0x0D, CHR 0x09}")
  case True
  then have "\<exists>x. escape_char c = [BACKSLASH, x] \<and> simple_escape x = Some c"
    by (elim insertE emptyE) (simp_all add: escape_char_def simple_escape_def)
  then show ?thesis using short by blast
next
  case False
  then show ?thesis
    by (cases "31 < ch c") (auto simp: escape_char_def intro: plain hex)
qed

lemma hex_char_plain: "d < 16 \<Longrightarrow> hex_char d \<noteq> DQUOTE \<and> hex_char d \<noteq> BACKSLASH"
  by (cases "d < 10") (auto simp: hex_char_def byte_simps dest: arg_cong [where f = "of_char :: char \<Rightarrow> nat"])

lemma hex_digit_hex_char: "d < 16 \<Longrightarrow> hex_digit (hex_char d) = Some d"
  by (cases "d < 10") (auto simp: hex_char_def hex_digit_def byte_simps)

lemma scan_plain:
  assumes "c \<noteq> DQUOTE" and "c \<noteq> BACKSLASH"
  shows "scan_string (pre @ c # post) (length pre) k = scan_string ((pre @ [c]) @ post) (length (pre @ [c])) k"
  using assms by (subst scan_string.simps) (simp add: nth_append)

lemma scan_escape:
  "scan_string (pre @ BACKSLASH # c # post) (length pre) k =
     scan_string ((pre @ [BACKSLASH, c]) @ post) (length (pre @ [BACKSLASH, c])) (k + 1)"
  by (subst scan_string.simps) (simp add: nth_append)

lemma scan_hex4:
  "scan_string (pre @ show_hex4 n @ post) (length pre) k =
     scan_string ((pre @ show_hex4 n) @ post) (length (pre @ show_hex4 n)) k"
proof -
  define a b c d where "a = hex_char (n div 4096 mod 16)" and "b = hex_char (n div 256 mod 16)"
    and "c = hex_char (n div 16 mod 16)" and "d = hex_char (n mod 16)"
  have p: "a \<noteq> DQUOTE \<and> a \<noteq> BACKSLASH" "b \<noteq> DQUOTE \<and> b \<noteq> BACKSLASH"
    "c \<noteq> DQUOTE \<and> c \<noteq> BACKSLASH" "d \<noteq> DQUOTE \<and> d \<noteq> BACKSLASH"
    by (simp_all add: a_def b_def c_def d_def hex_char_plain)
  have s: "show_hex4 n = [a, b, c, d]" by (simp add: show_hex4_def a_def b_def c_def d_def)
  show ?thesis
    using scan_plain [of a pre "b # c # d # post" k] scan_plain [of b "pre @ [a]" "c # d # post" k]
      scan_plain [of c "pre @ [a, b]" "d # post" k] scan_plain [of d "pre @ [a, b, c]" post k] p
    by (simp add: s)
qed

lemma scan_escaped_char:
  "\<exists>k'. scan_string (pre @ escape_char c @ post) (length pre) k =
     scan_string ((pre @ escape_char c) @ post) (length (pre @ escape_char c)) k'"
proof (cases c rule: escape_cases)
  case plain
  then show ?thesis using scan_plain [of c pre post k] by auto
next
  case (short x)
  then show ?thesis using scan_escape [of pre x post k] by auto
next
  case hex
  then show ?thesis
    using scan_escape [of pre "CHR ''u''" "show_hex4 (ch c) @ post" k]
      scan_hex4 [of "pre @ [BACKSLASH, CHR ''u'']" "ch c" post "k + 1"] by auto
qed

lemma scan_escaped:
  "\<exists>k'. scan_string (pre @ concat (map escape_char v) @ DQUOTE # post) (length pre) k =
     Some (length pre + length (concat (map escape_char v)), k')"
proof (induction v arbitrary: pre k)
  case Nil
  show ?case by (subst scan_string.simps) simp
next
  case (Cons c v)
  obtain k2 where "scan_string (pre @ escape_char c @ concat (map escape_char v) @ DQUOTE # post) (length pre) k =
     scan_string ((pre @ escape_char c) @ concat (map escape_char v) @ DQUOTE # post) (length (pre @ escape_char c)) k2"
    using scan_escaped_char by blast
  then show ?case using Cons.IH [of "pre @ escape_char c" k2] by (auto simp: add.assoc)
qed

lemma parse_hex4_show:
  assumes "n < 65536"
  shows "parse_hex4 (pre @ show_hex4 n @ post) (length pre) = Some n"
proof -
  have "n div 4096 mod 16 = n div 4096" "n div 4096 < 16" using assms by simp_all
  moreover have "n div 4096 * 16 + n div 256 mod 16 = n div 256" "n div 256 * 16 + n div 16 mod 16 = n div 16"
    "n div 16 * 16 + n mod 16 = n"
    using div_mult_mod_eq [of "n div 256" 16] div_mult_mod_eq [of "n div 16" 16]
    by (simp_all add: div_mult2_eq [symmetric])
  ultimately show ?thesis
    by (simp add: parse_hex4_unfold nth_append show_hex4_def hex_digit_hex_char)
qed

lemma unescape_step_escaped:
  assumes "length pre + length (escape_char c) \<le> e"
  shows "unescape_step (pre @ escape_char c @ post) (length pre) e = Some (length (escape_char c), [c])"
proof (cases c rule: escape_cases)
  case plain
  then show ?thesis by (simp add: unescape_step_def nth_append)
next
  case (short x)
  with assms show ?thesis by (simp add: unescape_step_def nth_append)
next
  case hex
  have "parse_hex4 ((pre @ [BACKSLASH, CHR ''u'']) @ show_hex4 (ch c) @ post) (length (pre @ [BACKSLASH, CHR ''u''])) = Some (ch c)"
    by (rule parse_hex4_show) (simp add: less_trans [OF of_char_lt_256])
  then have p: "parse_hex4 (pre @ BACKSLASH # CHR ''u'' # show_hex4 (ch c) @ post) (length pre + 2) = Some (ch c)"
    by simp
  have "simple_escape CHR ''u'' = None" by (simp add: simple_escape_def)
  moreover have "utf8_encode (ch c) = Some [c]" using hex(2) utf8_encode_1 [of "ch c"] by simp
  ultimately show ?thesis
    using assms hex p by (simp add: unescape_step_def nth_append utf16_literal_to_utf8_def Let_def)
qed

lemma unescape_escaped:
  "unescape_loop (pre @ concat (map escape_char v) @ DQUOTE # post) (length pre)
     (length pre + length (concat (map escape_char v))) out =
   Some (True, length pre + length (concat (map escape_char v)), out @ v)"
proof (induction v arbitrary: pre out)
  case Nil
  show ?case by (subst unescape_loop.simps) simp
next
  case (Cons c v)
  define rest where "rest = concat (map escape_char v) @ DQUOTE # post"
  define e where "e = length pre + length (concat (map escape_char (c # v)))"
  have "unescape_step (pre @ escape_char c @ rest) (length pre) e = Some (length (escape_char c), [c])"
    by (rule unescape_step_escaped) (simp add: e_def)
  moreover have "length pre < e" "length (escape_char c) \<noteq> 0" by (simp_all add: e_def length_escape_char)
  ultimately have "unescape_loop (pre @ escape_char c @ rest) (length pre) e out =
      unescape_loop ((pre @ escape_char c) @ rest) (length (pre @ escape_char c)) e (out @ [c])"
    by (subst unescape_loop.simps) simp
  also have "\<dots> = Some (True, e, out @ c # v)"
    using Cons.IH [of "pre @ escape_char c" "out @ [c]"] by (simp add: rest_def e_def add.assoc)
  finally show ?case by (simp add: rest_def e_def)
qed

lemma parse_string_quoted:
  assumes "content b = pre @ quoted (Some v) @ post" and "offset b = length pre" and "NUL \<notin> set v"
    and "oom (mem b) = (\<lambda>_. False)"
  shows "\<exists>h. parse_string y b = Some (True, set_valuestring (Some v) (set_ctype cJSON_String y),
      b\<lparr>offset := length pre + length (quoted (Some v)), mem := h\<rparr>) \<and> oom h = (\<lambda>_. False)"
proof -
  define body where "body = concat (map escape_char v)"
  have q: "quoted (Some v) = DQUOTE # body @ [DQUOTE]" using assms(3) by (simp add: quoted_def c_str_no_NUL body_def)
  have c: "content b = (pre @ [DQUOTE]) @ body @ DQUOTE # post" using assms(1) q by simp
  obtain k where "scan_string (content b) (length (pre @ [DQUOTE])) 0 = Some (length (pre @ [DQUOTE]) + length body, k)"
    unfolding c body_def using scan_escaped by blast
  moreover have "unescape_loop (content b) (length (pre @ [DQUOTE])) (length (pre @ [DQUOTE]) + length body) [] =
      Some (True, length (pre @ [DQUOTE]) + length body, v)"
    unfolding c body_def using unescape_escaped [of "pre @ [DQUOTE]" v post "[]"] by simp
  moreover have "at_offset b 0 = Some DQUOTE" using assms(2) c by (simp add: at_offset_def)
  moreover obtain h where h: "malloc (mem b) = (True, h)" "oom h = (\<lambda>_. False)"
    using malloc_never_fails [OF assms(4)] assms(4) by (cases "malloc (mem b)") (auto simp: heap_simps)
  ultimately have "parse_string y b = Some (True, set_valuestring (Some v) (set_ctype cJSON_String y),
      b\<lparr>offset := length pre + length (quoted (Some v)), mem := h\<rparr>)"
    using assms(2) q by (simp add: parse_string_def Let_def)
  with h(2) show ?thesis by blast
qed

subsection \<open>Numbers\<close>

lemma number_text_cases: "number_text d = format_g 15 d \<or> number_text d = format_g 17 d"
proof -
  have "dbl_times_zero d = DNan \<or> (\<exists>s. dbl_times_zero d = DFin s 0)" by (cases d) auto
  then have "\<not> dbl_less (dbl_of_rat False (1 / 10 ^ 7)) (dbl_times_zero d) \<and>
      \<not> dbl_less (dbl_times_zero d) (dbl_of_rat True (1 / 10 ^ 7))"
    using dbl_of_rat_not_below_zero [of "1 / 10 ^ 7"] dbl_of_rat_not_above_zero [of "1 / 10 ^ 7"]
    using not_less_NaN by auto
  then show ?thesis
    by (auto simp: number_text_def Let_def split: option.splits)
qed

definition number_text_chars :: "bytes \<Rightarrow> bool" where
  "number_text_chars t \<longleftrightarrow> set t \<subseteq> insert CHR ''.'' (set number_chars)"

lemma number_text_chars_append: "number_text_chars (s @ t) \<longleftrightarrow> number_text_chars s \<and> number_text_chars t"
  by (auto simp: number_text_chars_def)

lemma digit_number_char: "is_digit c \<Longrightarrow> c \<in> set number_chars"
proof -
  assume "is_digit c"
  then have "48 \<le> ch c" "ch c \<le> 57" by (simp_all add: is_digit_def)
  then have "ch c = 48 \<or> ch c = 49 \<or> ch c = 50 \<or> ch c = 51 \<or> ch c = 52 \<or> ch c = 53 \<or> ch c = 54
      \<or> ch c = 55 \<or> ch c = 56 \<or> ch c = 57"
    by presburger
  then have "ch c = ch CHR ''0'' \<or> ch c = ch CHR ''1'' \<or> ch c = ch CHR ''2'' \<or> ch c = ch CHR ''3'' \<or> ch c = ch CHR ''4'' \<or> ch c = ch CHR ''5'' \<or> ch c = ch CHR ''6'' \<or> ch c = ch CHR ''7'' \<or> ch c = ch CHR ''8'' \<or> ch c = ch CHR ''9''"
    by simp
  then show ?thesis by (simp only: of_char_inj_iff) (auto simp: number_chars_def)
qed

lemma show_nat_number_chars: "set (show_nat n) \<subseteq> set number_chars"
  using show_nat_digits digit_number_char by blast

lemma with_fraction_chars:
  "set ip \<subseteq> set number_chars \<Longrightarrow> set fp \<subseteq> set number_chars \<Longrightarrow> number_text_chars (with_fraction ip fp)"
  using strip_zeros_sub [of fp] by (auto simp: number_text_chars_def with_fraction_def Let_def)

lemma format_g_digits_chars: "number_text_chars (format_g_digits P n e)"
proof -
  have sub: "set (take k (show_nat n)) \<subseteq> set number_chars" "set (drop k (show_nat n)) \<subseteq> set number_chars" for k
    using show_nat_number_chars [of n] set_take_subset set_drop_subset by fastforce+
  have zero: "CHR ''0'' \<in> set number_chars" by (simp add: number_chars_def)
  have ex: "number_text_chars (show_exponent e)"
    using show_nat_number_chars [of "nat \<bar>e\<bar>"]
    by (auto simp: number_text_chars_def show_exponent_def Let_def number_chars_def)
  have "number_text_chars (with_fraction (take k (show_nat n)) (drop k (show_nat n)))" for k
    by (rule with_fraction_chars [OF sub])
  note A = this
  have B: "number_text_chars (with_fraction ''0'' (replicate m CHR ''0'' @ show_nat n))" for m
    using zero show_nat_number_chars [of n] by (intro with_fraction_chars) auto
  show ?thesis
    unfolding format_g_digits_def Let_def
    by (cases "- 4 \<le> e \<and> e < int P"; cases "0 \<le> e") (simp_all only: number_text_chars_append A B ex if_True if_False simp_thms)
qed

lemma format_g_chars: "number_text_chars (format_g P (DFin s q))"
proof -
  obtain n e where e: "sig_digits P q = (n, e)" by fastforce
  have "number_text_chars ''-''" "number_text_chars []" "number_text_chars ''0''"
    by (simp_all add: number_text_chars_def number_chars_def)
  then show ?thesis
    unfolding format_g.simps e prod.case Let_def
    by (cases s; cases "q = 0") (simp_all only: if_True if_False number_text_chars_append format_g_digits_chars simp_thms)
qed

lemma hd_with_fraction: "ip \<noteq> [] \<Longrightarrow> hd (with_fraction ip fp) = hd ip \<and> with_fraction ip fp \<noteq> []"
  by (simp add: with_fraction_def)

lemma hd_show_nat: "is_digit (hd (show_nat n))"
  using show_nat_digits [of n] by (cases "show_nat n") auto

lemma format_g_digits_hd: "is_digit (hd (format_g_digits P n e)) \<and> format_g_digits P n e \<noteq> []"
proof -
  have t: "take (Suc k) (show_nat n) \<noteq> []" "hd (take (Suc k) (show_nat n)) = hd (show_nat n)" for k
    by (cases "show_nat n"; simp)+
  have z: "is_digit CHR ''0''" by (simp add: is_digit_def)
  show ?thesis
    using t [of 0] t [of "nat e"] z hd_show_nat [of n] hd_with_fraction [of "take (Suc k) (show_nat n)" for k]
      hd_with_fraction [of "''0''"]
    by (auto simp: format_g_digits_def Let_def)
qed

lemma format_g_hd: "format_g P (DFin s q) \<noteq> [] \<and>
    (hd (format_g P (DFin s q)) = CHR ''-'' \<or> is_digit (hd (format_g P (DFin s q))))"
proof -
  obtain n e where "sig_digits P q = (n, e)" by fastforce
  moreover have "is_digit CHR ''0''" by (simp add: is_digit_def)
  ultimately show ?thesis using format_g_digits_hd [of P n e] by simp
qed

text \<open>A finite number whose text reads back as the number.\<close>

definition reprints :: "dbl \<Rightarrow> bool" where
  "reprints d \<longleftrightarrow> (\<exists>s q t. d = DFin s q \<and> number_shown d = Some t \<and> strtod t = (d, length t))"

lemma number_shown_shape:
  assumes "number_shown (DFin s q) = Some t"
  shows "length t \<le> 25" and "number_text_chars t" and "t \<noteq> []" and "hd t = CHR ''-'' \<or> is_digit (hd t)"
proof -
  have id: "map (\<lambda>c. if c = decimal_point then CHR ''.'' else c) u = u" for u :: bytes
    by (induction u) (simp_all add: decimal_point_def)
  from assms have t: "t = number_text (DFin s q)" "length t \<le> 25"
    by (auto simp: number_shown_def id Let_def split: if_split_asm)
  then obtain P where p: "t = format_g P (DFin s q)"
    using number_text_cases [of "DFin s q"] by auto
  show "length t \<le> 25" by (rule t(2))
  show "number_text_chars t" unfolding p by (rule format_g_chars)
  show "t \<noteq> []" "hd t = CHR ''-'' \<or> is_digit (hd t)" unfolding p using format_g_hd by blast+
qed

text \<open>A byte behind a value that cannot be part of a number.\<close>

definition ends_number :: "bytes \<Rightarrow> bool" where
  "ends_number post \<longleftrightarrow> post \<noteq> [] \<and> hd post \<notin> insert CHR ''.'' (set number_chars)"

lemma copy_number_text:
  assumes "number_text_chars t" and "length t \<le> n" and "ends_number post"
  shows "copy_number n (t @ post) = t"
  using assms(1,2)
proof (induction t arbitrary: n)
  case Nil
  then show ?case using assms(3) by (cases n; cases post) (auto simp: ends_number_def)
next
  case (Cons c t)
  then obtain m where "n = Suc m" by (cases n) auto
  with Cons show ?case by (auto simp: number_text_chars_def decimal_point_def)
qed

lemma parse_number_shown:
  assumes "content b = pre @ t @ post" and "offset b = length pre" and "ends_number post"
    and "number_shown d = Some t" and "reprints d" and "saturate_int d = Some i"
  shows "parse_number y b = Some (True, set_ctype cJSON_Number (set_valueint i (set_valuedouble d y)),
      b\<lparr>offset := length pre + length t\<rparr>)"
proof -
  obtain s q where d: "d = DFin s q" and st: "strtod t = (d, length t)"
    using assms(4,5) by (auto simp: reprints_def)
  note sh = number_shown_shape [OF assms(4) [unfolded d]]
  have "copy_number 63 (drop (offset b) (content b)) = t"
    using assms(1-3) sh(1,2) by (simp add: copy_number_text)
  then show ?thesis using st sh(3) assms(2,6) by (simp add: parse_number_def)
qed

subsection \<open>The items that are printed and parsed back\<close>

fun canonical :: "cJSON \<Rightarrow> bool" where
  "canonical (CJson t c s i d k) \<longleftrightarrow>
     (t = cJSON_NULL \<or> t = cJSON_False) \<and> c = [] \<and> s = None \<and> i = 0 \<and> d = DFin False 0 \<or>
     t = cJSON_True \<and> c = [] \<and> s = None \<and> i = 1 \<and> d = DFin False 0 \<or>
     t = cJSON_Number \<and> c = [] \<and> s = None \<and> saturate_int d = Some i \<and> reprints d \<or>
     t = cJSON_String \<and> c = [] \<and> (\<exists>v. s = Some v \<and> NUL \<notin> set v) \<and> i = 0 \<and> d = DFin False 0 \<or>
     t = cJSON_Array \<and> s = None \<and> i = 0 \<and> d = DFin False 0 \<and>
       (\<forall>x \<in> set c. canonical x \<and> item_string x = None) \<or>
     t = cJSON_Object \<and> s = None \<and> i = 0 \<and> d = DFin False 0 \<and>
       (\<forall>x \<in> set c. canonical x \<and> (\<exists>v. item_string x = Some v \<and> NUL \<notin> set v))"

lemma kind_types [simp]:
  "kind cJSON_NULL = cJSON_NULL" "kind cJSON_False = cJSON_False" "kind cJSON_True = cJSON_True"
  "kind cJSON_Number = cJSON_Number" "kind cJSON_String = cJSON_String" "kind cJSON_Array = cJSON_Array"
  "kind cJSON_Object = cJSON_Object"
  by (simp_all add: kind_def ctype_defs)

lemma types_distinct [simp]:
  "distinct [cJSON_NULL, cJSON_False, cJSON_True, cJSON_Number, cJSON_Raw, cJSON_String, cJSON_Array, cJSON_Object]"
  by (simp add: ctype_defs)

lemma render_types [simp]:
  "render f n (CJson cJSON_NULL c s i d k) = Some ''null''"
  "render f n (CJson cJSON_False c s i d k) = Some ''false''"
  "render f n (CJson cJSON_True c s i d k) = Some ''true''"
  "render f n (CJson cJSON_Number c s i d k) = number_shown d"
  "render f n (CJson cJSON_String c s i d k) = Some (quoted s)"
  "render f n (CJson cJSON_Array c s i d k) =
     do { r \<leftarrow> render_elements f (n + 1) c; Some (''['' @ r @ '']'') }"
  "render f n (CJson cJSON_Object c s i d k) =
     do { r \<leftarrow> render_members f (n + 1) c;
          Some (''{'' @ (if f then [CHR 0x0A] else []) @ r @ (if f then indent n else []) @ ''}'') }"
  by (simp_all add: kind_def ctype_defs)

declare render.simps [simp del]

text \<open>Every such item has a text, and the text starts with a character that is not white space.\<close>

lemma first_of_number: "number_shown (DFin s q) = Some t \<Longrightarrow> 32 < ch (hd t) \<and> hd t \<noteq> CHR '']'' \<and> hd t \<noteq> CHR ''}'' \<and> t \<noteq> []"
  using number_shown_shape [of s q t] by (auto simp: is_digit_def)

lemma canonical_rendered:
  "canonical x \<Longrightarrow> \<exists>t. render f n x = Some t \<and> t \<noteq> [] \<and> 32 < ch (hd t) \<and> hd t \<noteq> CHR '']'' \<and> hd t \<noteq> CHR ''}''"
proof (induction x arbitrary: n)
  case (CJson t c s i d k)
  have el: "\<exists>r. render_elements f m c = Some r" if "\<forall>x \<in> set c. canonical x" for m
  proof -
    have "\<forall>x \<in> set ys. \<exists>t. render f m x = Some t \<Longrightarrow> \<exists>r. render_elements f m ys = Some r" for ys
      by (induction ys) auto
    then show ?thesis using CJson.IH that by blast
  qed
  have me: "\<exists>r. render_members f m c = Some r" if "\<forall>x \<in> set c. canonical x" for m
  proof -
    have "\<forall>x \<in> set ys. \<exists>t. render f m x = Some t \<Longrightarrow> \<exists>r. render_members f m ys = Some r" for ys
      by (induction ys) auto
    then show ?thesis using CJson.IH that by blast
  qed
  from CJson.prems consider "t = cJSON_NULL \<or> t = cJSON_False \<or> t = cJSON_True"
    | "t = cJSON_Number" "reprints d" | "t = cJSON_String"
    | "t = cJSON_Array" "\<forall>x \<in> set c. canonical x" | "t = cJSON_Object" "\<forall>x \<in> set c. canonical x"
    by auto
  then show ?case
  proof cases
    case 1
    then show ?thesis by (elim disjE) simp_all
  next
    case 2
    then show ?thesis using first_of_number by (auto simp: reprints_def)
  next
    case 3
    then show ?thesis by (simp add: quoted_def)
  next
    case 4
    then show ?thesis using el [of "n + 1"] by auto
  next
    case 5
    then show ?thesis using me [of "n + 1"] by auto
  qed
qed

subsection \<open>White space and elements\<close>

abbreviation white :: "bytes \<Rightarrow> bool" where
  "white ws \<equiv> (\<forall>w \<in> set ws. ch w \<le> 32)"

lemma skip_loop_white:
  "white ws \<Longrightarrow> 32 < ch c \<Longrightarrow> skip_loop (pre @ ws @ c # q) (length pre) = length pre + length ws"
proof (induction ws arbitrary: pre)
  case Nil
  then show ?case by (subst skip_loop.simps) simp
next
  case (Cons w ws)
  then show ?case
    using Cons.IH [of "pre @ [w]"] by (subst skip_loop.simps) simp
qed

lemma skip_white:
  assumes "content b = pre @ ws @ q" and "offset b = length pre" and "white ws"
    and "q \<noteq> []" and "32 < ch (hd q)"
  shows "buffer_skip_whitespace b = b\<lparr>offset := length pre + length ws\<rparr>"
proof -
  obtain c r where q: "q = c # r" "32 < ch c" using assms(4,5) by (cases q) auto
  have "skip_loop (content b) (offset b) = length pre + length ws"
    using skip_loop_white [OF assms(3) q(2), of pre r] assms(1,2) q by simp
  moreover have "length pre + length ws \<noteq> length (content b)" using assms(1) q by simp
  ultimately show ?thesis by (simp add: buffer_skip_whitespace_def Let_def)
qed

lemma skip_nothing:
  assumes "content b = pre @ q" and "offset b = length pre" and "q \<noteq> []" and "32 < ch (hd q)"
  shows "buffer_skip_whitespace b = b"
  using skip_white [of b pre "[]" q] assms by simp

lemma at_offset_split: "content b = p @ q \<Longrightarrow> offset b = length p \<Longrightarrow> q \<noteq> [] \<Longrightarrow> at_offset b 0 = Some (hd q)"
  by (cases q) (simp_all add: at_offset_def)

text \<open>The fresh item a value is parsed into, and the statement about one value.\<close>

definition empty_item :: "32 word \<Rightarrow> bytes option \<Rightarrow> cJSON" where
  "empty_item ty k = CJson ty [] None 0 (DFin False 0) k"

abbreviation no_oom :: "heap \<Rightarrow> bool" where
  "no_oom h \<equiv> oom h = (\<lambda>_. False)"

text \<open>The fuel that a parser at a given depth needs.\<close>

abbreviation enough :: "nat \<Rightarrow> nat \<Rightarrow> bool" where
  "enough fuel d \<equiv> d \<le> CJSON_NESTING_LIMIT \<and> CJSON_NESTING_LIMIT < d + fuel"

definition reads_back :: "bool \<Rightarrow> nat \<Rightarrow> cJSON \<Rightarrow> bool" where
  "reads_back f n x \<longleftrightarrow> (\<forall>fuel b pre t post ty.
     render f n x = Some t \<longrightarrow> content b = pre @ t @ post \<longrightarrow> offset b = length pre \<longrightarrow>
     ends_number post \<longrightarrow> no_oom (mem b) \<longrightarrow> nested_within (CJSON_NESTING_LIMIT - depth b) x \<longrightarrow>
     enough fuel (depth b) \<longrightarrow>
     (\<exists>h. parse_value fuel (empty_item ty (item_string x)) b
            = Some (True, x, b\<lparr>offset := length pre + length t, mem := h\<rparr>) \<and> no_oom h))"

lemma reads_backD:
  assumes "reads_back f n x" and "render f n x = Some t" and "content b = pre @ t @ post"
    and "offset b = length pre" and "ends_number post" and "no_oom (mem b)"
    and "nested_within (CJSON_NESTING_LIMIT - depth b) x" and "enough fuel (depth b)"
  obtains h where "parse_value fuel (empty_item ty (item_string x)) b
      = Some (True, x, b\<lparr>offset := length pre + length t, mem := h\<rparr>)" "no_oom h"
  using assms unfolding reads_back_def by blast

lemma new_item_works:
  assumes "no_oom h"
  obtains h' where "cJSON_New_Item h = (Some zero_item, h')" "no_oom h'"
proof -
  obtain ok h' where m: "malloc h = (ok, h')" by fastforce
  then have ok "no_oom h'" using malloc_never_fails [OF assms] assms by (auto simp: heap_simps)
  then show ?thesis using m that by (simp add: cJSON_New_Item_def)
qed

lemma zero_is_empty: "zero_item = empty_item 0 None"
  by (simp add: zero_item_def empty_item_def)

lemma ends_number_simps [simp]:
  "ends_number (CHR '','' # r)" "ends_number (CHR '']'' # r)" "ends_number (CHR ''}'' # r)"
  "ends_number (CHR 0x0A # r)" "ends_number (NUL # r)"
  by (simp_all add: ends_number_def number_chars_def)

lemma element_step:
  assumes "no_oom (mem b)"
  shows "\<exists>h. no_oom h \<and> element_loop elem (Suc k) head b =
    do { (ok, x', b2) \<leftarrow> elem zero_item (buffer_skip_whitespace (b\<lparr>mem := h, offset := offset b + 1\<rparr>));
         if \<not> ok then Some (False, head @ [x'], b2)
         else let b3 = buffer_skip_whitespace b2; head' = head @ [x']
              in if at_offset b3 0 = Some CHR '','' then element_loop elem k head' b3
                 else Some (True, head', b3) }"
proof -
  obtain h where "cJSON_New_Item (mem b) = (Some zero_item, h)" "no_oom h"
    using new_item_works [OF assms] .
  then show ?thesis by auto
qed

lemma array_loop_reads:
  assumes "xs \<noteq> []" and "\<forall>x \<in> set xs. canonical x \<and> reads_back f n x \<and> item_string x = None \<and>
      nested_within (CJSON_NESTING_LIMIT - depth b) x"
    and "render_elements f n xs = Some r" and "content b = pre @ c # ws @ r @ CHR '']'' # post"
    and "offset b = length pre" and "white ws" and "no_oom (mem b)"
    and "enough fuel (depth b)" and "length xs \<le> k"
  shows "\<exists>h. element_loop (parse_value fuel) k head b = Some (True, head @ xs,
      b\<lparr>offset := length pre + 1 + length ws + length r, mem := h\<rparr>) \<and> no_oom h"
  using assms
proof (induction xs arbitrary: pre c ws r head b k)
  case (Cons x xs)
  obtain a s where a: "render f n x = Some a" and s: "render_elements f n xs = Some s"
    and r: "r = a @ (if xs = [] then [] else CHR '','' # (if f then '' '' else [])) @ s"
    using Cons.prems(3) by (auto simp: run_simps)
  obtain k' where k: "k = Suc k'" using Cons.prems(9) by (cases k) auto
  have first: "a \<noteq> [] \<and> 32 < ch (hd a)" using canonical_rendered [of x f n] Cons.prems(2) a by auto
  define sep where "sep = (if xs = [] then [] else CHR '','' # (if f then '' '' else []))"
  define rest where "rest = sep @ s @ CHR '']'' # post"
  have rest: "rest \<noteq> []" "32 < ch (hd rest)" "ends_number rest"
    "hd rest = (if xs = [] then CHR '']'' else CHR '','')"
    using s by (auto simp: rest_def sep_def)
  have cont: "content b = (pre @ c # ws) @ a @ rest"
    using Cons.prems(4) r by (simp add: rest_def sep_def)
  obtain h1 where h1: "no_oom h1" and loop: "element_loop (parse_value fuel) (Suc k') head b =
    do { (ok, x', b2) \<leftarrow> parse_value fuel zero_item (buffer_skip_whitespace (b\<lparr>mem := h1, offset := offset b + 1\<rparr>));
         if \<not> ok then Some (False, head @ [x'], b2)
         else let b3 = buffer_skip_whitespace b2; head' = head @ [x']
              in if at_offset b3 0 = Some CHR '','' then element_loop (parse_value fuel) k' head' b3
                 else Some (True, head', b3) }"
    using element_step [OF Cons.prems(7)] by blast
  define b1 where "b1 = b\<lparr>mem := h1, offset := length pre + 1 + length ws\<rparr>"
  have "buffer_skip_whitespace (b\<lparr>mem := h1, offset := offset b + 1\<rparr>) = b1"
    using skip_white [of "b\<lparr>mem := h1, offset := offset b + 1\<rparr>" "pre @ [c]" ws "a @ rest"] cont first Cons.prems(5,6)
    by (simp add: b1_def)
  moreover have "reads_back f n x" "nested_within (CJSON_NESTING_LIMIT - depth b1) x"
    "enough fuel (depth b1)" "content b1 = (pre @ c # ws) @ a @ rest"
    "offset b1 = length (pre @ c # ws)" "no_oom (mem b1)"
    using Cons.prems(2,8) cont h1 by (simp_all add: b1_def)
  then obtain h2 where h2: "no_oom h2" and
    "parse_value fuel (empty_item 0 (item_string x)) b1 = Some (True, x, b1\<lparr>offset := length (pre @ c # ws) + length a, mem := h2\<rparr>)"
    using reads_backD [of f n x a b1 "pre @ c # ws" rest fuel 0] a rest(3) by blast
  moreover define b2 where "b2 = b1\<lparr>offset := length (pre @ c # ws) + length a, mem := h2\<rparr>"
  ultimately have elem: "parse_value fuel zero_item (buffer_skip_whitespace (b\<lparr>mem := h1, offset := offset b + 1\<rparr>))
      = Some (True, x, b2)"
    using Cons.prems(2) by (simp add: zero_is_empty)
  have off: "content b2 = (pre @ c # ws @ a) @ rest" "offset b2 = length (pre @ c # ws @ a)"
    using cont by (simp_all add: b2_def b1_def)
  then have skip: "buffer_skip_whitespace b2 = b2" using rest by (intro skip_nothing) auto
  have at: "at_offset b2 0 = Some (hd rest)"
    by (rule at_offset_split [OF off rest(1)])
  show ?case
  proof (cases "xs = []")
    case True
    then show ?thesis
      using loop elem skip at rest(4) h2 r s k by (auto simp: b2_def b1_def)
  next
    case False
    define ws' where "ws' = (if f then '' '' else [] :: bytes)"
    have end': "element_loop (parse_value fuel) k head b = element_loop (parse_value fuel) k' (head @ [x]) b2"
      using loop elem skip at rest(4) False k by simp
    have "\<exists>h. element_loop (parse_value fuel) k' (head @ [x]) b2 = Some (True, (head @ [x]) @ xs,
        b2\<lparr>offset := length (pre @ c # ws @ a) + 1 + length ws' + length s, mem := h\<rparr>) \<and> no_oom h"
    proof (rule Cons.IH [OF False _ s _ off(2)])
      show "content b2 = (pre @ c # ws @ a) @ CHR '','' # ws' @ s @ CHR '']'' # post"
        using off(1) False by (simp add: rest_def sep_def ws'_def)
    qed (use Cons.prems h2 k in \<open>auto simp: b2_def b1_def ws'_def\<close>)
    then obtain h where h: "element_loop (parse_value fuel) k' (head @ [x]) b2 = Some (True, (head @ [x]) @ xs,
        b2\<lparr>offset := length (pre @ c # ws @ a) + 1 + length ws' + length s, mem := h\<rparr>)" "no_oom h"
      by blast
    have len: "length (pre @ c # ws @ a) + 1 + length ws' + length s = length pre + 1 + length ws + length r"
      using r False by (simp add: ws'_def)
    show ?thesis
      unfolding end' h(1) len by (rule exI [of _ h]) (simp add: b2_def b1_def h(2))
  qed
qed simp

subsection \<open>Members\<close>

text \<open>A member without the tabs in front of it.\<close>

definition member_text :: "bool \<Rightarrow> cJSON list \<Rightarrow> cJSON \<Rightarrow> bytes \<Rightarrow> bytes" where
  "member_text f xs x a = quoted (item_string x) @ CHR '':'' # (if f then [CHR 0x09] else []) @ a
     @ (if xs = [] then [] else '','') @ (if f then [CHR 0x0A] else [])"

definition tabs :: "bool \<Rightarrow> nat \<Rightarrow> bytes" where
  "tabs f n = (if f then indent n else [])"

lemma white_tabs [simp]: "white (tabs f n)"
  by (simp add: tabs_def indent_def)

lemma render_member:
  "render_members f n (x # xs) =
     do { a \<leftarrow> render f n x; r \<leftarrow> render_members f n xs; Some (tabs f n @ member_text f xs x a @ r) }"
  by (simp add: member_text_def tabs_def)

lemma ends_white: "white w \<Longrightarrow> ends_number (w @ CHR ''}'' # post)"
  by (cases w) (auto simp: ends_number_def number_chars_def)

lemma hd_quoted [simp]: "hd (quoted s) = DQUOTE" "quoted s \<noteq> []"
  by (simp_all add: quoted_def)

lemma member_reads:
  assumes x: "canonical x" "reads_back f n x" "item_string x = Some v" "NUL \<notin> set v"
      "nested_within (CJSON_NESTING_LIMIT - depth b) x"
    and a: "render f n x = Some a" and cont: "content b = pre @ quoted (Some v) @ CHR '':'' # ws @ a @ post"
    and off: "offset b = length pre" and ws: "white ws" and post: "ends_number post"
    and h: "no_oom (mem b)" and fuel: "enough fuel (depth b)"
  shows "\<exists>h. parse_member (parse_value fuel) zero_item b = Some (True, x,
      b\<lparr>offset := length pre + length (quoted (Some v)) + 1 + length ws + length a, mem := h\<rparr>) \<and> no_oom h"
proof -
  obtain h1 where h1: "no_oom h1" and s: "parse_string zero_item b = Some (True,
      set_valuestring (Some v) (set_ctype cJSON_String zero_item),
      b\<lparr>offset := length pre + length (quoted (Some v)), mem := h1\<rparr>)"
    using parse_string_quoted [OF cont off x(4) h] by blast
  define b1 where "b1 = b\<lparr>offset := length pre + length (quoted (Some v)), mem := h1\<rparr>"
  have b1: "content b1 = (pre @ quoted (Some v)) @ CHR '':'' # ws @ a @ post"
    "offset b1 = length (pre @ quoted (Some v))"
    using cont by (simp_all add: b1_def)
  have skip1: "buffer_skip_whitespace b1 = b1" by (rule skip_nothing [OF b1]) simp_all
  have at1: "at_offset b1 0 = Some CHR '':''" using at_offset_split [OF b1] by simp
  have first: "a \<noteq> [] \<and> 32 < ch (hd a)" using canonical_rendered [OF x(1), of f n] a by auto
  define b2 where "b2 = b1\<lparr>offset := length (pre @ quoted (Some v) @ '':'') + length ws\<rparr>"
  have skip2: "buffer_skip_whitespace (b1\<lparr>offset := offset b1 + 1\<rparr>) = b2"
    using skip_white [of "b1\<lparr>offset := offset b1 + 1\<rparr>" "pre @ quoted (Some v) @ '':''" ws "a @ post"] b1 ws first
    by (simp add: b2_def)
  have y: "set_valuestring None (set_item_string (Some v) (set_valuestring (Some v) (set_ctype cJSON_String zero_item)))
      = empty_item cJSON_String (item_string x)"
    by (simp add: zero_item_def empty_item_def x(3))
  have "content b2 = (pre @ quoted (Some v) @ '':'' @ ws) @ a @ post" "offset b2 = length (pre @ quoted (Some v) @ '':'' @ ws)"
    "no_oom (mem b2)" "nested_within (CJSON_NESTING_LIMIT - depth b2) x" "enough fuel (depth b2)"
    using cont h1 x(5) fuel by (simp_all add: b2_def b1_def)
  then obtain h2 where h2: "parse_value fuel (empty_item cJSON_String (item_string x)) b2
      = Some (True, x, b2\<lparr>offset := length (pre @ quoted (Some v) @ '':'' @ ws) + length a, mem := h2\<rparr>)" "no_oom h2"
    using reads_backD [OF x(2) a _ _ post] by blast
  have "parse_member (parse_value fuel) zero_item b = parse_value fuel (empty_item cJSON_String (item_string x)) b2"
    unfolding parse_member_def s b1_def [symmetric]
    using skip1 at1 skip2 y by simp
  then show ?thesis
    unfolding h2(1) by (intro exI [of _ h2]) (simp add: b2_def b1_def h2(2) add.assoc)
qed

lemma object_loop_reads:
  assumes "xs \<noteq> []" and "\<forall>x \<in> set xs. canonical x \<and> reads_back f n x \<and>
      (\<exists>v. item_string x = Some v \<and> NUL \<notin> set v) \<and> nested_within (CJSON_NESTING_LIMIT - depth b) x"
    and "render_members f n xs = Some (tabs f n @ r)"
    and "content b = pre @ c # ws @ r @ ts @ CHR ''}'' # post" and "offset b = length pre"
    and "white ws" and "white ts" and "no_oom (mem b)"
    and "enough fuel (depth b)" and "length xs \<le> k"
  shows "\<exists>h. element_loop (parse_member (parse_value fuel)) k head b = Some (True, head @ xs,
      b\<lparr>offset := length pre + 1 + length ws + length r + length ts, mem := h\<rparr>) \<and> no_oom h"
  using assms
proof (induction xs arbitrary: pre c ws r head b k)
  case (Cons x xs)
  obtain a s where a: "render f n x = Some a" and s: "render_members f n xs = Some s"
    and r: "r = member_text f xs x a @ s"
    using Cons.prems(3) unfolding render_member by (auto simp: run_simps)
  obtain k' where k: "k = Suc k'" using Cons.prems(10) by (cases k) auto
  obtain v where v: "item_string x = Some v" "NUL \<notin> set v" using Cons.prems(2) by auto
  define tab where "tab = (if f then [CHR 0x09] else [] :: bytes)"
  define lf where "lf = (if f then [CHR 0x0A] else [] :: bytes)"
  define q where "q = quoted (Some v)"
  define rest where "rest = (if xs = [] then [] else '','') @ lf @ s @ ts @ CHR ''}'' # post"
  have w: "white tab" "white lf" by (simp_all add: tab_def lf_def)
  have mt: "member_text f xs x a = q @ CHR '':'' # tab @ a @ (if xs = [] then [] else '','') @ lf"
    by (simp add: member_text_def v(1) q_def tab_def lf_def)
  have rest: "ends_number rest"
  proof (cases "xs = []")
    case True
    then have "rest = (lf @ ts) @ CHR ''}'' # post" using s by (simp add: rest_def)
    then show ?thesis using ends_white [of "lf @ ts" post] w(2) Cons.prems(7) by auto
  qed (simp add: rest_def)
  have cont: "content b = (pre @ c # ws) @ q @ CHR '':'' # tab @ a @ rest"
    using Cons.prems(4) r mt by (simp add: rest_def)
  obtain h1 where h1: "no_oom h1" and loop: "element_loop (parse_member (parse_value fuel)) (Suc k') head b =
    do { (ok, x', b2) \<leftarrow> parse_member (parse_value fuel) zero_item
           (buffer_skip_whitespace (b\<lparr>mem := h1, offset := offset b + 1\<rparr>));
         if \<not> ok then Some (False, head @ [x'], b2)
         else let b3 = buffer_skip_whitespace b2; head' = head @ [x']
              in if at_offset b3 0 = Some CHR '','' then element_loop (parse_member (parse_value fuel)) k' head' b3
                 else Some (True, head', b3) }"
    using element_step [OF Cons.prems(8)] by blast
  define b1 where "b1 = b\<lparr>mem := h1, offset := length pre + 1 + length ws\<rparr>"
  have skip1: "buffer_skip_whitespace (b\<lparr>mem := h1, offset := offset b + 1\<rparr>) = b1"
    using skip_white [of "b\<lparr>mem := h1, offset := offset b + 1\<rparr>" "pre @ [c]" ws "q @ CHR '':'' # tab @ a @ rest"]
      cont Cons.prems(5,6)
    by (simp add: b1_def q_def)
  have x: "canonical x" "reads_back f n x" "nested_within (CJSON_NESTING_LIMIT - depth b1) x"
    using Cons.prems(2) by (simp_all add: b1_def)
  have b1: "content b1 = (pre @ c # ws) @ quoted (Some v) @ CHR '':'' # tab @ a @ rest"
    "offset b1 = length (pre @ c # ws)" "no_oom (mem b1)" "enough fuel (depth b1)"
    using cont h1 Cons.prems(9) by (simp_all add: b1_def q_def)
  obtain h2 where h2: "parse_member (parse_value fuel) zero_item b1 = Some (True, x,
      b1\<lparr>offset := length (pre @ c # ws) + length (quoted (Some v)) + 1 + length tab + length a, mem := h2\<rparr>)" "no_oom h2"
    using member_reads [OF x(1,2) v x(3) a b1(1,2) w(1) rest b1(3,4)] by blast
  define b2 where "b2 = b\<lparr>offset := length (pre @ c # ws @ q @ CHR '':'' # tab @ a), mem := h2\<rparr>"
  have elem: "parse_member (parse_value fuel) zero_item b1 = Some (True, x, b2)"
    unfolding h2(1) by (simp add: b2_def b1_def q_def add.assoc)
  have off: "content b2 = (pre @ c # ws @ q @ CHR '':'' # tab @ a) @ rest"
    "offset b2 = length (pre @ c # ws @ q @ CHR '':'' # tab @ a)"
    using cont by (simp_all add: b2_def)
  show ?case
  proof (cases "xs = []")
    case True
    then have rest': "rest = (lf @ ts) @ CHR ''}'' # post" and r': "r = q @ CHR '':'' # tab @ a @ lf"
      using s r mt by (simp_all add: rest_def)
    define b3 where "b3 = b2\<lparr>offset := length (pre @ c # ws @ q @ CHR '':'' # tab @ a) + length (lf @ ts)\<rparr>"
    have skip2: "buffer_skip_whitespace b2 = b3"
      unfolding b3_def
    proof (rule skip_white [where q = "CHR ''}'' # post"])
      show "content b2 = (pre @ c # ws @ q @ CHR '':'' # tab @ a) @ (lf @ ts) @ CHR ''}'' # post"
        using off(1) unfolding rest' .
      show "white (lf @ ts)" using w(2) Cons.prems(7) by auto
    qed (use off(2) in simp_all)
    have b3: "content b3 = (pre @ c # ws @ q @ CHR '':'' # tab @ a @ lf @ ts) @ CHR ''}'' # post"
      "offset b3 = length (pre @ c # ws @ q @ CHR '':'' # tab @ a @ lf @ ts)"
      using off rest' by (simp_all add: b3_def)
    have at: "at_offset b3 0 = Some CHR ''}''" using at_offset_split [OF b3] by simp
    have "element_loop (parse_member (parse_value fuel)) k head b = Some (True, head @ [x], b3)"
      using loop skip1 elem skip2 at k by simp
    also have "b3 = b\<lparr>offset := length pre + 1 + length ws + length r + length ts, mem := h2\<rparr>"
      by (simp add: b3_def b2_def r' add.assoc)
    finally show ?thesis using True h2(2) by blast
  next
    case False
    then obtain s' where s': "s = tabs f n @ s'"
      using s by (cases xs) (auto simp: render_member run_simps simp del: render_members.simps)
    define ws' where "ws' = lf @ tabs f n"
    have rest': "rest = CHR '','' # ws' @ s' @ ts @ CHR ''}'' # post"
      using False s' by (simp add: rest_def ws'_def)
    have skip2: "buffer_skip_whitespace b2 = b2" by (rule skip_nothing [OF off]) (simp_all add: rest')
    have at: "at_offset b2 0 = Some CHR '',''" using at_offset_split [OF off] rest' by simp
    have end': "element_loop (parse_member (parse_value fuel)) k head b =
        element_loop (parse_member (parse_value fuel)) k' (head @ [x]) b2"
      using loop skip1 elem skip2 at k by simp
    have "\<exists>h. element_loop (parse_member (parse_value fuel)) k' (head @ [x]) b2 = Some (True, (head @ [x]) @ xs,
        b2\<lparr>offset := length (pre @ c # ws @ q @ CHR '':'' # tab @ a) + 1 + length ws' + length s' + length ts, mem := h\<rparr>)
        \<and> no_oom h"
    proof (rule Cons.IH [OF False])
      show "render_members f n xs = Some (tabs f n @ s')" using s s' by simp
      show "content b2 = (pre @ c # ws @ q @ CHR '':'' # tab @ a) @ CHR '','' # ws' @ s' @ ts @ CHR ''}'' # post"
        using off(1) rest' by simp
    qed (use Cons.prems h2(2) k off(2) w(2) in \<open>auto simp: b2_def ws'_def\<close>)
    then obtain h where h: "element_loop (parse_member (parse_value fuel)) k' (head @ [x]) b2 = Some (True, (head @ [x]) @ xs,
        b2\<lparr>offset := length (pre @ c # ws @ q @ CHR '':'' # tab @ a) + 1 + length ws' + length s' + length ts, mem := h\<rparr>)"
      "no_oom h"
      by blast
    have len: "length (pre @ c # ws @ q @ CHR '':'' # tab @ a) + 1 + length ws' + length s' + length ts
        = length pre + 1 + length ws + length r + length ts"
      using r False mt s' by (simp add: ws'_def)
    show ?thesis
      unfolding end' h(1) len by (rule exI [of _ h]) (simp add: b2_def h(2))
  qed
qed simp

subsection \<open>Values\<close>

lemma looking_at_text:
  assumes "content b = pre @ lit @ post" and "offset b = length pre"
  shows "looking_at b lit"
  using assms by (simp add: looking_at_def can_read_def strncmp_eq_def)

lemma not_looking_at:
  assumes "content b = pre @ q" and "offset b = length pre" and "q \<noteq> []" and "lit \<noteq> []"
    and "hd q \<noteq> hd lit" and "hd lit \<noteq> NUL"
  shows "\<not> looking_at b lit"
  using assms by (cases q; cases lit) (auto simp: looking_at_def strncmp_eq_def)

text \<open>What the first character decides.\<close>

lemma parse_value_first:
  assumes "content b = pre @ q" and "offset b = length pre" and "q \<noteq> []"
    and "hd q \<notin> {CHR ''n'', CHR ''f'', CHR ''t''}"
  shows "parse_value (Suc fuel) y b =
     (if hd q = DQUOTE then parse_string y b
      else if hd q = CHR ''-'' \<or> is_digit (hd q) then parse_number y b
      else if hd q = CHR ''['' then parse_array (parse_value fuel) y b
      else if hd q = CHR ''{'' then parse_object (parse_value fuel) y b
      else Some (False, y, b))"
proof -
  have "\<not> looking_at b ''null''" "\<not> looking_at b ''false''" "\<not> looking_at b ''true''"
    using not_looking_at [OF assms(1-3)] assms(4) by simp_all
  moreover have "at_offset b 0 = Some (hd q)" by (rule at_offset_split [OF assms(1-3)])
  ultimately show ?thesis by (simp add: is_digit_def)
qed

lemma length_elements: "\<forall>x \<in> set xs. canonical x \<Longrightarrow> render_elements f n xs = Some r \<Longrightarrow> length xs \<le> length r"
proof (induction xs arbitrary: r)
  case (Cons x xs)
  then obtain a s where "render f n x = Some a" "render_elements f n xs = Some s" "length a + length s \<le> length r"
    by (auto simp: run_simps)
  moreover have "a \<noteq> []" using canonical_rendered [of x f n] Cons.prems(1) calculation(1) by auto
  ultimately show ?case using Cons by (cases a) fastforce+
qed simp

lemma length_members: "\<forall>x \<in> set xs. canonical x \<Longrightarrow> render_members f n xs = Some r \<Longrightarrow> length xs \<le> length r - length (tabs f n)"
proof (induction xs arbitrary: r)
  case (Cons x xs)
  then obtain a s where s: "render_members f n xs = Some s" and r: "r = tabs f n @ member_text f xs x a @ s"
    unfolding render_member by (auto simp: run_simps)
  have "length xs \<le> length s" using Cons.IH [of s] Cons.prems(1) s by simp
  moreover have "member_text f xs x a \<noteq> []" by (simp add: member_text_def)
  ultimately show ?case using r by (cases "member_text f xs x a") auto
qed simp

lemma array_reads:
  assumes xs: "\<forall>x \<in> set xs. canonical x \<and> reads_back f (n + 1) x \<and> item_string x = None \<and>
      nested_within (CJSON_NESTING_LIMIT - depth b - 1) x"
    and r: "render_elements f (n + 1) xs = Some r" and cont: "content b = pre @ CHR ''['' # r @ CHR '']'' # post"
    and off: "offset b = length pre" and h: "no_oom (mem b)" and d: "depth b < CJSON_NESTING_LIMIT"
    and fuel: "CJSON_NESTING_LIMIT < depth b + 1 + fuel"
  shows "\<exists>h. parse_array (parse_value fuel) y b = Some (True, set_child xs (set_ctype cJSON_Array y),
      b\<lparr>offset := length pre + 2 + length r, mem := h\<rparr>) \<and> no_oom h"
proof -
  define b1 where "b1 = b\<lparr>depth := depth b + 1\<rparr>"
  have at: "at_offset b1 0 = Some CHR ''[''"
    using at_offset_split [of b1 pre "CHR ''['' # r @ CHR '']'' # post"] cont off by (simp add: b1_def)
  define b2 where "b2 = b1\<lparr>offset := length pre + 1\<rparr>"
  have cont2: "content b2 = (pre @ ''['') @ r @ CHR '']'' # post" "offset b2 = length (pre @ ''['')"
    using cont by (simp_all add: b2_def b1_def)
  have first: "r \<noteq> [] \<and> 32 < ch (hd r) \<and> hd r \<noteq> CHR '']''" if "xs \<noteq> []"
  proof -
    from that obtain x xs' where x: "xs = x # xs'" by (cases xs) auto
    then show ?thesis using r xs canonical_rendered [of x f "n + 1"] by (auto simp: run_simps)
  qed
  have r0: "r = []" if "xs = []" using that r by simp
  have skip: "buffer_skip_whitespace (b1\<lparr>offset := offset b1 + 1\<rparr>) = b2"
    using skip_nothing [OF cont2] first r0 off by (cases "xs = []") (auto simp: b2_def b1_def)
  show ?thesis
  proof (cases "xs = []")
    case True
    then have "at_offset b2 0 = Some CHR '']''" using at_offset_split [OF cont2] r0 by simp
    then have "parse_array (parse_value fuel) y b = container_success cJSON_Array [] y b2"
      unfolding parse_array_def Let_def b1_def [symmetric] using d at skip by simp
    then show ?thesis
      using True r0 h by (intro exI [of _ "mem b"]) (simp add: container_success_def b2_def b1_def)
  next
    case False
    note f = first [OF False]
    have at2: "at_offset b2 0 \<noteq> Some CHR '']''" using at_offset_split [OF cont2] f by simp
    have acc: "can_access_at_index b2 0" using cont2 f by (simp add: can_access_at_index_def)
    define b3 where "b3 = b2\<lparr>offset := length pre\<rparr>"
    have step: "b2\<lparr>offset := offset b2 - 1\<rparr> = b3" by (simp add: b3_def b2_def)
    have "\<exists>h. element_loop (parse_value fuel) (length (content b2)) [] b3 = Some (True, [] @ xs,
      b3\<lparr>offset := length pre + 1 + length ([] :: bytes) + length r, mem := h\<rparr>) \<and> no_oom h"
    proof (rule array_loop_reads [OF False _ r])
      show "content b3 = pre @ CHR ''['' # [] @ r @ CHR '']'' # post" using cont2 by (simp add: b3_def)
      show "length xs \<le> length (content b2)" using length_elements [OF _ r] xs cont2 by fastforce
    qed (use xs h d fuel in \<open>auto simp: b3_def b2_def b1_def\<close>)
    then obtain h2 where h2: "no_oom h2" and loop: "element_loop (parse_value fuel) (length (content b2)) [] b3 = Some (True, xs,
      b3\<lparr>offset := length pre + 1 + length r, mem := h2\<rparr>)"
      by auto
    define b4 where "b4 = b3\<lparr>offset := length pre + 1 + length r, mem := h2\<rparr>"
    have b4: "content b4 = (pre @ CHR ''['' # r) @ CHR '']'' # post" "offset b4 = length (pre @ CHR ''['' # r)"
      using cont2 by (simp_all add: b4_def b3_def)
    have at4: "at_offset b4 0 = Some CHR '']''" using at_offset_split [OF b4] by simp
    have "parse_array (parse_value fuel) y b = container_success cJSON_Array xs y b4"
      unfolding parse_array_def Let_def b1_def [symmetric]
      using d at skip at2 acc loop at4 step by (simp add: b4_def)
    then show ?thesis
      using h2 by (intro exI [of _ h2]) (simp add: container_success_def b4_def b3_def b2_def b1_def)
  qed
qed

lemma object_reads:
  assumes xs: "\<forall>x \<in> set xs. canonical x \<and> reads_back f (n + 1) x \<and>
      (\<exists>v. item_string x = Some v \<and> NUL \<notin> set v) \<and> nested_within (CJSON_NESTING_LIMIT - depth b - 1) x"
    and r: "render_members f (n + 1) xs = Some r"
    and cont: "content b = pre @ CHR ''{'' # (if f then [CHR 0x0A] else []) @ r @ tabs f n @ CHR ''}'' # post"
    and off: "offset b = length pre" and h: "no_oom (mem b)" and d: "depth b < CJSON_NESTING_LIMIT"
    and fuel: "CJSON_NESTING_LIMIT < depth b + 1 + fuel"
  shows "\<exists>h. parse_object (parse_value fuel) y b = Some (True, set_child xs (set_ctype cJSON_Object y),
      b\<lparr>offset := length pre + 2 + (if f then 1 else 0) + length r + length (tabs f n), mem := h\<rparr>) \<and> no_oom h"
proof -
  define lf where "lf = (if f then [CHR 0x0A] else [] :: bytes)"
  define ws where "ws = lf @ (if xs = [] then tabs f n else tabs f (n + 1))"
  obtain s where s: "xs \<noteq> [] \<longrightarrow> r = tabs f (n + 1) @ s"
    using r by (cases xs) (auto simp: render_member run_simps simp del: render_members.simps)
  have r0: "r = []" if "xs = []" using that r by simp
  define q where "q = (if xs = [] then CHR ''}'' # post else s @ tabs f n @ CHR ''}'' # post)"
  have w: "white ws" by (auto simp: ws_def lf_def tabs_def indent_def)
  define b1 where "b1 = b\<lparr>depth := depth b + 1\<rparr>"
  have cont1: "content b1 = pre @ CHR ''{'' # ws @ q" "offset b1 = length pre"
    using cont off s r0 by (auto simp: b1_def ws_def lf_def q_def)
  have at: "at_offset b1 0 = Some CHR ''{''" using at_offset_split [OF cont1] by simp
  define b2 where "b2 = b1\<lparr>offset := length pre + 1 + length ws\<rparr>"
  have cont2: "content b2 = (pre @ CHR ''{'' # ws) @ q" "offset b2 = length (pre @ CHR ''{'' # ws)"
    using cont1 by (simp_all add: b2_def)
  have first: "s \<noteq> [] \<and> hd s = DQUOTE" if "xs \<noteq> []"
  proof -
    from that obtain x xs' where x: "xs = x # xs'" by (cases xs) auto
    then show ?thesis
      using r s by (auto simp: render_member run_simps member_text_def simp del: render_members.simps)
  qed
  have hq: "q \<noteq> []" "hd q = (if xs = [] then CHR ''}'' else DQUOTE)"
    using first by (auto simp: q_def)
  have skip: "buffer_skip_whitespace (b1\<lparr>offset := offset b1 + 1\<rparr>) = b2"
    using skip_white [of "b1\<lparr>offset := offset b1 + 1\<rparr>" "pre @ ''{''" ws q] cont1 w hq
    by (auto simp: b2_def)
  have at2: "at_offset b2 0 = Some (hd q)" by (rule at_offset_split [OF cont2 hq(1)])
  show ?thesis
  proof (cases "xs = []")
    case True
    have "parse_object (parse_value fuel) y b = container_success cJSON_Object [] y b2"
      unfolding parse_object_def Let_def b1_def [symmetric] using d at skip at2 hq True by simp
    then show ?thesis
      using True r0 h by (intro exI [of _ "mem b"]) (simp add: container_success_def b2_def b1_def ws_def lf_def)
  next
    case False
    have acc: "can_access_at_index b2 0" using cont2 hq(1) by (simp add: can_access_at_index_def)
    define b3 where "b3 = b2\<lparr>offset := length pre + length ws\<rparr>"
    have step: "b2\<lparr>offset := offset b2 - 1\<rparr> = b3" by (simp add: b3_def b2_def)
    obtain p c where p: "pre @ CHR ''{'' # ws = p @ [c]" by (cases "pre @ CHR ''{'' # ws" rule: rev_cases) simp_all
    note pc = p arg_cong [OF p, of length, simplified, symmetric]
    have "\<exists>h. element_loop (parse_member (parse_value fuel)) (length (content b2)) [] b3 = Some (True, [] @ xs,
      b3\<lparr>offset := length p + 1 + length ([] :: bytes) + length s + length (tabs f n), mem := h\<rparr>) \<and> no_oom h"
    proof (rule object_loop_reads [OF False, where post = post and c = c])
      show "render_members f (n + 1) xs = Some (tabs f (n + 1) @ s)" using r s False by simp
      show "content b3 = p @ c # [] @ s @ tabs f n @ CHR ''}'' # post"
        using cont2(1) pc(1) False by (simp add: b3_def q_def)
      show "length xs \<le> length (content b2)"
        using length_members [OF _ r] s False xs cont2(1) by (fastforce simp: q_def)
    qed (use xs h d fuel pc in \<open>auto simp: b3_def b2_def b1_def\<close>)
    then obtain h2 where h2: "no_oom h2" and loop: "element_loop (parse_member (parse_value fuel)) (length (content b2)) [] b3
        = Some (True, xs, b3\<lparr>offset := length p + 1 + length s + length (tabs f n), mem := h2\<rparr>)"
      by auto
    define b4 where "b4 = b3\<lparr>offset := length p + 1 + length s + length (tabs f n), mem := h2\<rparr>"
    have b4: "content b4 = (p @ [c] @ s @ tabs f n) @ CHR ''}'' # post" "offset b4 = length (p @ [c] @ s @ tabs f n)"
      using cont2(1) pc(1) False by (simp_all add: b4_def b3_def q_def)
    have at4: "at_offset b4 0 = Some CHR ''}''" using at_offset_split [OF b4] by simp
    have "parse_object (parse_value fuel) y b = container_success cJSON_Object xs y b4"
      unfolding parse_object_def Let_def b1_def [symmetric]
      using d at skip at2 hq(2) False acc loop at4 step by (simp add: b4_def)
    then show ?thesis
      using h2 s False pc(2)
      by (intro exI [of _ h2]) (simp add: container_success_def b4_def b3_def b2_def b1_def ws_def lf_def)
  qed
qed

text \<open>Every canonical item is read back.\<close>

lemma canonical_reads_back: "canonical x \<Longrightarrow> reads_back f n x"
proof (induction x arbitrary: n)
  case (CJson t c s i d k)
  show ?case
    unfolding reads_back_def
  proof (intro allI impI)
    fix fuel pre tx post ty and b :: parse_buffer
    assume tx: "render f n (CJson t c s i d k) = Some tx" and cont: "content b = pre @ tx @ post"
      and off: "offset b = length pre" and post: "ends_number post" and h: "no_oom (mem b)"
      and nest: "nested_within (CJSON_NESTING_LIMIT - depth b) (CJson t c s i d k)"
      and fuel: "enough fuel (depth b)"
    let ?y = "empty_item ty (item_string (CJson t c s i d k))"
    obtain m where m: "fuel = Suc m" using fuel by (cases fuel) auto
    have "tx \<noteq> []" using canonical_rendered [OF CJson.prems, of f n] tx by auto
    then have split: "tx @ post \<noteq> []" "hd (tx @ post) = hd tx" by simp_all
    note first = parse_value_first [OF cont off split(1), unfolded split(2)]
    note IH = CJson.IH
    from CJson.prems consider
        (null) "t = cJSON_NULL" "c = []" "s = None" "i = 0" "d = DFin False 0"
      | (false) "t = cJSON_False" "c = []" "s = None" "i = 0" "d = DFin False 0"
      | (true) "t = cJSON_True" "c = []" "s = None" "i = 1" "d = DFin False 0"
      | (number) "t = cJSON_Number" "c = []" "s = None" "saturate_int d = Some i" "reprints d"
      | (str) v where "t = cJSON_String" "c = []" "s = Some v" "NUL \<notin> set v" "i = 0" "d = DFin False 0"
      | (arr) "t = cJSON_Array" "s = None" "i = 0" "d = DFin False 0"
          "\<forall>x \<in> set c. canonical x \<and> item_string x = None"
      | (obj) "t = cJSON_Object" "s = None" "i = 0" "d = DFin False 0"
          "\<forall>x \<in> set c. canonical x \<and> (\<exists>v. item_string x = Some v \<and> NUL \<notin> set v)"
      by auto
    then show "\<exists>h. parse_value fuel ?y b
        = Some (True, CJson t c s i d k, b\<lparr>offset := length pre + length tx, mem := h\<rparr>) \<and> no_oom h"
    proof cases
      case null
      then have "tx = ''null''" using tx by simp
      then show ?thesis
        using null looking_at_text [of b pre "''null''" post] cont off h m
        by (intro exI [of _ "mem b"]) (simp add: empty_item_def)
    next
      case false
      then have t: "tx = ''false''" using tx by simp
      then have "\<not> looking_at b ''null''" using not_looking_at [OF cont off split(1)] by simp
      with t show ?thesis
        using false looking_at_text [of b pre "''false''" post] cont off h m
        by (intro exI [of _ "mem b"]) (simp add: empty_item_def)
    next
      case true
      then have t: "tx = ''true''" using tx by simp
      then have "\<not> looking_at b ''null''" "\<not> looking_at b ''false''" using not_looking_at [OF cont off split(1)] by simp_all
      with t show ?thesis
        using true looking_at_text [of b pre "''true''" post] cont off h m
        by (intro exI [of _ "mem b"]) (simp add: empty_item_def)
    next
      case number
      then have sh: "number_shown d = Some tx" using tx by simp
      obtain sg q where "d = DFin sg q" using number(5) by (auto simp: reprints_def)
      then have hd: "hd tx = CHR ''-'' \<or> is_digit (hd tx)" using number_shown_shape(4) sh by simp
      have "parse_value fuel ?y b = parse_number ?y b"
        unfolding m using hd by (subst first) (auto simp: is_digit_def)
      then show ?thesis
        using parse_number_shown [OF cont off post sh number(5,4), of ?y] number h
        by (intro exI [of _ "mem b"]) (simp add: empty_item_def)
    next
      case str
      then have t: "tx = quoted (Some v)" using tx by simp
      have "parse_value fuel ?y b = parse_string ?y b" unfolding m using t by (subst first) simp_all
      then show ?thesis
        using parse_string_quoted [OF cont [unfolded t] off str(4) h, of ?y] str t by (auto simp: empty_item_def)
    next
      case arr
      then obtain r where r: "render_elements f (n + 1) c = Some r" "tx = CHR ''['' # r @ '']''"
        using tx by (auto simp: run_simps)
      have "parse_value fuel ?y b = parse_array (parse_value m) ?y b" unfolding m using r(2) by (subst first) (simp_all add: is_digit_def)
      moreover have "\<exists>h. parse_array (parse_value m) ?y b = Some (True, set_child c (set_ctype cJSON_Array ?y),
          b\<lparr>offset := length pre + 2 + length r, mem := h\<rparr>) \<and> no_oom h"
        using arr IH nest fuel m cont r off h by (intro array_reads [where post = post and f = f and n = n]) auto
      ultimately show ?thesis using arr r(2) by (auto simp: empty_item_def)
    next
      case obj
      then obtain r where r: "render_members f (n + 1) c = Some r"
        "tx = CHR ''{'' # (if f then [CHR 0x0A] else []) @ r @ tabs f n @ ''}''"
        using tx by (auto simp: run_simps tabs_def)
      have "parse_value fuel ?y b = parse_object (parse_value m) ?y b" unfolding m using r(2) by (subst first) (simp_all add: is_digit_def)
      moreover have "\<exists>h. parse_object (parse_value m) ?y b = Some (True, set_child c (set_ctype cJSON_Object ?y),
          b\<lparr>offset := length pre + 2 + (if f then 1 else 0) + length r + length (tabs f n), mem := h\<rparr>) \<and> no_oom h"
        using obj IH nest fuel m cont r off h by (intro object_reads [where post = post]) auto
      moreover have len: "length pre + 2 + (if f then 1 else 0) + length r + length (tabs f n) = length pre + length tx"
        using r(2) by simp
      ultimately show ?thesis using obj unfolding len by (auto simp: empty_item_def)
    qed
  qed
qed

subsection \<open>Integers\<close>

text \<open>Integers of at most fifteen digits are printed by their digits, and read back.\<close>

lemma digit_char_0 [simp]: "digit_char 0 = CHR ''0''"
  by code_simp

lemma show_nat_times_power: "0 < n \<Longrightarrow> show_nat (n * 10 ^ k) = show_nat n @ replicate k CHR ''0''"
proof (induction k)
  case (Suc k)
  have "show_nat (n * 10 ^ Suc k) = show_nat (n * 10 ^ k) @ [digit_char 0]"
    using Suc.prems by (subst show_nat.simps) (simp add: mult.assoc [symmetric])
  then show ?case using Suc by (simp add: replicate_append_same)
qed simp

lemma length_show_nat_ge: "0 < n \<Longrightarrow> 10 ^ (length (show_nat n) - 1) \<le> n"
proof (induction n rule: show_nat.induct)
  case (1 n)
  show ?case
  proof (cases "n < 10")
    case True
    with 1 show ?thesis by (simp add: show_nat.simps [of n])
  next
    case False
    with 1 have "10 ^ (length (show_nat (n div 10)) - 1) \<le> n div 10" by simp
    moreover have "length (show_nat n) - 1 = Suc (length (show_nat (n div 10)) - 1)"
      using False by (subst show_nat.simps) (cases "show_nat (n div 10)"; simp)
    moreover obtain j where "length (show_nat (n div 10)) = Suc j" by (cases "show_nat (n div 10)") simp_all
    ultimately show ?thesis by simp
  qed
qed

lemma length_show_nat_lt: "n < 10 ^ length (show_nat n)"
proof (induction n rule: show_nat.induct)
  case (1 n)
  show ?case
  proof (cases "n < 10")
    case True
    then show ?thesis by (simp add: show_nat.simps [of n])
  next
    case False
    with 1 have "n div 10 < 10 ^ length (show_nat (n div 10))" by simp
    then have "n < 10 * 10 ^ length (show_nat (n div 10))" by linarith
    then show ?thesis using False by (subst show_nat.simps) simp
  qed
qed

lemma floor_log10_nat:
  assumes "0 < n"
  shows "floor_log10 (of_nat n) = int (length (show_nat n)) - 1"
proof -
  have q: "quotient_of (of_nat n) = (int n, 1)"
    using quotient_of_int [of "int n"] by simp
  have one: "length (show_nat (Suc 0)) = 1" by (simp add: show_nat.simps)
  have "(of_nat (10 ^ (length (show_nat n) - 1)) :: rat) \<le> of_nat n"
    using length_show_nat_ge [OF assms] by (simp only: of_nat_le_iff)
  moreover have "0 < length (show_nat n)" by simp
  ultimately have "pow10 (int (length (show_nat n)) - 1) \<le> of_nat n"
    by (cases "length (show_nat n)") (simp_all add: pow10_def)
  then show ?thesis by (simp add: floor_log10_def q one Let_def)
qed

lemma strip_zeros_replicate [simp]: "strip_zeros (replicate k CHR ''0'') = []"
  by (simp add: strip_zeros_def)

lemma format_g_integer:
  assumes "n < 10 ^ 15"
  shows "format_g 15 (DFin s (of_nat n)) = (if s then ''-'' else '''') @ show_nat n"
proof (cases "n = 0")
  case True
  then show ?thesis by (simp add: show_nat.simps)
next
  case False
  define l where "l = length (show_nat n)"
  have l: "0 < l" "l \<le> 15" using length_show_nat_le [OF assms] by (simp_all add: l_def)
  have e: "floor_log10 (of_nat n) = int l - 1" using floor_log10_nat False by (simp add: l_def)
  have p: "pow10 (int 15 - 1 - (int l - 1)) = 10 ^ (15 - l)" using l by (simp add: pow10_def nat_diff_distrib)
  have "(of_nat n :: rat) * 10 ^ (15 - l) = of_int (int (n * 10 ^ (15 - l)))" by simp
  then have r: "nat (round_half_even (of_nat n * 10 ^ (15 - l))) = n * 10 ^ (15 - l)"
    by (simp only: round_half_even_of_int nat_int)
  have "n * 10 ^ (15 - l) < 10 ^ l * 10 ^ (15 - l)"
    using length_show_nat_lt [of n] by (simp add: l_def)
  also have "\<dots> = 10 ^ 15" using l by (simp add: power_add [symmetric])
  finally have lt: "n * 10 ^ (15 - l) < 10 ^ 15" .
  have take1: "nat (int l - 1) + 1 = l" using l by simp
  from lt have "sig_digits 15 (of_nat n) = (n * 10 ^ (15 - l), int l - 1)"
    using e p r by (simp add: sig_digits_def)
  then have "format_g 15 (DFin s (of_nat n)) = (if s then ''-'' else '''') @ format_g_digits 15 (n * 10 ^ (15 - l)) (int l - 1)"
    using False by simp
  also have "format_g_digits 15 (n * 10 ^ (15 - l)) (int l - 1) = show_nat n"
    using l False by (simp add: format_g_digits_def show_nat_times_power with_fraction_def take1 Let_def l_def [symmetric])
  finally show ?thesis .
qed

lemma strtod_signed_integer:
  assumes "n < 10 ^ 15"
  shows "strtod ((if s then ''-'' else '''') @ show_nat n) =
    (DFin s (of_nat n), length ((if s then ''-'' else '''') @ show_nat n))"
proof -
  have hd: "strtod_sign (show_nat n) = (False, show_nat n)"
    using hd_show_nat [of n] by (cases "show_nat n") (simp_all add: digit_no_sign del: strtod_sign.simps)
  have "n < 2 ^ 53" using assms by simp
  then show ?thesis
    using hd by (simp add: strtod_def takeWhile_all dropWhile_all show_nat_digits pow10_def dbl_of_nat)
qed

lemma number_text_finite:
  "number_text (DFin s q) = (case sscanf_lg (format_g 15 (DFin s q)) of
     Some test \<Rightarrow> if compare_double test (DFin s q) then format_g 15 (DFin s q) else format_g 17 (DFin s q)
   | None \<Rightarrow> format_g 17 (DFin s q))"
proof -
  have "\<not> dbl_less (dbl_of_rat False (1 / 10 ^ 7)) (DFin s 0)" "\<not> dbl_less (DFin s 0) (dbl_of_rat True (1 / 10 ^ 7))"
    by (rule dbl_of_rat_not_below_zero dbl_of_rat_not_above_zero; simp)+
  then show ?thesis unfolding number_text_def Let_def dbl_times_zero.simps by simp
qed

lemma integer_shown:
  assumes "n < 10 ^ 15"
  shows "number_shown (DFin s (of_nat n)) = Some ((if s then ''-'' else '''') @ show_nat n)"
proof -
  let ?d = "DFin s (of_nat n)"
  let ?t = "(if s then ''-'' else '''') @ show_nat n"
  have len: "length ?t \<le> 16" using length_show_nat_le [OF assms] by simp
  have "hd (show_nat n) \<noteq> CHR ''i'' \<and> hd (show_nat n) \<noteq> CHR ''n'' \<and> hd (show_nat n) \<noteq> CHR ''-''"
    using hd_show_nat [of n] by (auto simp: is_digit_def)
  then have "?t \<noteq> ''inf'' \<and> ?t \<noteq> ''-inf'' \<and> ?t \<noteq> ''nan''" by auto
  then have sc: "sscanf_lg ?t = Some ?d"
    using strtod_signed_integer [OF assms, of s] by (simp add: sscanf_lg_def)
  have "compare_double ?d ?d"
    by (simp add: compare_double_def dbl_leq_def CJSON_DOUBLE_PRECISION_def dbl_of_nat [of 0, simplified]
        dbl_of_rat_not_below_zero dbl_of_rat_def [of False "0"] rnd53_def [of "0"] round_nonneg split: if_split)
  then have "number_text ?d = ?t"
    unfolding number_text_finite format_g_integer [OF assms] sc by simp
  moreover have "map (\<lambda>c. if c = decimal_point then CHR ''.'' else c) ?t = ?t"
    by (simp add: decimal_point_def map_idI)
  ultimately show ?thesis using len by (simp add: number_shown_def)
qed

lemma integer_reprints: "n < 10 ^ 15 \<Longrightarrow> reprints (DFin s (of_nat n))"
  unfolding reprints_def using integer_shown strtod_signed_integer by blast

subsection \<open>Printing and parsing\<close>

lemma first_below_128: "canonical x \<Longrightarrow> render f n x = Some t \<Longrightarrow> ch (hd t) < 128"
proof (cases x)
  case (CJson ty c s i d k)
  assume can: "canonical x" and t: "render f n x = Some t"
  from can CJson consider "ty = cJSON_NULL \<or> ty = cJSON_False \<or> ty = cJSON_True"
    | "ty = cJSON_Number" "reprints d" | "ty = cJSON_String" | "ty = cJSON_Array" | "ty = cJSON_Object"
    by auto
  then show ?thesis
  proof cases
    case 1
    with t CJson show ?thesis by auto
  next
    case 2
    then obtain sg q where "d = DFin sg q" by (auto simp: reprints_def)
    with 2 t CJson number_shown_shape [of sg q t] show ?thesis by (auto simp: is_digit_def)
  next
    case 3
    with t CJson show ?thesis by (auto simp: quoted_def)
  next
    case 4
    with t CJson show ?thesis by (auto simp: run_simps)
  next
    case 5
    with t CJson show ?thesis by (auto simp: run_simps)
  qed
qed

lemma skip_no_bom: "content b \<noteq> [] \<Longrightarrow> offset b = 0 \<Longrightarrow> ch (hd (content b)) < 128 \<Longrightarrow> skip_utf8_bom b = Some b"
  by (cases "content b") (auto simp: skip_utf8_bom_def strncmp_eq_def)

text \<open>A text that starts with a visible ASCII character is parsed from its first character.\<close>

definition finished :: "bytes \<Rightarrow> bool \<Rightarrow> cJSON \<Rightarrow> parse_buffer \<Rightarrow> parse_outcome" where
  "finished v ok x b =
     (if ok then \<lparr>parsed = Some x, parse_end = Some (offset b), error_json = None,
                  error_position = 0, out_heap = mem b\<rparr>
      else parse_failed v (Some x) b)"

lemma parse_from_first:
  assumes "c_str v = t" and "t \<noteq> []" and "32 < ch (hd t)" and "ch (hd t) < 128" and "no_oom h"
  obtains h1 where "no_oom h1" and
    "cJSON_Parse v h = do {
       (ok, x', b) \<leftarrow> parse_value parse_fuel zero_item \<lparr>content = t @ [NUL], offset = 0, depth = 0, mem = h1\<rparr>;
       Some (finished v ok x' b) }"
proof -
  obtain h1 where new: "cJSON_New_Item h = (Some zero_item, h1)" and h1: "no_oom h1"
    using new_item_works [OF assms(5)] .
  let ?b = "\<lparr>content = t @ [NUL], offset = 0, depth = 0, mem = h1\<rparr>"
  have bom: "skip_utf8_bom ?b = Some ?b"
    using assms(2-4) by (intro skip_no_bom) simp_all
  have white: "buffer_skip_whitespace ?b = ?b"
    using assms(2,3) by (intro skip_nothing [of _ "[]" "t @ [NUL]"]) simp_all
  show ?thesis
    by (rule that [OF h1])
      (use new in \<open>cases "parse_value parse_fuel zero_item ?b";
        auto simp: cJSON_Parse_def cJSON_ParseWithOpts_def assms(1) bom white Let_def finished_def simp del: parse_value.simps\<close>)
qed

lemma rendered_parses:
  assumes "canonical x" and "item_string x = None" and "nested_within CJSON_NESTING_LIMIT x"
    and r: "render f 0 x = Some t" and "no_oom h"
  shows "\<exists>out. cJSON_Parse (t @ [NUL]) h = Some out \<and> parsed out = Some x"
proof -
  obtain t0 where t0: "render f 0 x = Some t0" "t0 \<noteq> []" "32 < ch (hd t0)"
    using canonical_rendered [OF assms(1)] by blast
  have t: "t \<noteq> []" "32 < ch (hd t)" using t0 r by simp_all
  have cs: "c_str (t @ [NUL]) = t" using render_no_NUL(1) [OF r] by (simp add: c_str_no_NUL)
  obtain h1 where h1: "no_oom h1" and run: "cJSON_Parse (t @ [NUL]) h = do {
       (ok, x', b) \<leftarrow> parse_value parse_fuel zero_item \<lparr>content = t @ [NUL], offset = 0, depth = 0, mem = h1\<rparr>;
       Some (finished (t @ [NUL]) ok x' b) }"
    using parse_from_first [OF cs t first_below_128 [OF assms(1) r] assms(5)] .
  let ?b = "\<lparr>content = t @ [NUL], offset = 0, depth = 0, mem = h1\<rparr>"
  obtain h2 where "parse_value parse_fuel (empty_item 0 (item_string x)) ?b
      = Some (True, x, ?b\<lparr>offset := length ([] :: bytes) + length t, mem := h2\<rparr>)" "no_oom h2"
    by (rule reads_backD [OF canonical_reads_back [OF assms(1), of f 0] r, of ?b "[]" "[NUL]" parse_fuel 0])
      (use assms(3) h1 in \<open>simp_all add: parse_fuel_def\<close>)
  then show ?thesis unfolding run using assms(2) by (simp add: zero_is_empty finished_def)
qed



text \<open>
  C33. The library reads a number it cannot write: the document \<open>1e999\<close> parses to an infinite number,
  the test meant to print it as \<open>null\<close> never fires, and the text it is printed as, \<open>inf\<close>, is
  rejected by the parser.
\<close>

theorem infinite_number_printed_as_inf:
  "map_option (\<lambda>out. map_option (render False 0) (parsed out)) (cJSON_Parse ''1e999'' fresh_heap) = Some (Some (Some ''inf''))
   \<and> map_option (\<lambda>out. parsed out = None) (cJSON_Parse ''inf'' fresh_heap) = Some True
   \<and> (\<forall>d. number_text d \<noteq> ''null'')"
proof (intro conjI allI)
  have ok: "no_oom fresh_heap" by (simp add: fresh_heap_def)
  have "(2 :: rat) ^ 1024 \<le> 2 ^ (3 * 999)" by (rule power_increasing) simp_all
  also have "\<dots> = (2 ^ 3) ^ 999" by (rule power_mult)
  also have "\<dots> \<le> 10 ^ 999" by (rule power_mono) simp_all
  also have "\<dots> = pow10 999" by (simp only: pow10_def zero_le_numeral if_True nat_numeral)
  finally have "(2 :: rat) ^ 1024 \<le> pow10 999" .
  moreover have "digits_val ''1'' = 1" by code_simp
  ultimately have "(2 :: rat) ^ 1024 \<le> of_nat (digits_val ''1'') * pow10 999"
    by (simp only: of_nat_1 mult_1_left)
  from rnd53_large [OF this] have "dbl_of_rat False (of_nat (digits_val ''1'') * pow10 999) = DInf False"
    unfolding dbl_of_rat_def Let_def by (rule if_P)
  moreover have "digits_val ''999'' = 999" by code_simp
  ultimately have "strtod ''1e999'' = (DInf False, 5)"
    by (simp add: strtod_def is_digit_def)
  moreover have "copy_number 63 (''1e999'' @ [NUL]) = ''1e999''" by code_simp
  ultimately have num: "parse_number zero_item \<lparr>content = ''1e999'' @ [NUL], offset = 0, depth = 0, mem = h\<rparr>
    = Some (True, CJson cJSON_Number [] None INT_MAX (DInf False) None, \<lparr>content = ''1e999'' @ [NUL], offset = 5, depth = 0, mem = h\<rparr>)" for h
    by (simp add: parse_number_def saturate_int_def zero_item_def)
  obtain h1 where "cJSON_Parse ''1e999'' fresh_heap = do {
       (ok, x', b) \<leftarrow> parse_value parse_fuel zero_item \<lparr>content = ''1e999'' @ [NUL], offset = 0, depth = 0, mem = h1\<rparr>;
       Some (finished ''1e999'' ok x' b) }"
    by (rule parse_from_first [of "''1e999''" "''1e999''" fresh_heap]) (use ok in simp_all)
  moreover have "render False 0 (CJson cJSON_Number [] None INT_MAX (DInf False) None) = Some ''inf''"
    using number_text_cases [of "DInf False"] by (simp add: number_shown_def decimal_point_def)
  ultimately show "map_option (\<lambda>out. map_option (render False 0) (parsed out)) (cJSON_Parse ''1e999'' fresh_heap) = Some (Some (Some ''inf''))"
    using parse_value_first [of "\<lparr>content = ''1e999'' @ [NUL], offset = 0, depth = 0, mem = h1\<rparr>" "[]" "''1e999'' @ [NUL]" CJSON_NESTING_LIMIT zero_item] num
    by (simp add: parse_fuel_def is_digit_def finished_def del: parse_value.simps)
  show "map_option (\<lambda>out. parsed out = None) (cJSON_Parse ''inf'' fresh_heap) = Some True"
    by code_simp
  show "number_text d \<noteq> ''null''" for d
  proof -
    have hd: "hd (format_g P (DFin s q)) \<noteq> CHR ''n''" for P s q
      using format_g_hd [of P s q] by (auto simp: is_digit_def simp del: format_g.simps)
    have "format_g P d \<noteq> ''null''" for P
    proof (cases d)
      case (DFin s q)
      then show ?thesis using hd [of P s q] by (metis list.sel(1))
    qed auto
    then show ?thesis using number_text_cases [of d] by auto
  qed
qed

end
