(* ===== verification/CJsonLinks.thy ===== *)
theory CJsonLinks
  imports CJsonQuery
begin

section \<open>cJSON: editing the chains of children\<close>

text \<open>
  The operations of \<open>cJSON.c\<close> that rewire \<open>next\<close>, \<open>prev\<close> and \<open>child\<close>.  Here an item is an
  address, and the store has one function per field of \<open>struct cJSON\<close>; \<open>live_at\<close> tells the
  nodes that are allocated, so a read or a write through NULL or through a freed node is \<open>None\<close>.
  Addresses are never used twice, so a dangling pointer is always noticed.  The first child
  of a chain has \<open>prev\<close> NULL when the parser or \<open>cJSON_Duplicate\<close> built the chain, and the
  address of the last child when \<open>add_item_to_array\<close> did.
\<close>

type_synonym addr = nat
type_synonym ptr = "addr option"

record node_store =
  next_of :: "addr \<Rightarrow> ptr"
  prev_of :: "addr \<Rightarrow> ptr"
  child_of :: "addr \<Rightarrow> ptr"
  type_of :: "addr \<Rightarrow> 32 word"
  text_of :: "addr \<Rightarrow> bytes option"
  int_of :: "addr \<Rightarrow> int"
  double_of :: "addr \<Rightarrow> dbl"
  name_of :: "addr \<Rightarrow> bytes option"
  live_at :: "addr \<Rightarrow> bool"
  limit :: addr
  blocks_of :: heap

text \<open>Reading and writing one field through a pointer.\<close>

definition load :: "(node_store \<Rightarrow> addr \<Rightarrow> 'a) \<Rightarrow> ptr \<Rightarrow> node_store \<Rightarrow> 'a option" where
  "load f p s = (case p of None \<Rightarrow> None | Some a \<Rightarrow> if live_at s a then Some (f s a) else None)"

definition put :: "(addr \<Rightarrow> node_store \<Rightarrow> node_store) \<Rightarrow> ptr \<Rightarrow> node_store \<Rightarrow> node_store option" where
  "put f p s = (case p of None \<Rightarrow> None | Some a \<Rightarrow> if live_at s a then Some (f a s) else None)"

definition set_next :: "ptr \<Rightarrow> ptr \<Rightarrow> node_store \<Rightarrow> node_store option" where
  "set_next p v = put (\<lambda>a s. s\<lparr>next_of := (next_of s)(a := v)\<rparr>) p"

definition set_prev :: "ptr \<Rightarrow> ptr \<Rightarrow> node_store \<Rightarrow> node_store option" where
  "set_prev p v = put (\<lambda>a s. s\<lparr>prev_of := (prev_of s)(a := v)\<rparr>) p"

definition set_head :: "ptr \<Rightarrow> ptr \<Rightarrow> node_store \<Rightarrow> node_store option" where
  "set_head p v = put (\<lambda>a s. s\<lparr>child_of := (child_of s)(a := v)\<rparr>) p"

definition set_type :: "ptr \<Rightarrow> 32 word \<Rightarrow> node_store \<Rightarrow> node_store option" where
  "set_type p v = put (\<lambda>a s. s\<lparr>type_of := (type_of s)(a := v)\<rparr>) p"

definition set_name :: "ptr \<Rightarrow> bytes option \<Rightarrow> node_store \<Rightarrow> node_store option" where
  "set_name p v = put (\<lambda>a s. s\<lparr>name_of := (name_of s)(a := v)\<rparr>) p"

lemmas set_defs = set_next_def set_prev_def set_head_def set_type_def set_name_def

lemma load_Some [simp]: "load f (Some a) s = (if live_at s a then Some (f s a) else None)"
  and load_None [simp]: "load f None s = None"
  by (simp_all add: load_def)

lemma put_Some [simp]: "put f (Some a) s = (if live_at s a then Some (f a s) else None)"
  and put_None [simp]: "put f None s = None"
  by (simp_all add: put_def)

subsection \<open>Appending\<close>

definition suffix_object :: "ptr \<Rightarrow> ptr \<Rightarrow> node_store \<Rightarrow> node_store option" where
  "suffix_object prev item s = do { s \<leftarrow> set_next prev item s; set_prev item prev s }"

text \<open>The walk \<open>while (child->next)\<close>; on a cyclic chain it does not end.\<close>

partial_function (option) last_of :: "ptr \<Rightarrow> node_store \<Rightarrow> ptr option" where
  "last_of p s = do { n \<leftarrow> load next_of p s; if n = None then Some p else last_of n s }"

definition add_item_to_array :: "ptr \<Rightarrow> ptr \<Rightarrow> node_store \<Rightarrow> (bool \<times> node_store) option" where
  "add_item_to_array array item s =
     (if item = None \<or> array = None then Some (False, s)
      else do {
        child \<leftarrow> load child_of array s;
        if child = None
        then do {
          s \<leftarrow> set_head array item s;
          s \<leftarrow> set_prev item item s;
          s \<leftarrow> set_next item None s;
          Some (True, s) }
        else do {
          back \<leftarrow> load prev_of child s;
          end_item \<leftarrow> (if back \<noteq> None then Some back else last_of child s);
          s \<leftarrow> suffix_object end_item item s;
          first \<leftarrow> load child_of array s;
          s \<leftarrow> set_prev first item s;
          Some (True, s) } })"

subsection \<open>Lookup by position\<close>

fun walk_ptr :: "ptr \<Rightarrow> nat \<Rightarrow> node_store \<Rightarrow> ptr option" where
  "walk_ptr p 0 s = Some p"
| "walk_ptr p (Suc i) s =
     (if p = None then Some None else do { n \<leftarrow> load next_of p s; walk_ptr n i s })"

definition array_item_at :: "ptr \<Rightarrow> nat \<Rightarrow> node_store \<Rightarrow> ptr option" where
  "array_item_at array i s =
     (if array = None then Some None else do { c \<leftarrow> load child_of array s; walk_ptr c i s })"

subsection \<open>Detaching, inserting\<close>

definition when_some :: "ptr \<Rightarrow> (node_store \<Rightarrow> node_store option) \<Rightarrow> node_store \<Rightarrow> node_store option" where
  "when_some p f s = (if p \<noteq> None then f s else Some s)"

definition cJSON_DetachItemViaPointer :: "ptr \<Rightarrow> ptr \<Rightarrow> node_store \<Rightarrow> (ptr \<times> node_store) option" where
  "cJSON_DetachItemViaPointer parent item s =
     (if parent = None \<or> item = None then Some (None, s)
      else do {
        back \<leftarrow> load prev_of item s;
        forward \<leftarrow> load next_of item s;
        s \<leftarrow> when_some back (set_next back forward) s;
        forward \<leftarrow> load next_of item s;
        back \<leftarrow> load prev_of item s;
        s \<leftarrow> when_some forward (set_prev forward back) s;
        first \<leftarrow> load child_of parent s;
        s \<leftarrow> (if item = first
             then do { forward \<leftarrow> load next_of item s; set_head parent forward s } else Some s);
        s \<leftarrow> set_prev item None s;
        s \<leftarrow> set_next item None s;
        Some (item, s) })"

definition cJSON_DetachItemFromArray :: "ptr \<Rightarrow> int \<Rightarrow> node_store \<Rightarrow> (ptr \<times> node_store) option" where
  "cJSON_DetachItemFromArray array which s =
     (if which < 0 then Some (None, s)
      else do { item \<leftarrow> array_item_at array (nat which) s; cJSON_DetachItemViaPointer array item s })"

definition cJSON_InsertItemInArray :: "ptr \<Rightarrow> int \<Rightarrow> ptr \<Rightarrow> node_store \<Rightarrow> node_store option" where
  "cJSON_InsertItemInArray array which newitem s =
     (if which < 0 then Some s
      else do {
        after_inserted \<leftarrow> array_item_at array (nat which) s;
        if after_inserted = None
        then do { (_, s) \<leftarrow> add_item_to_array array newitem s; Some s }
        else do {
          s \<leftarrow> set_next newitem after_inserted s;
          back \<leftarrow> load prev_of after_inserted s;
          s \<leftarrow> set_prev newitem back s;
          s \<leftarrow> set_prev after_inserted newitem s;
          first \<leftarrow> load child_of array s;
          if after_inserted = first then set_head array newitem s
          else do { back \<leftarrow> load prev_of newitem s; set_next back newitem s } } })"

subsection \<open>Nodes come and go\<close>

text \<open>\<open>cJSON_New_Item\<close>: a fresh address whose fields are zero, or NULL.\<close>

definition new_node :: "node_store \<Rightarrow> ptr \<times> node_store" where
  "new_node s =
     (let (ok, h) = malloc (blocks_of s); a = limit s
      in if \<not> ok then (None, s\<lparr>blocks_of := h\<rparr>)
         else (Some a, s\<lparr>next_of := (next_of s)(a := None), prev_of := (prev_of s)(a := None),
           child_of := (child_of s)(a := None), type_of := (type_of s)(a := 0),
           text_of := (text_of s)(a := None), int_of := (int_of s)(a := 0),
           double_of := (double_of s)(a := DFin False 0), name_of := (name_of s)(a := None),
           live_at := (live_at s)(a := True), limit := a + 1, blocks_of := h\<rparr>))"

definition free_text :: "node_store \<Rightarrow> node_store" where
  "free_text s = s\<lparr>blocks_of := dealloc (blocks_of s)\<rparr>"

definition free_node :: "ptr \<Rightarrow> node_store \<Rightarrow> node_store option" where
  "free_node = put (\<lambda>a s. s\<lparr>live_at := (live_at s)(a := False), blocks_of := dealloc (blocks_of s)\<rparr>)"

text \<open>\<open>cJSON_Delete\<close> reads the link to the next item before it frees anything.\<close>

partial_function (option) delete_chain :: "ptr \<Rightarrow> node_store \<Rightarrow> node_store option" where
  "delete_chain item s =
     (if item = None then Some s
      else do {
        next \<leftarrow> load next_of item s;
        t \<leftarrow> load type_of item s;
        c \<leftarrow> load child_of item s;
        s \<leftarrow> (if \<not> has_flag t cJSON_IsReference \<and> c \<noteq> None then delete_chain c s else Some s);
        v \<leftarrow> load text_of item s;
        s \<leftarrow> Some (if \<not> has_flag t cJSON_IsReference \<and> v \<noteq> None then free_text s else s);
        k \<leftarrow> load name_of item s;
        s \<leftarrow> Some (if \<not> has_flag t cJSON_StringIsConst \<and> k \<noteq> None then free_text s else s);
        s \<leftarrow> free_node item s;
        delete_chain next s })"

definition cJSON_DeleteItemFromArray :: "ptr \<Rightarrow> int \<Rightarrow> node_store \<Rightarrow> node_store option" where
  "cJSON_DeleteItemFromArray array which s =
     do { (item, s) \<leftarrow> cJSON_DetachItemFromArray array which s; delete_chain item s }"

subsection \<open>Replacing\<close>

definition cJSON_ReplaceItemViaPointer :: "ptr \<Rightarrow> ptr \<Rightarrow> ptr \<Rightarrow> node_store \<Rightarrow> (bool \<times> node_store) option" where
  "cJSON_ReplaceItemViaPointer parent item replacement s =
     (if parent = None \<or> replacement = None \<or> item = None then Some (False, s)
      else if replacement = item then Some (True, s)
      else do {
        forward \<leftarrow> load next_of item s;
        s \<leftarrow> set_next replacement forward s;
        back \<leftarrow> load prev_of item s;
        s \<leftarrow> set_prev replacement back s;
        forward \<leftarrow> load next_of replacement s;
        s \<leftarrow> when_some forward (set_prev forward replacement) s;
        first \<leftarrow> load child_of parent s;
        s \<leftarrow> (if first = item then set_head parent replacement s
             else do { back \<leftarrow> load prev_of replacement s;
                       when_some back (set_next back replacement) s });
        s \<leftarrow> set_next item None s;
        s \<leftarrow> set_prev item None s;
        s \<leftarrow> delete_chain item s;
        Some (True, s) })"

definition cJSON_ReplaceItemInArray :: "ptr \<Rightarrow> int \<Rightarrow> ptr \<Rightarrow> node_store \<Rightarrow> node_store option" where
  "cJSON_ReplaceItemInArray array which newitem s =
     (if which < 0 then Some s
      else do {
        item \<leftarrow> array_item_at array (nat which) s;
        (_, s) \<leftarrow> cJSON_ReplaceItemViaPointer array item newitem s;
        Some s })"

subsection \<open>Members of objects\<close>

text \<open>
  The two loops of \<open>get_object_item\<close>: the case-sensitive one stops at a child without a name,
  for which the caller then answers NULL.
\<close>

partial_function (option) find_member_cs :: "bytes \<Rightarrow> ptr \<Rightarrow> node_store \<Rightarrow> ptr option" where
  "find_member_cs name p s =
     (if p = None then Some None
      else do {
        k \<leftarrow> load name_of p s;
        case k of None \<Rightarrow> Some None
        | Some v \<Rightarrow> if strcmp name v \<noteq> 0 then do { n \<leftarrow> load next_of p s; find_member_cs name n s }
                    else Some p })"

partial_function (option) find_member_ci :: "bytes \<Rightarrow> ptr \<Rightarrow> node_store \<Rightarrow> ptr option" where
  "find_member_ci name p s =
     (if p = None then Some None
      else do {
        k \<leftarrow> load name_of p s;
        if case_insensitive_strcmp (Some name) k \<noteq> 0
        then do { n \<leftarrow> load next_of p s; find_member_ci name n s }
        else Some p })"

definition member_at :: "ptr \<Rightarrow> bytes option \<Rightarrow> bool \<Rightarrow> node_store \<Rightarrow> ptr option" where
  "member_at object name case_sensitive s =
     (if object = None then Some None
      else case name of
        None \<Rightarrow> Some None
      | Some v \<Rightarrow> do {
          c \<leftarrow> load child_of object s;
          p \<leftarrow> (if case_sensitive then find_member_cs v c s else find_member_ci v c s);
          if p = None then Some None
          else do { k \<leftarrow> load name_of p s; Some (if k = None then None else p) } })"

definition cJSON_DetachItemFromObject :: "ptr \<Rightarrow> bytes option \<Rightarrow> node_store \<Rightarrow> (ptr \<times> node_store) option" where
  "cJSON_DetachItemFromObject object string s =
     do { item \<leftarrow> member_at object string False s; cJSON_DetachItemViaPointer object item s }"

definition cJSON_DetachItemFromObjectCaseSensitive ::
    "ptr \<Rightarrow> bytes option \<Rightarrow> node_store \<Rightarrow> (ptr \<times> node_store) option" where
  "cJSON_DetachItemFromObjectCaseSensitive object string s =
     do { item \<leftarrow> member_at object string True s; cJSON_DetachItemViaPointer object item s }"

definition cJSON_DeleteItemFromObject :: "ptr \<Rightarrow> bytes option \<Rightarrow> node_store \<Rightarrow> node_store option" where
  "cJSON_DeleteItemFromObject object string s =
     do { (item, s) \<leftarrow> cJSON_DetachItemFromObject object string s; delete_chain item s }"

definition cJSON_DeleteItemFromObjectCaseSensitive :: "ptr \<Rightarrow> bytes option \<Rightarrow> node_store \<Rightarrow> node_store option" where
  "cJSON_DeleteItemFromObjectCaseSensitive object string s =
     do { (item, s) \<leftarrow> cJSON_DetachItemFromObjectCaseSensitive object string s; delete_chain item s }"

text \<open>A copy of a string in the store's heap.\<close>

definition dup_text :: "bytes option \<Rightarrow> node_store \<Rightarrow> bytes option \<times> node_store" where
  "dup_text t s = (let (r, h) = cJSON_strdup t (blocks_of s) in (r, s\<lparr>blocks_of := h\<rparr>))"

definition drop_name :: "ptr \<Rightarrow> node_store \<Rightarrow> node_store option" where
  "drop_name item s = do {
     t \<leftarrow> load type_of item s; k \<leftarrow> load name_of item s;
     Some (if \<not> has_flag t cJSON_StringIsConst \<and> k \<noteq> None then free_text s else s) }"

definition add_item_to_object :: "ptr \<Rightarrow> bytes option \<Rightarrow> ptr \<Rightarrow> bool \<Rightarrow> node_store \<Rightarrow> (bool \<times> node_store) option" where
  "add_item_to_object object string item constant_key s =
     (if object = None \<or> string = None \<or> item = None then Some (False, s)
      else let (new_key, s) = (if constant_key then (string, s) else dup_text string s)
      in if new_key = None then Some (False, s)
      else do {
        t \<leftarrow> load type_of item s;
        s \<leftarrow> drop_name item s;
        s \<leftarrow> set_name item new_key s;
        s \<leftarrow> set_type item (if constant_key then t OR cJSON_StringIsConst
                           else t AND NOT cJSON_StringIsConst) s;
        add_item_to_array object item s })"

definition cJSON_AddItemToArray :: "ptr \<Rightarrow> ptr \<Rightarrow> node_store \<Rightarrow> node_store option" where
  "cJSON_AddItemToArray array item s = do { (_, s) \<leftarrow> add_item_to_array array item s; Some s }"

definition cJSON_AddItemToObject :: "ptr \<Rightarrow> bytes option \<Rightarrow> ptr \<Rightarrow> node_store \<Rightarrow> node_store option" where
  "cJSON_AddItemToObject object string item s =
     do { (_, s) \<leftarrow> add_item_to_object object string item False s; Some s }"

definition cJSON_AddItemToObjectCS :: "ptr \<Rightarrow> bytes option \<Rightarrow> ptr \<Rightarrow> node_store \<Rightarrow> node_store option" where
  "cJSON_AddItemToObjectCS object string item s =
     do { (_, s) \<leftarrow> add_item_to_object object string item True s; Some s }"

text \<open>A reference shares the child and the value string of the item it is made from.\<close>

definition create_reference :: "ptr \<Rightarrow> node_store \<Rightarrow> (ptr \<times> node_store) option" where
  "create_reference item s =
     (if item = None then Some (None, s)
      else case new_node s of
        (None, s) \<Rightarrow> Some (None, s)
      | (Some r, s) \<Rightarrow> do {
          c \<leftarrow> load child_of item s; t \<leftarrow> load type_of item s; v \<leftarrow> load text_of item s;
          i \<leftarrow> load int_of item s; d \<leftarrow> load double_of item s;
          Some (Some r, s\<lparr>child_of := (child_of s)(r := c), text_of := (text_of s)(r := v),
            int_of := (int_of s)(r := i), double_of := (double_of s)(r := d),
            name_of := (name_of s)(r := None), type_of := (type_of s)(r := t OR cJSON_IsReference),
            next_of := (next_of s)(r := None), prev_of := (prev_of s)(r := None)\<rparr>) })"

definition cJSON_AddItemReferenceToArray :: "ptr \<Rightarrow> ptr \<Rightarrow> node_store \<Rightarrow> node_store option" where
  "cJSON_AddItemReferenceToArray array item s =
     (if array = None then Some s
      else do { (r, s) \<leftarrow> create_reference item s; (_, s) \<leftarrow> add_item_to_array array r s; Some s })"

definition cJSON_AddItemReferenceToObject :: "ptr \<Rightarrow> bytes option \<Rightarrow> ptr \<Rightarrow> node_store \<Rightarrow> node_store option" where
  "cJSON_AddItemReferenceToObject object string item s =
     (if object = None \<or> string = None then Some s
      else do { (r, s) \<leftarrow> create_reference item s;
                (_, s) \<leftarrow> add_item_to_object object string r False s; Some s })"

definition replace_item_in_object :: "ptr \<Rightarrow> bytes option \<Rightarrow> ptr \<Rightarrow> bool \<Rightarrow> node_store \<Rightarrow> (bool \<times> node_store) option" where
  "replace_item_in_object object string replacement case_sensitive s =
     (if replacement = None \<or> string = None then Some (False, s)
      else do {
        s \<leftarrow> drop_name replacement s;
        (k, s) \<leftarrow> Some (dup_text string s);
        s \<leftarrow> set_name replacement k s;
        t \<leftarrow> load type_of replacement s;
        s \<leftarrow> set_type replacement (t AND NOT cJSON_StringIsConst) s;
        item \<leftarrow> member_at object string case_sensitive s;
        (_, s) \<leftarrow> cJSON_ReplaceItemViaPointer object item replacement s;
        Some (True, s) })"

definition cJSON_ReplaceItemInObject :: "ptr \<Rightarrow> bytes option \<Rightarrow> ptr \<Rightarrow> node_store \<Rightarrow> node_store option" where
  "cJSON_ReplaceItemInObject object string newitem s =
     do { (_, s) \<leftarrow> replace_item_in_object object string newitem False s; Some s }"

definition cJSON_ReplaceItemInObjectCaseSensitive :: "ptr \<Rightarrow> bytes option \<Rightarrow> ptr \<Rightarrow> node_store \<Rightarrow> node_store option" where
  "cJSON_ReplaceItemInObjectCaseSensitive object string newitem s =
     do { (_, s) \<leftarrow> replace_item_in_object object string newitem True s; Some s }"

subsection \<open>Creating a member\<close>

text \<open>
  The constructors of the theory on queries work on trees; \<open>place\<close> puts the childless item one of
  them makes into the store.  \<open>add_created\<close> is the body that the nine functions share.
\<close>

definition place :: "cJSON option \<times> heap \<Rightarrow> node_store \<Rightarrow> ptr \<times> node_store" where
  "place r s =
     (case r of
        (None, h) \<Rightarrow> (None, s\<lparr>blocks_of := h\<rparr>)
      | (Some x, h) \<Rightarrow>
          let a = limit s
          in (Some a, s\<lparr>next_of := (next_of s)(a := None), prev_of := (prev_of s)(a := None),
               child_of := (child_of s)(a := None), type_of := (type_of s)(a := ctype x),
               text_of := (text_of s)(a := valuestring x), int_of := (int_of s)(a := valueint x),
               double_of := (double_of s)(a := valuedouble x),
               name_of := (name_of s)(a := item_string x),
               live_at := (live_at s)(a := True), limit := a + 1, blocks_of := h\<rparr>))"

definition add_created :: "cJSON option \<times> heap \<Rightarrow> ptr \<Rightarrow> bytes option \<Rightarrow> node_store \<Rightarrow> (ptr \<times> node_store) option" where
  "add_created r object name s =
     (let (item, s) = place r s
      in do {
        (ok, s) \<leftarrow> add_item_to_object object name item False s;
        if ok then Some (item, s) else do { s \<leftarrow> delete_chain item s; Some (None, s) } })"

definition cJSON_AddNullToObject :: "ptr \<Rightarrow> bytes option \<Rightarrow> node_store \<Rightarrow> (ptr \<times> node_store) option" where
  "cJSON_AddNullToObject object name s = add_created (cJSON_CreateNull (blocks_of s)) object name s"

definition cJSON_AddTrueToObject :: "ptr \<Rightarrow> bytes option \<Rightarrow> node_store \<Rightarrow> (ptr \<times> node_store) option" where
  "cJSON_AddTrueToObject object name s = add_created (cJSON_CreateTrue (blocks_of s)) object name s"

definition cJSON_AddFalseToObject :: "ptr \<Rightarrow> bytes option \<Rightarrow> node_store \<Rightarrow> (ptr \<times> node_store) option" where
  "cJSON_AddFalseToObject object name s = add_created (cJSON_CreateFalse (blocks_of s)) object name s"

definition cJSON_AddBoolToObject :: "ptr \<Rightarrow> bytes option \<Rightarrow> bool \<Rightarrow> node_store \<Rightarrow> (ptr \<times> node_store) option" where
  "cJSON_AddBoolToObject object name b s = add_created (cJSON_CreateBool b (blocks_of s)) object name s"

definition cJSON_AddNumberToObject :: "ptr \<Rightarrow> bytes option \<Rightarrow> dbl \<Rightarrow> node_store \<Rightarrow> (ptr \<times> node_store) option" where
  "cJSON_AddNumberToObject object name d s =
     do { r \<leftarrow> cJSON_CreateNumber d (blocks_of s); add_created r object name s }"

definition cJSON_AddStringToObject ::
    "ptr \<Rightarrow> bytes option \<Rightarrow> bytes option \<Rightarrow> node_store \<Rightarrow> (ptr \<times> node_store) option" where
  "cJSON_AddStringToObject object name v s = add_created (cJSON_CreateString v (blocks_of s)) object name s"

definition cJSON_AddRawToObject ::
    "ptr \<Rightarrow> bytes option \<Rightarrow> bytes option \<Rightarrow> node_store \<Rightarrow> (ptr \<times> node_store) option" where
  "cJSON_AddRawToObject object name v s = add_created (cJSON_CreateRaw v (blocks_of s)) object name s"

definition cJSON_AddObjectToObject :: "ptr \<Rightarrow> bytes option \<Rightarrow> node_store \<Rightarrow> (ptr \<times> node_store) option" where
  "cJSON_AddObjectToObject object name s = add_created (cJSON_CreateObject (blocks_of s)) object name s"

definition cJSON_AddArrayToObject :: "ptr \<Rightarrow> bytes option \<Rightarrow> node_store \<Rightarrow> (ptr \<times> node_store) option" where
  "cJSON_AddArrayToObject object name s = add_created (cJSON_CreateArray (blocks_of s)) object name s"

end
