(* ===== verification/CJsonLinkProps.thy ===== *)
theory CJsonLinkProps
  imports CJsonLinks
begin

section \<open>cJSON: what the chain operations do to the list of children\<close>

text \<open>
  The children of an item, as the list of their addresses, and what appending, inserting,
  detaching and replacing do to that list.  A locale states the contract of a container that
  grows at its end; it is interpreted on \<open>add_item_to_array\<close>.
\<close>

subsection \<open>Chains\<close>

primrec chain :: "(addr \<Rightarrow> ptr) \<Rightarrow> (addr \<Rightarrow> bool) \<Rightarrow> ptr \<Rightarrow> addr list \<Rightarrow> ptr \<Rightarrow> bool" where
  "chain n l p [] q \<longleftrightarrow> p = q"
| "chain n l p (a # as) q \<longleftrightarrow> p = Some a \<and> l a \<and> chain n l (n a) as q"

fun linked :: "(addr \<Rightarrow> ptr) \<Rightarrow> addr list \<Rightarrow> bool" where
  "linked p (a # b # xs) \<longleftrightarrow> p b = Some a \<and> linked p (b # xs)"
| "linked p xs \<longleftrightarrow> True"

text \<open>
  \<open>xs\<close> are the children of \<open>a\<close>: forward links end in NULL, backward links mirror them, and the
  first child points back at nothing or at the last child.
\<close>

definition children :: "node_store \<Rightarrow> addr \<Rightarrow> addr list \<Rightarrow> bool" where
  "children s a xs \<longleftrightarrow> live_at s a \<and> chain (next_of s) (live_at s) (child_of s a) xs None \<and>
     linked (prev_of s) xs \<and> distinct xs \<and>
     (xs \<noteq> [] \<longrightarrow> prev_of s (hd xs) = None \<or> prev_of s (hd xs) = Some (last xs))"

lemma chain_append [simp]:
  "chain n l p (as @ bs) q \<longleftrightarrow> (\<exists>r. chain n l p as r \<and> chain n l r bs q)"
  by (induction as arbitrary: p) auto

lemma chain_upd [simp]: "u \<notin> set as \<Longrightarrow> chain (n(u := v)) l p as q = chain n l p as q"
  by (induction as arbitrary: p) auto

lemma chain_Nil_iff [simp]: "chain n l None xs None \<longleftrightarrow> xs = []"
  by (cases xs) auto

lemma chain_ne: "chain n l p xs q \<Longrightarrow> xs \<noteq> [] \<Longrightarrow> p = Some (hd xs)"
  by (cases xs) auto

lemma chain_live: "chain n l p xs q \<Longrightarrow> x \<in> set xs \<Longrightarrow> l x"
  by (induction xs arbitrary: p) auto

lemma chain_last: "chain n l p xs q \<Longrightarrow> xs \<noteq> [] \<Longrightarrow> n (last xs) = q"
  by (induction xs arbitrary: p) (auto split: if_splits)

lemma chain_kill: "u \<notin> set as \<Longrightarrow> chain n (l(u := v)) p as q = chain n l p as q"
  by (induction as arbitrary: p) auto

lemma linked_Cons: "linked p (a # xs) \<longleftrightarrow> linked p xs \<and> (xs \<noteq> [] \<longrightarrow> p (hd xs) = Some a)"
  by (cases xs) auto

lemma linked_append [simp]:
  "linked p (as @ bs) \<longleftrightarrow> linked p as \<and> linked p bs \<and> (as \<noteq> [] \<and> bs \<noteq> [] \<longrightarrow> p (hd bs) = Some (last as))"
  by (induction as) (auto simp: linked_Cons)

lemma linked_upd [simp]: "u \<notin> set (tl xs) \<Longrightarrow> linked (p(u := v)) xs = linked p xs"
  by (induction xs rule: linked.induct [of _ p]) auto

lemma linked_upd_notin [simp]: "u \<notin> set xs \<Longrightarrow> linked (p(u := v)) xs = linked p xs"
  by (rule linked_upd) (cases xs; simp)

lemma chain_extend:
  assumes "chain n l p xs None" and "xs \<noteq> []" and "distinct xs" and "x \<notin> set xs" and "l x" and "n x = None"
  shows "chain (n(last xs := Some x)) l p (xs @ [x]) None"
proof -
  obtain as e where xs: "xs = as @ [e]" using assms(2) by (cases xs rule: rev_cases) auto
  then show ?thesis using assms by auto
qed

lemma last_of_chain:
  "chain (next_of s) (live_at s) p xs None \<Longrightarrow> xs \<noteq> [] \<Longrightarrow> last_of p s = Some (Some (last xs))"
  by (induction xs arbitrary: p) (subst last_of.simps; auto)+

lemma walk_ptr_chain:
  "chain (next_of s) (live_at s) p xs None \<Longrightarrow> walk_ptr p i s = Some (if i < length xs then Some (xs ! i) else None)"
  by (induction p i s arbitrary: xs rule: walk_ptr.induct) (case_tac xs; auto)+

lemma array_item_at_children:
  "children s a xs \<Longrightarrow> array_item_at (Some a) i s = Some (if i < length xs then Some (xs ! i) else None)"
  by (simp add: array_item_at_def children_def walk_ptr_chain)

text \<open>What an operation on the children of \<open>a\<close> leaves alone.\<close>

definition only_links :: "node_store \<Rightarrow> node_store \<Rightarrow> addr \<Rightarrow> addr set \<Rightarrow> bool" where
  "only_links s s' a ys \<longleftrightarrow>
     s' = s\<lparr>next_of := next_of s', prev_of := prev_of s', child_of := child_of s'\<rparr> \<and>
     (\<forall>y. y \<notin> ys \<longrightarrow> next_of s' y = next_of s y \<and> prev_of s' y = prev_of s y) \<and>
     (\<forall>b. b \<noteq> a \<longrightarrow> child_of s' b = child_of s b)"

lemma only_links_live: "only_links s s' a ys \<Longrightarrow> live_at s' = live_at s"
  unfolding only_links_def by (elim conjE) (metis node_store.select_convs(9) node_store.update_convs(1-3) node_store.surjective)

subsection \<open>Appending\<close>

lemma add_item_appends:
  assumes "children s a xs" and "live_at s x" and "next_of s x = None" and "x \<notin> set xs"
  shows "\<exists>s'. add_item_to_array (Some a) (Some x) s = Some (True, s') \<and> children s' a (xs @ [x]) \<and>
    prev_of s' (hd (xs @ [x])) = Some x \<and> only_links s s' a (insert x (set xs))"
proof (cases "xs = []")
  case True
  then show ?thesis
    using assms by (auto simp: add_item_to_array_def children_def set_defs only_links_def)
next
  case False
  then obtain b ys where xs: "xs = b # ys" by (cases xs) auto
  let ?e = "last xs"
  have head: "child_of s a = Some b" "live_at s b" using assms(1) xs by (auto simp: children_def)
  have e: "live_at s ?e" "next_of s ?e = None" "?e \<in> set xs"
    using assms(1) False by (auto simp: children_def dest: chain_last intro: chain_live)
  have end_item: "(if prev_of s b \<noteq> None then Some (prev_of s b) else last_of (Some b) s) = Some (Some ?e)"
    using assms(1) xs last_of_chain [of s "child_of s a" xs] by (auto simp: children_def)
  let ?s' = "s\<lparr>next_of := (next_of s)(?e := Some x), prev_of := (prev_of s)(x := Some ?e, b := Some x)\<rparr>"
  have "add_item_to_array (Some a) (Some x) s = Some (True, ?s')"
    using assms head e end_item by (simp add: add_item_to_array_def suffix_object_def set_defs children_def)
  moreover have "children ?s' a (xs @ [x])"
    using assms chain_extend [of "next_of s" "live_at s" "child_of s a" xs x] xs e(3)
    by (auto simp: children_def linked_Cons split: if_splits)
  ultimately show ?thesis using xs e by (auto simp: only_links_def)
qed

subsection \<open>Inserting\<close>

lemma children_split:
  assumes "children s a (pre @ y # post)"
  shows "live_at s a" "live_at s y" "next_of s y = (if post = [] then None else Some (hd post))"
    "child_of s a = Some (hd (pre @ [y]))" "pre \<noteq> [] \<Longrightarrow> prev_of s y = Some (last pre)"
    "pre \<noteq> [] \<Longrightarrow> live_at s (last pre)" "pre \<noteq> [] \<Longrightarrow> next_of s (last pre) = Some y"
    "post \<noteq> [] \<Longrightarrow> prev_of s (hd post) = Some y" "post \<noteq> [] \<Longrightarrow> live_at s (hd post)"
proof -
  from assms have c: "chain (next_of s) (live_at s) (child_of s a) (pre @ y # post) None"
    and k: "linked (prev_of s) (pre @ y # post)" and l: "live_at s a" by (auto simp: children_def)
  show "live_at s a" by (rule l)
  show "live_at s y" "next_of s y = (if post = [] then None else Some (hd post))"
    using c by (auto dest: chain_ne)
  show "child_of s a = Some (hd (pre @ [y]))" using c by (cases pre) auto
  show "pre \<noteq> [] \<Longrightarrow> prev_of s y = Some (last pre)" using k by (auto simp: linked_Cons)
  show "pre \<noteq> [] \<Longrightarrow> live_at s (last pre)" using c chain_live [of _ _ _ pre] by fastforce
  show "pre \<noteq> [] \<Longrightarrow> next_of s (last pre) = Some y" using c by (auto dest: chain_last)
  show "post \<noteq> [] \<Longrightarrow> prev_of s (hd post) = Some y" using k by (auto simp: linked_Cons)
  show "post \<noteq> [] \<Longrightarrow> live_at s (hd post)" using c by (cases post) auto
qed

lemma insert_before:
  assumes ch: "children s a (pre @ y # post)" and x: "live_at s x" "x \<notin> set (pre @ y # post)"
  shows "\<exists>s'. cJSON_InsertItemInArray (Some a) (int (length pre)) (Some x) s = Some s' \<and>
    children s' a (pre @ x # y # post) \<and> only_links s s' a (insert x (set (pre @ y # post)))"
proof -
  note f = children_split [OF ch]
  have at: "array_item_at (Some a) (length pre) s = Some (Some y)"
    using array_item_at_children [OF ch] by simp
  show ?thesis
  proof (cases pre)
    case Nil
    let ?s' = "s\<lparr>next_of := (next_of s)(x := Some y), prev_of := (prev_of s)(x := prev_of s y, y := Some x),
      child_of := (child_of s)(a := Some x)\<rparr>"
    have "cJSON_InsertItemInArray (Some a) (int (length pre)) (Some x) s = Some ?s'"
      using at f x Nil by (simp add: cJSON_InsertItemInArray_def set_defs)
    moreover have "children ?s' a (pre @ x # y # post)"
      using ch x Nil last_in_set [of post] by (auto simp: children_def linked_Cons split: if_splits)
    ultimately show ?thesis using Nil by (auto simp: only_links_def)
  next
    case (Cons b as)
    let ?s' = "s\<lparr>next_of := (next_of s)(x := Some y, last pre := Some x),
      prev_of := (prev_of s)(x := Some (last pre), y := Some x)\<rparr>"
    have ne: "y \<noteq> hd pre" "x \<noteq> y" "pre \<noteq> []" "x \<noteq> last pre" using ch x Cons by (auto simp: children_def)
    have "cJSON_InsertItemInArray (Some a) (int (length pre)) (Some x) s = Some ?s'"
      using at f x ne by (simp add: cJSON_InsertItemInArray_def set_defs)
    moreover have "children ?s' a (pre @ x # y # post)"
    proof -
      obtain as e where pre: "pre = as @ [e]" using ne(3) by (cases pre rule: rev_cases) auto
      then show ?thesis using ch x by (auto simp: children_def linked_Cons hd_append split: if_splits)
    qed
    ultimately show ?thesis using ne by (auto simp: only_links_def)
  qed
qed

lemma insert_past_end:
  assumes "children s a xs" and "live_at s x" and "next_of s x = None" and "x \<notin> set xs" and "length xs \<le> i"
  shows "\<exists>s'. cJSON_InsertItemInArray (Some a) (int i) (Some x) s = Some s' \<and>
    children s' a (xs @ [x]) \<and> only_links s s' a (insert x (set xs))"
proof -
  have "array_item_at (Some a) i s = Some None" using array_item_at_children [OF assms(1)] assms(5) by simp
  then show ?thesis using add_item_appends [OF assms(1-4)] by (auto simp: cJSON_InsertItemInArray_def)
qed

subsection \<open>Detaching\<close>

text \<open>
  Detaching is right for a child in the middle, and for any child of a chain whose first child
  points back at nothing or which has no other child.
\<close>

lemma detach_result:
  assumes ch: "children s a (pre @ y # post)"
    and ok: "pre \<noteq> [] \<and> post \<noteq> [] \<or> prev_of s (hd (pre @ [y])) = None \<or> pre = [] \<and> post = []"
  shows "\<exists>s'. cJSON_DetachItemViaPointer (Some a) (Some y) s = Some (Some y, s') \<and>
    children s' a (pre @ post) \<and> next_of s' y = None \<and> prev_of s' y = None \<and>
    only_links s s' a (set (pre @ y # post))"
proof -
  note f = children_split [OF ch]
  show ?thesis
  proof (cases pre)
    case Nil
    show ?thesis
    proof (cases post)
      case post: Nil
      have "prev_of s y = None \<or> prev_of s y = Some y" using ch Nil post by (auto simp: children_def)
      then have "cJSON_DetachItemViaPointer (Some a) (Some y) s = Some (Some y,
          s\<lparr>next_of := (next_of s)(y := None), prev_of := (prev_of s)(y := None), child_of := (child_of s)(a := None)\<rparr>)"
        using f Nil post by (auto simp: cJSON_DetachItemViaPointer_def when_some_def set_defs fun_upd_idem)
      then show ?thesis using f Nil post by (auto simp: children_def only_links_def)
    next
      case post: (Cons z zs)
      then have "prev_of s y = None" using ok Nil by simp
      then have "cJSON_DetachItemViaPointer (Some a) (Some y) s = Some (Some y,
          s\<lparr>next_of := (next_of s)(y := None), prev_of := (prev_of s)(z := None, y := None),
            child_of := (child_of s)(a := Some z)\<rparr>)"
        using f Nil post by (auto simp: cJSON_DetachItemViaPointer_def when_some_def set_defs)
      then show ?thesis using ch Nil post last_in_set [of zs]
        by (auto simp: children_def only_links_def linked_Cons split: if_splits)
    qed
  next
    case (Cons b as)
    then have ne: "pre \<noteq> []" by simp
    have y: "y \<noteq> b" "y \<noteq> last pre" "child_of s a = Some b" using ch f Cons by (auto simp: children_def)
    obtain ps e where pre: "pre = ps @ [e]" using ne by (cases pre rule: rev_cases) auto
    have first: "hd (ps @ e # ws) = b" for ws using pre Cons by (cases ps) auto
    show ?thesis
    proof (cases post)
      case post: Nil
      then have "prev_of s b = None" using ok Cons by simp
      moreover have "cJSON_DetachItemViaPointer (Some a) (Some y) s = Some (Some y,
          s\<lparr>next_of := (next_of s)(e := None, y := None), prev_of := (prev_of s)(y := None)\<rparr>)"
        using f ne y post pre by (auto simp: cJSON_DetachItemViaPointer_def when_some_def set_defs)
      ultimately show ?thesis using ch pre post Cons
        by (auto simp: children_def only_links_def linked_Cons first)
    next
      case post: (Cons z zs)
      have d: "z \<noteq> y" "e \<noteq> y" "z \<noteq> e" using ch pre post by (auto simp: children_def)
      have "cJSON_DetachItemViaPointer (Some a) (Some y) s = Some (Some y,
          s\<lparr>next_of := (next_of s)(e := Some z, y := None), prev_of := (prev_of s)(z := Some e, y := None)\<rparr>)"
        using f ne y post pre d by (auto simp: cJSON_DetachItemViaPointer_def when_some_def set_defs)
      moreover have "children (s\<lparr>next_of := (next_of s)(e := Some z, y := None),
          prev_of := (prev_of s)(z := Some e, y := None)\<rparr>) a (pre @ post)"
        using ch pre post first d by (auto simp: children_def linked_Cons)
      ultimately show ?thesis using pre post by (auto simp: only_links_def)
    qed
  qed
qed

text \<open>
  Detaching the first child of a chain whose first child points back at the last one ties the
  last child to the second: the chain becomes a cycle.
\<close>

fun follow :: "node_store \<Rightarrow> nat \<Rightarrow> ptr \<Rightarrow> ptr" where
  "follow s 0 p = p"
| "follow s (Suc n) p = (case p of None \<Rightarrow> None | Some a \<Rightarrow> follow s n (next_of s a))"

lemma follow_cycle:
  assumes "chain (next_of s) l p xs p" and "xs \<noteq> []"
  shows "follow s n p \<noteq> None"
proof -
  have "\<exists>i < length xs. q = Some (xs ! i) \<Longrightarrow> follow s n q \<noteq> None" for q
  proof (induction n arbitrary: q)
    case (Suc n)
    then obtain i where i: "i < length xs" "q = Some (xs ! i)" by auto
    have "\<exists>j < length xs. next_of s (xs ! i) = Some (xs ! j)"
    proof (cases "Suc i < length xs")
      case True
      have "chain (next_of s) l p (take i xs @ xs ! i # xs ! Suc i # drop (Suc (Suc i)) xs) p"
        using assms(1) True by (simp add: Cons_nth_drop_Suc)
      then show ?thesis using True by auto
    next
      case False
      then have "i = length xs - 1" using i(1) by linarith
      then have "xs ! i = last xs" using assms(2) by (simp add: last_conv_nth)
      then have "next_of s (xs ! i) = p" using chain_last [OF assms] by simp
      then show ?thesis using chain_ne [OF assms] assms(2) by (intro exI [of _ 0]) (cases xs; simp)
    qed
    then show ?case using Suc.IH i(2) by simp
  qed auto
  moreover have "\<exists>i < length xs. p = Some (xs ! i)"
    using chain_ne [OF assms] assms(2) by (intro exI [of _ 0]) (cases xs; simp)
  ultimately show ?thesis by blast
qed

lemma detach_first_cycle:
  assumes ch: "children s a (y # z # zs)" and tail: "prev_of s y = Some (last (z # zs))"
  shows "\<exists>s'. cJSON_DetachItemViaPointer (Some a) (Some y) s = Some (Some y, s') \<and>
    chain (next_of s') (live_at s') (child_of s' a) (z # zs) (child_of s' a)"
proof -
  have "children s a ([] @ y # z # zs)" using ch by simp
  note f = children_split [OF this]
  let ?e = "last (z # zs)"
  have e: "live_at s ?e" "?e \<noteq> y" using ch chain_live [of "next_of s" "live_at s" "child_of s a" "y # z # zs" None ?e]
    by (auto simp: children_def split: if_splits)
  let ?s' = "s\<lparr>next_of := (next_of s)(?e := Some z, y := None), prev_of := (prev_of s)(z := Some ?e, y := None),
      child_of := (child_of s)(a := Some z)\<rparr>"
  have "cJSON_DetachItemViaPointer (Some a) (Some y) s = Some (Some y, ?s')"
    using f e tail by (auto simp: cJSON_DetachItemViaPointer_def when_some_def set_defs)
  moreover have "chain (next_of ?s') (live_at ?s') (Some z) (z # zs) (Some z)"
  proof -
    obtain ws w where zs: "z # zs = ws @ [w]" by (cases "z # zs" rule: rev_cases) auto
    have "chain (next_of s) (live_at s) (Some z) (ws @ [w]) None" "y \<notin> set (ws @ [w])" "distinct (ws @ [w])"
      unfolding zs [symmetric] using ch by (auto simp: children_def)
    then have "chain ((next_of s)(w := Some z, y := None)) (live_at s) (Some z) (ws @ [w]) (Some z)" by auto
    moreover have "last (z # zs) = w" using zs by simp
    ultimately show ?thesis using zs by simp
  qed
  ultimately show ?thesis by auto
qed

subsection \<open>Deleting\<close>

text \<open>
  \<open>owns s p xs\<close>: \<open>xs\<close> are the nodes of the chain at \<open>p\<close> and of the trees below it, without the
  trees that references only borrow; no node occurs twice.
\<close>

inductive owns :: "node_store \<Rightarrow> ptr \<Rightarrow> addr list \<Rightarrow> bool" for s where
  owns_NULL: "owns s None []"
| owns_node: "live_at s a \<Longrightarrow> owns s (if has_flag (type_of s a) cJSON_IsReference then None else child_of s a) cs
    \<Longrightarrow> owns s (next_of s a) xs \<Longrightarrow> distinct (a # cs @ xs) \<Longrightarrow> owns s (Some a) (a # cs @ xs)"

inductive_cases owns_SomeE: "owns s (Some a) xs"
inductive_simps owns_None [simp]: "owns s None xs"

definition cost :: "node_store \<Rightarrow> addr \<Rightarrow> int" where
  "cost s a = 1 + of_bool (\<not> has_flag (type_of s a) cJSON_IsReference \<and> text_of s a \<noteq> None)
     + of_bool (\<not> has_flag (type_of s a) cJSON_StringIsConst \<and> name_of s a \<noteq> None)"

definition without :: "addr set \<Rightarrow> heap \<Rightarrow> node_store \<Rightarrow> node_store" where
  "without A h s = s\<lparr>live_at := (\<lambda>x. live_at s x \<and> x \<notin> A), blocks_of := h\<rparr>"

lemma without_simps [simp]:
  "next_of (without A h s) = next_of s" "prev_of (without A h s) = prev_of s"
  "child_of (without A h s) = child_of s" "type_of (without A h s) = type_of s"
  "text_of (without A h s) = text_of s" "name_of (without A h s) = name_of s"
  "live_at (without A h s) x \<longleftrightarrow> live_at s x \<and> x \<notin> A" "blocks_of (without A h s) = h"
  "without A h (without B g s) = without (A \<union> B) h s" "cost (without A h s) = cost s"
  by (auto simp: without_def cost_def fun_eq_iff conj_ac)

lemma free_without [simp]:
  "free_text (without A h s) = without A (dealloc h) s"
  "live_at s a \<Longrightarrow> a \<notin> A \<Longrightarrow> free_node (Some a) (without A h s) = Some (without (insert a A) (dealloc h) s)"
  by (simp_all add: free_text_def free_node_def without_def fun_eq_iff conj_ac)

lemma delete_owned_gen:
  assumes "owns s p xs" and "set xs \<inter> A = {}"
  shows "\<exists>h'. delete_chain p (without A h s) = Some (without (A \<union> set xs) h' s) \<and>
    live h' = live h - sum_list (map (cost s) xs) \<and> oom h' = oom h"
  using assms
proof (induction arbitrary: A h rule: owns.induct)
  case owns_NULL
  then show ?case by (subst delete_chain.simps) (auto intro!: exI [of _ h])
next
  case (owns_node a cs xs)
  let ?r = "has_flag (type_of s a) cJSON_IsReference"
  have dis: "a \<notin> A" "a \<notin> set cs" "set cs \<inter> A = {}" "set xs \<inter> insert a (A \<union> set cs) = {}"
    using owns_node.prems owns_node.hyps by auto
  obtain h1 where h1: "(if \<not> ?r \<and> child_of s a \<noteq> None then delete_chain (child_of s a) (without A h s) else Some (without A h s))
      = Some (without (A \<union> set cs) h1 s)" "live h1 = live h - sum_list (map (cost s) cs)" "oom h1 = oom h"
  proof (cases "\<not> ?r \<and> child_of s a \<noteq> None")
    case True
    then show ?thesis using that owns_node.IH(1) [OF dis(3), of h] by auto
  next
    case False
    then have "cs = []" using owns_node.hyps(2) by (auto split: if_splits)
    then show ?thesis using that False by auto
  qed
  define h2 where "h2 = (if \<not> ?r \<and> text_of s a \<noteq> None then dealloc h1 else h1)"
  define h3 where "h3 = (if \<not> has_flag (type_of s a) cJSON_StringIsConst \<and> name_of s a \<noteq> None then dealloc h2 else h2)"
  have h3: "live (dealloc h3) = live h1 - cost s a" "oom (dealloc h3) = oom h1"
    by (auto simp: h2_def h3_def cost_def heap_simps)
  obtain h4 where h4: "delete_chain (next_of s a) (without (insert a (A \<union> set cs)) (dealloc h3) s)
      = Some (without (insert a (A \<union> set cs) \<union> set xs) h4 s)"
    "live h4 = live (dealloc h3) - sum_list (map (cost s) xs)" "oom h4 = oom (dealloc h3)"
    using owns_node.IH(2) [OF dis(4)] by blast
  have "delete_chain (Some a) (without A h s)
      = delete_chain (next_of s a) (without (insert a (A \<union> set cs)) (dealloc h3) s)"
    by (subst delete_chain.simps)
      (use owns_node.hyps(1) dis h1(1) in \<open>simp add: h2_def h3_def\<close>)
  also have "\<dots> = Some (without (A \<union> set (a # cs @ xs)) h4 s)"
    unfolding h4(1) by (simp add: Un_ac)
  finally show ?case using h1 h3 h4 by (intro exI [of _ h4]) simp
qed

lemma without_nothing: "without {} (blocks_of s) s = s"
  by (simp add: without_def)

lemma delete_owned:
  assumes "owns s p xs"
  shows "\<exists>h'. delete_chain p s = Some (without (set xs) h' s) \<and>
    live h' = live (blocks_of s) - sum_list (map (cost s) xs)"
  using delete_owned_gen [OF assms, of "{}" "blocks_of s"] by (auto simp: without_nothing)

subsection \<open>Replacing\<close>

lemma owns_cong:
  assumes "owns s p xs"
    and "\<forall>x \<in> set xs. next_of s' x = next_of s x \<and> child_of s' x = child_of s x \<and> type_of s' x = type_of s x \<and> live_at s' x"
  shows "owns s' p xs"
  using assms
proof (induction rule: owns.induct)
  case (owns_node a cs xs)
  have "owns s' (Some a) (a # cs @ xs)"
    by (rule owns.owns_node) (use owns_node in auto)
  then show ?case by simp
qed (rule owns.owns_NULL)

text \<open>The nodes of one item and of the trees below it.\<close>

definition item_nodes :: "node_store \<Rightarrow> addr \<Rightarrow> addr list \<Rightarrow> bool" where
  "item_nodes s y ys \<longleftrightarrow> (\<exists>cs. ys = y # cs \<and> live_at s y \<and> y \<notin> set cs \<and>
     owns s (if has_flag (type_of s y) cJSON_IsReference then None else child_of s y) cs \<and> distinct cs)"

lemma item_nodes_owns:
  assumes "item_nodes s y ys" and "next_of s' y = None"
    and "\<forall>x \<in> set ys - {y}. next_of s' x = next_of s x"
    and "\<forall>x \<in> set ys. child_of s' x = child_of s x \<and> type_of s' x = type_of s x \<and> live_at s' x = live_at s x"
  shows "owns s' (Some y) ys"
proof -
  obtain cs where cs: "ys = y # cs" "live_at s y" "y \<notin> set cs" "distinct cs"
    "owns s (if has_flag (type_of s y) cJSON_IsReference then None else child_of s y) cs"
    using assms(1) by (auto simp: item_nodes_def)
  have live: "\<forall>x \<in> set cs. live_at s x"
    using cs(5) by (induction rule: owns.induct) auto
  have "owns s' (if has_flag (type_of s y) cJSON_IsReference then None else child_of s y) cs"
    by (rule owns_cong [OF cs(5)]) (use assms cs(1,3) live in auto)
  then have "owns s' (Some y) (y # cs @ [])"
    using assms cs by (intro owns.owns_node) (auto simp: owns.owns_NULL)
  then show ?thesis using cs(1) by simp
qed

definition relinked :: "node_store \<Rightarrow> addr \<Rightarrow> addr list \<Rightarrow> addr \<Rightarrow> addr \<Rightarrow> addr list \<Rightarrow> node_store" where
  "relinked s a pre x y post =
     s\<lparr>child_of := (if pre = [] then (child_of s)(a := Some x) else child_of s),
       next_of := ((if pre = [] then id else (\<lambda>f. f(last pre := Some x))) ((next_of s)(x := next_of s y)))(y := None),
       prev_of := ((if post = [] then id else (\<lambda>f. f(hd post := Some x))) ((prev_of s)(x := prev_of s y)))(y := None)\<rparr>"

lemma replace_result:
  assumes ch: "children s a (pre @ y # post)" and x: "live_at s x" "x \<notin> set (pre @ y # post)"
    and own: "item_nodes s y ys" "set ys \<inter> set (a # x # pre @ post) = {}"
  shows "\<exists>h. cJSON_ReplaceItemViaPointer (Some a) (Some y) (Some x) s
    = Some (True, without (set ys) h (relinked s a pre x y post))"
proof -
  note f = children_split [OF ch]
  let ?s1 = "relinked s a pre x y post"
  have ys: "y \<in> set ys" using own(1) by (auto simp: item_nodes_def)
  have "owns ?s1 (Some y) ys"
  proof (rule item_nodes_owns [OF own(1)])
    show "next_of ?s1 y = None" by (simp add: relinked_def)
    show "\<forall>z \<in> set ys - {y}. next_of ?s1 z = next_of s z"
      using own(2) last_in_set [of pre] by (auto simp: relinked_def)
    show "\<forall>z \<in> set ys. child_of ?s1 z = child_of s z \<and> type_of ?s1 z = type_of s z \<and> live_at ?s1 z = live_at s z"
      using own(2) by (auto simp: relinked_def)
  qed
  from delete_owned [OF this] obtain h where h: "delete_chain (Some y) ?s1 = Some (without (set ys) h ?s1)" by blast
  have d: "x \<noteq> y" "pre \<noteq> [] \<Longrightarrow> last pre \<noteq> y \<and> last pre \<noteq> x \<and> hd pre \<noteq> y"
    "post \<noteq> [] \<Longrightarrow> hd post \<noteq> y \<and> hd post \<noteq> x"
    using ch x last_in_set [of pre] hd_in_set [of pre] hd_in_set [of post] by (auto simp: children_def)
  have "cJSON_ReplaceItemViaPointer (Some a) (Some y) (Some x) s
    = (do { s \<leftarrow> delete_chain (Some y) ?s1; Some (True, s) })"
    using f x d
    by (cases "pre = []"; cases "post = []")
      (auto simp: cJSON_ReplaceItemViaPointer_def when_some_def set_defs relinked_def hd_append)
  then show ?thesis using h by auto
qed

lemma live_without: "live_at (without A h s) = (\<lambda>x. live_at s x \<and> x \<notin> A)"
  by (simp add: without_def)

lemma chain_without: "set zs \<inter> A = {} \<Longrightarrow> chain n (\<lambda>x. l x \<and> x \<notin> A) p zs q = chain n l p zs q"
  by (induction zs arbitrary: p) auto

lemma relinked_simps:
  "live_at (relinked s a pre x y post) = live_at s"
  "child_of (relinked s a pre x y post) = (if pre = [] then (child_of s)(a := Some x) else child_of s)"
  "next_of (relinked s a pre x y post) = ((if pre = [] then id else (\<lambda>f. f(last pre := Some x))) ((next_of s)(x := next_of s y)))(y := None)"
  "prev_of (relinked s a pre x y post) = ((if post = [] then id else (\<lambda>f. f(hd post := Some x))) ((prev_of s)(x := prev_of s y)))(y := None)"
  by (simp_all add: relinked_def)

lemma replaced_children:
  assumes ch: "children s a (pre @ y # post)" and x: "live_at s x" "x \<notin> set (pre @ y # post)"
    and ys: "set ys \<inter> set (a # x # pre @ post) = {}"
    and ok: "post \<noteq> [] \<or> prev_of s (hd (pre @ [y])) = None"
  shows "children (without (set ys) h (relinked s a pre x y post)) a (pre @ x # post)"
proof -
  have "set (pre @ x # post) \<inter> set ys = {}" using ys by auto
  note l = chain_without [OF this]
  show ?thesis
  proof (cases pre rule: rev_cases)
    case Nil
    then show ?thesis unfolding children_def live_without without_simps relinked_simps l
      using ch x ys ok last_in_set [of "tl post"] by (cases post) (auto simp: children_def linked_Cons split: if_splits)
  next
    case (snoc ps e)
    define b where "b = hd (ps @ [e])"
    have hd: "hd (ps @ e # ws) = b" for ws by (cases ps) (simp_all add: b_def)
    from snoc have "b \<noteq> y" "b \<noteq> x" "b \<notin> set post"
      using ch x by (cases ps; auto simp: children_def b_def)+
    note first = this
    show ?thesis
    proof (cases post)
      case Nil
      have "x \<noteq> y" "x \<noteq> e" "e \<noteq> y" "x \<notin> set ps" "y \<notin> set ps" using ch x snoc by (auto simp: children_def)
      then show ?thesis unfolding children_def live_without without_simps relinked_simps l
        using ch x ys ok snoc Nil first by (simp add: children_def linked_Cons hd)
    next
      case (Cons z zs)
      have "x \<noteq> y" "x \<noteq> e" "e \<noteq> y" "x \<notin> set ps" "y \<notin> set ps" "z \<noteq> x" "z \<noteq> y" "z \<noteq> e" "z \<notin> set ps" "z \<notin> set zs"
        "x \<notin> set zs" "y \<notin> set zs" "last (z # zs) \<noteq> y"
        using ch x snoc Cons by (auto simp: children_def)
      then show ?thesis unfolding children_def live_without without_simps relinked_simps l
        using ch x ys ok snoc Cons first hd_in_set [of zs] by (auto simp: children_def linked_Cons hd)
    qed
  qed
qed

subsection \<open>A stale pointer to the last child\<close>

lemma stale_last_undefined:
  assumes "live_at s a" and "child_of s a = Some b" and "live_at s b" and "prev_of s b = Some y" and "\<not> live_at s y"
  shows "add_item_to_array (Some a) (Some x) s = None"
  using assms by (simp add: add_item_to_array_def suffix_object_def set_defs)

lemma detach_last_stale:
  assumes ch: "children s a (pre @ [y])" and pre: "pre \<noteq> []" and tail: "prev_of s (hd pre) = Some y"
  shows "\<exists>s'. cJSON_DetachItemViaPointer (Some a) (Some y) s = Some (Some y, s') \<and>
    chain (next_of s') (live_at s') (child_of s' a) pre None \<and> prev_of s' (hd pre) = Some y \<and>
    next_of s' y = None \<and> only_links s s' a (set (pre @ [y])) \<and> live_at s' = live_at s \<and> child_of s' = child_of s"
proof -
  note f = children_split [OF ch]
  obtain ps e where ps: "pre = ps @ [e]" using pre by (cases pre rule: rev_cases) auto
  have d: "hd pre \<noteq> y" "e \<noteq> y" using ch pre hd_in_set [of pre] ps by (auto simp: children_def)
  have "cJSON_DetachItemViaPointer (Some a) (Some y) s = Some (Some y,
      s\<lparr>next_of := (next_of s)(e := None, y := None), prev_of := (prev_of s)(y := None)\<rparr>)"
    using f ps d by (auto simp: cJSON_DetachItemViaPointer_def when_some_def set_defs hd_append split: if_splits)
  then show ?thesis using ch ps d tail by (auto simp: children_def only_links_def)
qed

lemma append_to_stale:
  assumes ch: "chain (next_of s) (live_at s) (child_of s a) pre None" "live_at s a" "pre \<noteq> []" "distinct pre"
    and y: "prev_of s (hd pre) = Some y" "live_at s y" "y \<notin> set pre"
    and x: "live_at s x" "x \<notin> set pre" "x \<noteq> y"
  shows "\<exists>s'. add_item_to_array (Some a) (Some x) s = Some (True, s') \<and>
    chain (next_of s') (live_at s') (child_of s' a) pre None \<and> next_of s' y = Some x"
proof -
  have h: "child_of s a = Some (hd pre)" "live_at s (hd pre)"
    using chain_ne [OF ch(1,3)] chain_live [OF ch(1)] ch(3) by auto
  have "hd pre \<noteq> y" using y(3) ch(3) by (cases pre) auto
  then have "add_item_to_array (Some a) (Some x) s = Some (True,
      s\<lparr>next_of := (next_of s)(y := Some x), prev_of := (prev_of s)(x := Some y, hd pre := Some x)\<rparr>)"
    using h ch y x by (simp add: add_item_to_array_def suffix_object_def set_defs)
  then show ?thesis using ch y by simp
qed

subsection \<open>A container that grows at its end\<close>

primrec add_all :: "('a \<Rightarrow> 's \<Rightarrow> 's option) \<Rightarrow> 'a list \<Rightarrow> 's \<Rightarrow> 's option" where
  "add_all add [] s = Some s"
| "add_all add (x # xs) s = do { s \<leftarrow> add x s; add_all add xs s }"

locale growing =
  fixes holds :: "'s \<Rightarrow> 'a list \<Rightarrow> bool"
    and ready :: "'s \<Rightarrow> 'a \<Rightarrow> bool"
    and add :: "'a \<Rightarrow> 's \<Rightarrow> 's option"
  assumes add_appends: "holds s xs \<Longrightarrow> ready s x \<Longrightarrow> x \<notin> set xs \<Longrightarrow>
    \<exists>s'. add x s = Some s' \<and> holds s' (xs @ [x]) \<and> (\<forall>y. y \<noteq> x \<longrightarrow> y \<notin> set xs \<longrightarrow> ready s y \<longrightarrow> ready s' y)"
begin

lemma add_all_appends:
  assumes "holds s xs" and "\<forall>y \<in> set ys. ready s y" and "distinct ys" and "set xs \<inter> set ys = {}"
  shows "\<exists>s'. add_all add ys s = Some s' \<and> holds s' (xs @ ys)"
  using assms
proof (induction ys arbitrary: s xs)
  case (Cons y ys)
  obtain s1 where s1: "add y s = Some s1" "holds s1 (xs @ [y])"
    "\<forall>z. z \<noteq> y \<longrightarrow> z \<notin> set xs \<longrightarrow> ready s z \<longrightarrow> ready s1 z"
    using add_appends [of s xs y] Cons.prems by auto
  have "\<forall>z \<in> set ys. ready s1 z" using s1(3) Cons.prems by (auto simp: disjoint_iff)
  with Cons.IH [OF s1(2)] s1(1) Cons.prems show ?case by auto
qed simp

end

interpretation array_items: growing "\<lambda>s. children s a" "\<lambda>s x. live_at s x \<and> next_of s x = None"
  "\<lambda>x. cJSON_AddItemToArray (Some a) (Some x)" for a
proof (unfold_locales, goal_cases)
  case (1 s xs x)
  then obtain s' where s': "add_item_to_array (Some a) (Some x) s = Some (True, s')" "children s' a (xs @ [x])"
    "only_links s s' a (insert x (set xs))" using add_item_appends by blast
  moreover have "live_at s' = live_at s" by (rule only_links_live [OF s'(3)])
  ultimately show ?case by (auto simp: cJSON_AddItemToArray_def only_links_def)
qed

text \<open>The store of the examples: an array at 0 with the children 1, 2 and 3, and two free items.\<close>

definition sample_store :: node_store where
  "sample_store = \<lparr>next_of = (\<lambda>x. if x = 1 then Some 2 else if x = 2 then Some 3 else None),
     prev_of = (\<lambda>x. if x = 1 then Some 3 else if x = 2 then Some 1 else if x = 3 then Some 2 else None),
     child_of = (\<lambda>x. if x = 0 then Some 1 else None),
     type_of = (\<lambda>x. if x = 0 then cJSON_Array else cJSON_NULL), text_of = (\<lambda>_. None),
     int_of = (\<lambda>_. 0), double_of = (\<lambda>_. DFin False 0), name_of = (\<lambda>_. None),
     live_at = (\<lambda>x. x < 6), limit = 6, blocks_of = fresh_heap\<rparr>"

lemma sample_children: "children sample_store 0 [1, 2, 3]"
  by (simp add: children_def sample_store_def)

lemma sample_fields [simp]:
  "live_at sample_store x \<longleftrightarrow> x < 6" "next_of sample_store 4 = None" "next_of sample_store 5 = None"
  "prev_of sample_store (Suc 0) = Some 3"
  by (simp_all add: sample_store_def)

lemma sample_item: "1 \<le> y \<Longrightarrow> y < 6 \<Longrightarrow> item_nodes sample_store y [y]"
  by (simp add: item_nodes_def sample_store_def owns.owns_NULL has_flag_def ctype_defs)

subsection \<open>The properties\<close>

text \<open>
  C11. Adding items one after the other appends them in order: for any list of distinct, unlinked
  items, \<open>cJSON_AddItemToArray\<close> leaves the array with its old children followed by these, whichever
  of the two ways the chain keeps its first \<open>prev\<close>.
\<close>

theorem added_items_in_order:
  assumes "children s a xs" and "\<forall>y \<in> set ys. live_at s y \<and> next_of s y = None"
    and "distinct ys" and "set xs \<inter> set ys = {}"
  shows "\<exists>s'. add_all (\<lambda>x. cJSON_AddItemToArray (Some a) (Some x)) ys s = Some s' \<and> children s' a (xs @ ys)"
  using assms by (rule array_items.add_all_appends)

lemma added_items_in_order_witness:
  "\<exists>s'. add_all (\<lambda>x. cJSON_AddItemToArray (Some 0) (Some x)) [4, 5] sample_store = Some s' \<and> children s' 0 ([1, 2, 3] @ [4, 5])"
  by (rule added_items_in_order) (simp_all add: sample_children [simplified])

text \<open>
  C25. Inserting is inserting: \<open>cJSON_InsertItemInArray\<close> with a position of zero or more puts the
  item before the child at that position, or at the end when there is no such child, and changes
  no other link of the store.
\<close>

theorem inserted_at_position:
  assumes "children s a xs" and "live_at s x" and "next_of s x = None" and "x \<notin> set xs" and "0 \<le> i"
  shows "\<exists>s'. cJSON_InsertItemInArray (Some a) i (Some x) s = Some s' \<and>
    children s' a (take (nat i) xs @ x # drop (nat i) xs) \<and> only_links s s' a (insert x (set xs))"
proof (cases "nat i < length xs")
  case True
  then have xs: "xs = take (nat i) xs @ xs ! nat i # drop (Suc (nat i)) xs" by (simp add: id_take_nth_drop)
  have "int (length (take (nat i) xs)) = i" using True assms(5) by simp
  moreover have "drop (nat i) xs = xs ! nat i # drop (Suc (nat i)) xs" using True by (simp add: Cons_nth_drop_Suc)
  ultimately show ?thesis
    using insert_before [of s a "take (nat i) xs" "xs ! nat i" "drop (Suc (nat i)) xs" x] assms xs by metis
next
  case False
  then show ?thesis using insert_past_end [OF assms(1-4), of "nat i"] assms(5) by simp
qed

lemma inserted_at_position_witness:
  "\<exists>s'. cJSON_InsertItemInArray (Some 0) 1 (Some 4) sample_store = Some s' \<and>
    children s' 0 (take (nat 1) [1, 2, 3] @ 4 # drop (nat 1) [1, 2, 3]) \<and> only_links sample_store s' 0 (insert 4 (set [1, 2, 3]))"
  by (rule inserted_at_position) (simp_all add: sample_children [simplified])

text \<open>
  C26. Detaching is removing, except at the ends of a chain that \<open>add_item_to_array\<close> built: for a
  child between two others, for an only child, and for every child of a chain whose first \<open>prev\<close>
  is NULL (the parser's), the array keeps the other children in order, and the item is unlinked.
\<close>

theorem detached_is_removed:
  assumes "children s a xs" and "i < length xs"
    and "0 < i \<and> i < length xs - 1 \<or> length xs = 1 \<or> prev_of s (hd xs) = None"
  shows "\<exists>s'. cJSON_DetachItemFromArray (Some a) (int i) s = Some (Some (xs ! i), s') \<and>
    children s' a (take i xs @ drop (Suc i) xs) \<and> next_of s' (xs ! i) = None \<and> prev_of s' (xs ! i) = None \<and>
    only_links s s' a (set xs)"
proof -
  have xs: "take i xs @ xs ! i # drop (Suc i) xs = xs" using assms(2) by (simp add: id_take_nth_drop [symmetric])
  have "hd xs = hd (take i xs @ [xs ! i])" using assms(2) by (cases xs; cases i) auto
  then have "take i xs \<noteq> [] \<and> drop (Suc i) xs \<noteq> [] \<or> prev_of s (hd (take i xs @ [xs ! i])) = None
      \<or> take i xs = [] \<and> drop (Suc i) xs = []" using assms(2,3) by auto
  from detach_result [of s a "take i xs" "xs ! i" "drop (Suc i) xs", unfolded xs, OF assms(1) this]
  show ?thesis using array_item_at_children [OF assms(1), of i] assms(2)
    by (simp add: cJSON_DetachItemFromArray_def)
qed

lemma detached_is_removed_witness:
  "\<exists>s'. cJSON_DetachItemFromArray (Some 0) (int 1) sample_store = Some (Some ([1, 2, 3] ! 1), s') \<and>
    children s' 0 (take 1 [1, 2, 3] @ drop (Suc 1) [1, 2, 3]) \<and> next_of s' ([1, 2, 3] ! 1) = None \<and>
    prev_of s' ([1, 2, 3] ! 1) = None \<and> only_links sample_store s' 0 (set [1, 2, 3])"
  by (rule detached_is_removed) (simp_all add: sample_children [simplified])

text \<open>
  C28. Detaching the first child of an array that was built by adding makes the chain a cycle:
  \<open>DetachItemViaPointer\<close> follows the first child's \<open>prev\<close> to the last child and sets its \<open>next\<close>.
  Whoever walks the children of the array afterwards never meets NULL.
\<close>

theorem detached_first_never_ends:
  assumes "children s a xs" and "2 \<le> length xs" and "prev_of s (hd xs) = Some (last xs)"
  shows "\<exists>s'. cJSON_DetachItemFromArray (Some a) 0 s = Some (Some (hd xs), s') \<and>
    (\<forall>n. follow s' n (child_of s' a) \<noteq> None)"
proof -
  obtain y z zs where xs: "xs = y # z # zs" using assms(2) by (cases xs; cases "tl xs") auto
  then obtain s' where "cJSON_DetachItemViaPointer (Some a) (Some y) s = Some (Some y, s')"
    "chain (next_of s') (live_at s') (child_of s' a) (z # zs) (child_of s' a)"
    using detach_first_cycle [of s a y z zs] assms by auto
  moreover from this have "follow s' n (child_of s' a) \<noteq> None" for n by (intro follow_cycle) auto
  ultimately show ?thesis using array_item_at_children [OF assms(1), of 0] xs
    by (auto simp: cJSON_DetachItemFromArray_def)
qed

lemma detached_first_never_ends_witness:
  "\<exists>s'. cJSON_DetachItemFromArray (Some 0) 0 sample_store = Some (Some (hd [1, 2, 3]), s') \<and>
    (\<forall>n. follow s' n (child_of s' 0) \<noteq> None)"
  by (rule detached_first_never_ends) (simp_all add: sample_children [simplified])

text \<open>
  C27. Replacing is replacing, except at the end of a chain that \<open>add_item_to_array\<close> built: the new
  item takes the place of the old one, and exactly the nodes the old item owned are freed.
\<close>

theorem replaced_in_place:
  assumes "children s a xs" and "i < length xs" and "live_at s x" and "x \<notin> set xs"
    and "item_nodes s (xs ! i) ys" and "set ys \<inter> (insert a (insert x (set xs - {xs ! i}))) = {}"
    and "i < length xs - 1 \<or> prev_of s (hd xs) = None"
  shows "\<exists>s'. cJSON_ReplaceItemInArray (Some a) (int i) (Some x) s = Some s' \<and> children s' a (xs[i := x]) \<and>
    (\<forall>y. live_at s' y \<longleftrightarrow> live_at s y \<and> y \<notin> set ys)"
proof -
  let ?pre = "take i xs" and ?y = "xs ! i" and ?post = "drop (Suc i) xs"
  have xs: "?pre @ ?y # ?post = xs" using assms(2) by (simp add: id_take_nth_drop [symmetric])
  have "distinct xs" using assms(1) by (simp add: children_def)
  then have "distinct (?pre @ ?y # ?post)" by (simp only: xs)
  then have "set (?pre @ ?post) = set xs - {?y}" by (subst (3) xs [symmetric]) auto
  then have ys: "set ys \<inter> set (a # x # ?pre @ ?post) = {}" using assms(6) by auto
  have ch: "children s a (?pre @ ?y # ?post)" "x \<notin> set (?pre @ ?y # ?post)" unfolding xs by (rule assms(1), rule assms(4))
  have "hd xs = hd (?pre @ [?y])" using assms(2) by (cases xs; cases i) auto
  then have ok: "?post \<noteq> [] \<or> prev_of s (hd (?pre @ [?y])) = None" using assms(2,7) by auto
  obtain h where "cJSON_ReplaceItemViaPointer (Some a) (Some ?y) (Some x) s
      = Some (True, without (set ys) h (relinked s a ?pre x ?y ?post))"
    using replace_result [OF ch(1) assms(3) ch(2) assms(5) ys] by blast
  moreover have "children (without (set ys) h (relinked s a ?pre x ?y ?post)) a (xs[i := x])"
    using replaced_children [OF ch(1) assms(3) ch(2) ys ok] assms(2) by (simp add: upd_conv_take_nth_drop)
  ultimately show ?thesis using array_item_at_children [OF assms(1), of i] assms(2)
    by (simp add: cJSON_ReplaceItemInArray_def relinked_simps)
qed

lemma replaced_in_place_witness:
  "\<exists>s'. cJSON_ReplaceItemInArray (Some 0) (int 1) (Some 4) sample_store = Some s' \<and> children s' 0 ([1, 2, 3][1 := 4]) \<and>
    (\<forall>y. live_at s' y \<longleftrightarrow> live_at sample_store y \<and> y \<notin> set [2])"
  by (rule replaced_in_place)
    (simp_all add: sample_children [simplified] sample_item)

text \<open>
  C29. Removing the last child of an array that was built by adding leaves a pointer to it in the
  first child.  If it was deleted or replaced, the next item that is added is written through a
  pointer to freed memory.
\<close>

theorem last_removed_then_append_undefined:
  assumes "children s a (pre @ [y])" and "pre \<noteq> []" and "prev_of s (hd pre) = Some y"
    and "item_nodes s y ys" and "set ys \<inter> set (a # x # pre) = {}" and "live_at s x" and "x \<notin> set (pre @ [y])"
  shows "(\<exists>s'. cJSON_DeleteItemFromArray (Some a) (int (length pre)) s = Some s' \<and>
      (\<forall>z. add_item_to_array (Some a) (Some z) s' = None)) \<and>
    (\<exists>s'. cJSON_ReplaceItemInArray (Some a) (int (length pre)) (Some x) s = Some s' \<and>
      (\<forall>z. add_item_to_array (Some a) (Some z) s' = None))"
proof
  have at: "array_item_at (Some a) (length pre) s = Some (Some y)" using array_item_at_children [OF assms(1)] by simp
  have y: "y \<in> set ys" using assms(4) by (auto simp: item_nodes_def)
  have h: "hd pre \<in> set pre" "hd pre \<noteq> y" "child_of s a = Some (hd pre)" "live_at s a" "live_at s (hd pre)"
    using assms(1,2) hd_in_set [OF assms(2)] children_split [OF assms(1)[unfolded append_Cons]]
      chain_live [of "next_of s" "live_at s" "child_of s a" "pre @ [y]" None "hd pre"]
    by (auto simp: children_def hd_append)
  then have free: "hd pre \<notin> set ys" "a \<notin> set ys" using assms(5) by auto
  obtain s1 where s1: "cJSON_DetachItemViaPointer (Some a) (Some y) s = Some (Some y, s1)"
    "prev_of s1 (hd pre) = Some y" "next_of s1 y = None" "only_links s s1 a (set (pre @ [y]))"
    "live_at s1 = live_at s" "child_of s1 = child_of s"
    using detach_last_stale [OF assms(1-3)] by blast
  have "owns s1 (Some y) ys"
  proof (rule item_nodes_owns [OF assms(4) s1(3)])
    have "next_of s1 z = next_of s z" if "z \<notin> set (pre @ [y])" for z using s1(4) that by (simp add: only_links_def)
    then show "\<forall>z \<in> set ys - {y}. next_of s1 z = next_of s z" using assms(5) by auto
    have "type_of s1 = type_of s" using s1(4) unfolding only_links_def
      by (elim conjE) (metis node_store.select_convs(4) node_store.update_convs(1-3) node_store.surjective)
    then show "\<forall>z \<in> set ys. child_of s1 z = child_of s z \<and> type_of s1 z = type_of s z \<and> live_at s1 z = live_at s z"
      using s1(5,6) by simp
  qed
  from delete_owned [OF this] obtain g where g: "delete_chain (Some y) s1 = Some (without (set ys) g s1)" by blast
  have "add_item_to_array (Some a) (Some z) (without (set ys) g s1) = None" for z
    by (rule stale_last_undefined [where b = "hd pre" and y = y]) (use s1 h free y in auto)
  then show "\<exists>s'. cJSON_DeleteItemFromArray (Some a) (int (length pre)) s = Some s' \<and>
      (\<forall>z. add_item_to_array (Some a) (Some z) s' = None)"
    using at s1(1) g by (simp add: cJSON_DeleteItemFromArray_def cJSON_DetachItemFromArray_def)
  obtain k where k: "cJSON_ReplaceItemViaPointer (Some a) (Some y) (Some x) s
      = Some (True, without (set ys) k (relinked s a pre x y []))"
    using replace_result [of s a pre y "[]" x ys] assms by auto
  have "hd pre \<noteq> x" using h(1) assms(7) by auto
  then have "add_item_to_array (Some a) (Some z) (without (set ys) k (relinked s a pre x y [])) = None" for z
    by (intro stale_last_undefined [where b = "hd pre" and y = y]) (use assms(2,3) h free y in \<open>auto simp: relinked_simps\<close>)
  then show "\<exists>s'. cJSON_ReplaceItemInArray (Some a) (int (length pre)) (Some x) s = Some s' \<and>
      (\<forall>z. add_item_to_array (Some a) (Some z) s' = None)"
    using at k by (simp add: cJSON_ReplaceItemInArray_def)
qed

lemma last_removed_then_append_undefined_witness:
  "(\<exists>s'. cJSON_DeleteItemFromArray (Some 0) (int (length [1, 2 :: addr])) sample_store = Some s' \<and>
      (\<forall>z. add_item_to_array (Some 0) (Some z) s' = None)) \<and>
    (\<exists>s'. cJSON_ReplaceItemInArray (Some 0) (int (length [1, 2 :: addr])) (Some 4) sample_store = Some s' \<and>
      (\<forall>z. add_item_to_array (Some 0) (Some z) s' = None))"
  by (rule last_removed_then_append_undefined [of _ _ "[1, 2]" 3 "[3]"])
    (simp_all add: sample_children [simplified] sample_item)

text \<open>
  C12. Deleting is safe on what an item owns: if no node occurs twice among the nodes reached from
  an item through \<open>next\<close> and, except below references, through \<open>child\<close>, then \<open>cJSON_Delete\<close>
  ends, reads no freed node, frees each of these nodes once and no other, and returns the
  blocks of the nodes, of their values and of their names that are not constant.
\<close>

theorem delete_frees_what_is_owned:
  assumes "owns s p xs"
  shows "\<exists>s'. delete_chain p s = Some s' \<and> (\<forall>y. live_at s' y \<longleftrightarrow> live_at s y \<and> y \<notin> set xs) \<and>
    live (blocks_of s') = live (blocks_of s) - sum_list (map (cost s) xs) \<and>
    next_of s' = next_of s \<and> prev_of s' = prev_of s \<and> child_of s' = child_of s"
  using delete_owned [OF assms] by auto

lemma delete_frees_what_is_owned_witness:
  "\<exists>s'. delete_chain (Some 2) sample_store = Some s' \<and> (\<forall>y. live_at s' y \<longleftrightarrow> live_at sample_store y \<and> y \<notin> set [2, 3]) \<and>
    live (blocks_of s') = live (blocks_of sample_store) - sum_list (map (cost sample_store) [2, 3]) \<and>
    next_of s' = next_of sample_store \<and> prev_of s' = prev_of sample_store \<and> child_of s' = child_of sample_store"
proof (rule delete_frees_what_is_owned)
  have "owns sample_store (next_of sample_store 3) []" by (simp add: sample_store_def)
  then have "owns sample_store (Some 3) (3 # [] @ [])"
    by (intro owns.owns_node) (simp_all add: sample_store_def has_flag_def ctype_defs)
  then have "owns sample_store (Some 2) (2 # [] @ [3])"
    by (intro owns.owns_node) (simp_all add: sample_store_def has_flag_def ctype_defs)
  then show "owns sample_store (Some 2) [2, 3]" by simp
qed

end
