(* ===== verification/CJsonMinify.thy ===== *)
theory CJsonMinify
  imports CJsonParse
begin

section \<open>cJSON: minifying a text in place\<close>

text \<open>
  \<open>cJSON_Minify\<close> of \<open>cJSON.c\<close> with its helpers.  Input and output pointers run over the same
  block, which is a list of characters with the two positions \<open>i\<close> and \<open>k\<close>; a read or a write
  outside the block is \<open>None\<close>.  The pure function \<open>minified\<close> says what the text becomes.
\<close>

definition wr :: "bytes \<Rightarrow> nat \<Rightarrow> char \<Rightarrow> bytes option" where
  "wr b i c = (if i < length b then Some (b[i := c]) else None)"

lemma wr_length: "wr b i c = Some b' \<Longrightarrow> length b' = length b"
  by (auto simp: wr_def split: if_splits)

subsection \<open>Comments\<close>

function skip_oneline_loop :: "bytes \<Rightarrow> nat \<Rightarrow> nat option" where
  "skip_oneline_loop b i =
     (case rd b i of None \<Rightarrow> None
      | Some c \<Rightarrow> if c = NUL then Some i else if c = CHR 0x0A then Some (i + 1) else skip_oneline_loop b (i + 1))"
  by pat_completeness auto
termination by (relation "measure (\<lambda>(b, i). length b - i)") (auto simp: rd_Some_iff)

definition skip_oneline_comment :: "bytes \<Rightarrow> nat \<Rightarrow> nat option" where
  "skip_oneline_comment b i = skip_oneline_loop b (i + 2)"

function skip_multiline_loop :: "bytes \<Rightarrow> nat \<Rightarrow> nat option" where
  "skip_multiline_loop b i =
     (case rd b i of None \<Rightarrow> None
      | Some c \<Rightarrow>
          if c = NUL then Some i
          else if c = CHR ''*''
          then (case rd b (i + 1) of None \<Rightarrow> None
                | Some d \<Rightarrow> if d = CHR ''/'' then Some (i + 2) else skip_multiline_loop b (i + 1))
          else skip_multiline_loop b (i + 1))"
  by pat_completeness auto
termination by (relation "measure (\<lambda>(b, i). length b - i)") (auto simp: rd_Some_iff)

definition skip_multiline_comment :: "bytes \<Rightarrow> nat \<Rightarrow> nat option" where
  "skip_multiline_comment b i = skip_multiline_loop b (i + 2)"

declare skip_oneline_loop.simps [simp del] skip_multiline_loop.simps [simp del]

subsection \<open>Strings\<close>

function minify_string_loop :: "bytes \<Rightarrow> nat \<Rightarrow> nat \<Rightarrow> (bytes \<times> nat \<times> nat) option" where
  "minify_string_loop b i k =
     (case rd b i of None \<Rightarrow> None
      | Some c \<Rightarrow>
          if c = NUL then Some (b, i, k)
          else case wr b k c of None \<Rightarrow> None
          | Some b1 \<Rightarrow>
              (case rd b1 i of None \<Rightarrow> None
               | Some e \<Rightarrow>
                   if e = DQUOTE
                   then (case wr b1 k DQUOTE of None \<Rightarrow> None | Some b2 \<Rightarrow> Some (b2, i + 1, k + 1))
                   else if e = BACKSLASH
                   then (case rd b1 (i + 1) of None \<Rightarrow> None
                         | Some d \<Rightarrow>
                             if d = DQUOTE
                             then (case wr b1 (k + 1) d of None \<Rightarrow> None
                                   | Some b2 \<Rightarrow> minify_string_loop b2 (i + 2) (k + 2))
                             else minify_string_loop b1 (i + 1) (k + 1))
                   else minify_string_loop b1 (i + 1) (k + 1)))"
  by pat_completeness auto
termination
  by (relation "measure (\<lambda>(b, i, k). length b - i)") (auto simp: rd_Some_iff dest!: wr_length)

declare minify_string_loop.simps [simp del]

definition minify_string :: "bytes \<Rightarrow> nat \<Rightarrow> nat \<Rightarrow> (bytes \<times> nat \<times> nat) option" where
  "minify_string b i k = do { c \<leftarrow> rd b i; b \<leftarrow> wr b k c; minify_string_loop b (i + 1) (k + 1) }"

subsection \<open>The loop\<close>

definition blank_char :: "char \<Rightarrow> bool" where
  "blank_char c \<longleftrightarrow> c = CHR '' '' \<or> c = CHR 0x09 \<or> c = CHR 0x0D \<or> c = CHR 0x0A"

partial_function (option) minify_loop :: "bytes \<Rightarrow> nat \<Rightarrow> nat \<Rightarrow> (bytes \<times> nat) option" where
  "minify_loop b i k = do {
     c \<leftarrow> rd b i;
     if c = NUL then Some (b, k)
     else if blank_char c then minify_loop b (i + 1) k
     else if c = CHR ''/''
     then do {
       d \<leftarrow> rd b (i + 1);
       if d = CHR ''/'' then do { i \<leftarrow> skip_oneline_comment b i; minify_loop b i k }
       else if d = CHR ''*'' then do { i \<leftarrow> skip_multiline_comment b i; minify_loop b i k }
       else minify_loop b (i + 1) k }
     else if c = DQUOTE then do { (b, i, k) \<leftarrow> minify_string b i k; minify_loop b i k }
     else do { b \<leftarrow> wr b k c; minify_loop b (i + 1) (k + 1) } }"

declare minify_loop.simps [code]

definition cJSON_Minify :: "bytes option \<Rightarrow> bytes option option" where
  "cJSON_Minify json =
     (case json of
        None \<Rightarrow> Some None
      | Some b \<Rightarrow> do { (b, k) \<leftarrow> minify_loop b 0 0; b \<leftarrow> wr b k NUL; Some (Some b) })"

subsection \<open>What the text becomes\<close>

fun after_line :: "bytes \<Rightarrow> bytes" where
  "after_line [] = []"
| "after_line (c # s) = (if c = CHR 0x0A then s else after_line s)"

fun after_comment :: "bytes \<Rightarrow> bytes" where
  "after_comment [] = []"
| "after_comment (c # s) =
     (if c = CHR ''*'' \<and> s \<noteq> [] \<and> hd s = CHR ''/'' then tl s else after_comment s)"

text \<open>The rest of a string literal with its closing quote, and the text behind it.\<close>

function literal :: "bytes \<Rightarrow> bytes \<times> bytes" where
  "literal [] = ([], [])"
| "literal (c # s) =
     (if c = DQUOTE then ([c], s)
      else if c = BACKSLASH \<and> s \<noteq> [] \<and> hd s = DQUOTE
      then (c # DQUOTE # fst (literal (tl s)), snd (literal (tl s)))
      else (c # fst (literal s), snd (literal s)))"
  by pat_completeness auto
termination by (relation "measure length") (auto simp: less_Suc_eq_le)

lemma literal_parts:
  "length (snd (literal s)) \<le> length s \<and> set (fst (literal s)) \<subseteq> set s \<and> set (snd (literal s)) \<subseteq> set s"
proof (induction s rule: literal.induct)
  case (2 c s)
  show ?case
  proof (cases "c = BACKSLASH \<and> s \<noteq> [] \<and> hd s = DQUOTE")
    case True
    then obtain t where "s = DQUOTE # t" by (cases s) auto
    then show ?thesis using 2(1) True by auto
  next
    case False
    show ?thesis
    proof (cases "c = DQUOTE")
      case other: False
      from 2(3) [OF other False] other False show ?thesis by auto
    qed auto
  qed
qed simp

lemma after_parts:
  "length (after_line s) \<le> length s" "set (after_line s) \<subseteq> set s"
  "length (after_comment s) \<le> length s" "set (after_comment s) \<subseteq> set s"
proof -
  show "length (after_line s) \<le> length s" "set (after_line s) \<subseteq> set s" by (induction s) auto
  show "length (after_comment s) \<le> length s" by (induction s) auto
  show "set (after_comment s) \<subseteq> set s" by (induction s) (auto dest: list.set_sel(2))
qed

lemma after_shorter:
  "length (after_line (tl s)) < Suc (length s)" "length (after_comment (tl s)) < Suc (length s)"
  "length (snd (literal s)) < Suc (length s)"
  using after_parts(1,3) [of "tl s"] literal_parts [of s] by auto

function minified :: "bytes \<Rightarrow> bytes" where
  "minified [] = []"
| "minified (c # s) =
     (if blank_char c then minified s
      else if c = CHR ''/''
      then (if s \<noteq> [] \<and> hd s = CHR ''/'' then minified (after_line (tl s))
            else if s \<noteq> [] \<and> hd s = CHR ''*'' then minified (after_comment (tl s))
            else minified s)
      else if c = DQUOTE then c # fst (literal s) @ minified (snd (literal s))
      else c # minified s)"
  by pat_completeness auto
termination by (relation "measure length") (simp_all add: after_shorter)

lemma minified_parts: "NUL \<notin> set s \<Longrightarrow> NUL \<notin> set (minified s)"
proof (induction s rule: minified.induct)
  case (2 c s)
  have "NUL \<notin> set (after_line (tl s))" "NUL \<notin> set (after_comment (tl s))" "NUL \<notin> set (fst (literal s))"
    "NUL \<notin> set (snd (literal s))" "NUL \<notin> set s" "c \<noteq> NUL"
    using 2(7) after_parts(2,4) [of "tl s"] literal_parts [of s] by (cases s; auto)+
  then show ?case using 2(1-6) by simp
qed simp

subsection \<open>The block during the loop\<close>

text \<open>
  \<open>d\<close> is the output so far and \<open>r\<close> the input that is left: the output never reaches the input.
\<close>

definition at_text :: "bytes \<Rightarrow> nat \<Rightarrow> nat \<Rightarrow> bytes \<Rightarrow> bytes \<Rightarrow> bool" where
  "at_text b i k d r \<longleftrightarrow> (\<exists>gap rest. b = d @ gap @ r @ NUL # rest \<and> k = length d \<and> i = k + length gap)"

lemma at_text_read:
  "at_text b i k d (c # r) \<Longrightarrow> rd b i = Some c" "at_text b i k d [] \<Longrightarrow> rd b i = Some NUL"
  by (auto simp: at_text_def rd_def nth_append)

lemma at_text_skip: "at_text b i k d (c # r) \<Longrightarrow> at_text b (i + 1) k d r"
  unfolding at_text_def
proof (elim exE conjE, intro exI conjI)
  fix gap rest
  assume b: "b = d @ gap @ (c # r) @ NUL # rest" and k: "k = length d" "i = k + length gap"
  show "b = d @ (gap @ [c]) @ r @ NUL # rest" using b by simp
  show "k = length d" "i + 1 = k + length (gap @ [c])" using k by simp_all
qed

lemma at_text_copy:
  assumes "at_text b i k d (c # r)"
  shows "wr b k c = Some (b[k := c])" and "at_text (b[k := c]) (i + 1) (k + 1) (d @ [c]) r"
    and "rd (b[k := c]) i = Some c" and "length (b[k := c]) = length b"
proof -
  from assms obtain gap rest where b: "b = d @ gap @ (c # r) @ NUL # rest" "k = length d" "i = k + length gap"
    by (auto simp: at_text_def)
  show "wr b k c = Some (b[k := c])" using b by (simp add: wr_def)
  have "\<exists>gap'. b[k := c] = (d @ [c]) @ gap' @ r @ NUL # rest \<and> length gap' = length gap \<and>
      rd (b[k := c]) i = Some c"
  proof (cases gap)
    case Nil
    then show ?thesis using b by (simp add: rd_def nth_append)
  next
    case (Cons g gs)
    have "b[k := c] = (d @ [c]) @ (gs @ [c]) @ r @ NUL # rest"
      using b Cons by (simp add: list_update_append)
    moreover from this have "rd (b[k := c]) i = Some c" using b Cons by (simp add: rd_def nth_append)
    ultimately show ?thesis using Cons by auto
  qed
  then obtain gap' where "b[k := c] = (d @ [c]) @ gap' @ r @ NUL # rest" "length gap' = length gap"
    "rd (b[k := c]) i = Some c" by blast
  then show "at_text (b[k := c]) (i + 1) (k + 1) (d @ [c]) r" "rd (b[k := c]) i = Some c"
    "length (b[k := c]) = length b"
    using b unfolding at_text_def by (intro exI [of _ gap'] exI [of _ rest], simp_all)
qed

subsection \<open>The loops do what the text function says\<close>

lemma skip_oneline_text:
  assumes "at_text b i k d r" and "NUL \<notin> set r"
  shows "\<exists>j. skip_oneline_loop b i = Some j \<and> at_text b j k d (after_line r)"
  using assms
proof (induction r arbitrary: i)
  case Nil
  then show ?case by (subst skip_oneline_loop.simps) (simp add: at_text_read(2))
next
  case (Cons c r)
  show ?case
    using Cons.IH [OF at_text_skip [OF Cons.prems(1)]] Cons.prems at_text_skip [OF Cons.prems(1)]
    by (subst skip_oneline_loop.simps) (auto simp: at_text_read(1) [OF Cons.prems(1)])
qed

lemma skip_multiline_text:
  assumes "at_text b i k d r" and "NUL \<notin> set r"
  shows "\<exists>j. skip_multiline_loop b i = Some j \<and> at_text b j k d (after_comment r)"
  using assms
proof (induction r arbitrary: i)
  case Nil
  then show ?case by (subst skip_multiline_loop.simps) (simp add: at_text_read(2))
next
  case (Cons c r)
  note next1 = at_text_skip [OF Cons.prems(1)]
  have IH: "\<exists>j. skip_multiline_loop b (Suc i) = Some j \<and> at_text b j k d (after_comment r)"
    using Cons.IH [OF next1] Cons.prems(2) by simp
  show ?case
  proof (cases "c = CHR ''*''")
    case star: True
    show ?thesis
    proof (cases r)
      case Nil
      then show ?thesis using next1 at_text_read [of b "Suc i" k d] IH star
        by (subst skip_multiline_loop.simps) (simp add: at_text_read(1) [OF Cons.prems(1)])
    next
      case (Cons e s)
      then have "at_text b (Suc (Suc i)) k d s" "rd b (Suc i) = Some e"
        using at_text_skip [of b "i + 1" k d e s] next1 at_text_read(1) [of b "i + 1" k d e s] by simp_all
      then show ?thesis using IH star Cons Cons.prems
        by (subst skip_multiline_loop.simps) (auto simp: at_text_read(1) [OF \<open>at_text b i k d (c # r)\<close>])
    qed
  next
    case False
    then show ?thesis using IH Cons.prems(2)
      by (subst skip_multiline_loop.simps) (auto simp: at_text_read(1) [OF Cons.prems(1)])
  qed
qed

lemma minify_string_text:
  assumes "at_text b i k d r" and "NUL \<notin> set r"
  shows "\<exists>b' i' k'. minify_string_loop b i k = Some (b', i', k') \<and> length b' = length b \<and>
    at_text b' i' k' (d @ fst (literal r)) (snd (literal r))"
  using assms
proof (induction r arbitrary: b i k d rule: literal.induct)
  case 1
  then show ?case by (subst minify_string_loop.simps) (simp add: at_text_read(2))
next
  case (2 c s)
  note step = at_text_copy [OF 2(5)]
  let ?b = "b[k := c]"
  have ok: "c \<noteq> NUL" "NUL \<notin> set s" "rd b i = Some c" using 2(5,6) at_text_read(1) by auto
  consider (quote) "c = DQUOTE" | (escape) "c = BACKSLASH" "s \<noteq> []" "hd s = DQUOTE"
    | (other) "c \<noteq> DQUOTE" "\<not> (c = BACKSLASH \<and> s \<noteq> [] \<and> hd s = DQUOTE)" by blast
  then show ?case
  proof cases
    case quote
    have "wr ?b k DQUOTE = Some ?b" using step(1) quote by (auto simp: wr_def split: if_splits)
    then have "minify_string_loop b i k = Some (?b, i + 1, k + 1)"
      using step(1,3) ok quote by (subst minify_string_loop.simps) simp
    then show ?thesis using step(2,4) quote by simp
  next
    case escape
    then obtain t where s: "s = DQUOTE # t" by (cases s) auto
    note step2 = at_text_copy [OF step(2) [unfolded s]]
    have "minify_string_loop b i k = minify_string_loop (?b[k + 1 := DQUOTE]) (i + 2) (k + 2)"
      using step(1,3) step2(1) ok escape at_text_read(1) [OF step(2) [unfolded s]]
      by (subst minify_string_loop.simps) simp
    moreover have "at_text (?b[k + 1 := DQUOTE]) (i + 2) (k + 2) (d @ [c, DQUOTE]) (tl s)"
      using step2(2) s by simp
    ultimately show ?thesis
      using 2(1) [of "?b[k + 1 := DQUOTE]" "i + 2" "k + 2" "d @ [c, DQUOTE]"] escape ok(2) s by simp
  next
    case other
    have "c = BACKSLASH \<Longrightarrow> \<exists>e. rd ?b (i + 1) = Some e \<and> e \<noteq> DQUOTE"
    proof (cases s)
      case Nil
      then show ?thesis using at_text_read(2) [of ?b "i + 1" "k + 1" "d @ [c]"] step(2) by simp
    next
      case (Cons e t)
      then show "c = BACKSLASH \<Longrightarrow> ?thesis"
        using at_text_read(1) [of ?b "i + 1" "k + 1" "d @ [c]" e t] step(2) other by simp
    qed
    then have "minify_string_loop b i k = minify_string_loop ?b (i + 1) (k + 1)"
      using step(1,3) ok other by (subst minify_string_loop.simps) auto
    moreover have "literal (c # s) = (c # fst (literal s), snd (literal s))" using other by auto
    ultimately show ?thesis using 2(3) [OF other step(2)] ok(2) step(4) by simp
  qed
qed

lemma minify_loop_text:
  assumes "at_text b i k d r" and "NUL \<notin> set r"
  shows "\<exists>b'. minify_loop b i k = Some (b', k + length (minified r)) \<and> length b' = length b \<and>
    (\<exists>rest. b' = d @ minified r @ rest \<and> rest \<noteq> [])"
  using assms
proof (induction r arbitrary: b i k d rule: minified.induct)
  case 1
  then have "minify_loop b i k = Some (b, k)" by (subst minify_loop.simps) (simp add: at_text_read(2))
  then show ?case using 1 by (auto simp: at_text_def)
next
  case (2 c s)
  note skip = at_text_skip [OF 2(7)] and step = at_text_copy [OF 2(7)]
  have ok: "c \<noteq> NUL" "NUL \<notin> set s" "rd b i = Some c" using 2(7,8) at_text_read(1) by auto
  consider (blank) "blank_char c"
    | (line) t where "\<not> blank_char c" "c = CHR ''/''" "s = CHR ''/'' # t"
    | (comment) t where "\<not> blank_char c" "c = CHR ''/''" "s = CHR ''*'' # t"
    | (slash) "\<not> blank_char c" "c = CHR ''/''" "s = [] \<or> hd s \<noteq> CHR ''/'' \<and> hd s \<noteq> CHR ''*''"
    | (quote) "\<not> blank_char c" "c = DQUOTE"
    | (other) "\<not> blank_char c" "c \<noteq> CHR ''/''" "c \<noteq> DQUOTE"
    by (cases s) auto
  then show ?case
  proof cases
    case blank
    then have "minify_loop b i k = minify_loop b (i + 1) k" using ok by (subst minify_loop.simps) simp
    then show ?thesis using 2(1) [OF blank skip ok(2)] blank by simp
  next
    case line
    have "at_text b (i + 2) k d t" using at_text_skip [OF skip [unfolded line(3)]] by simp
    from skip_oneline_text [OF this] ok(2) line(3) obtain j where
      j: "skip_oneline_comment b i = Some j" "at_text b j k d (after_line t)" by (auto simp: skip_oneline_comment_def)
    have "minify_loop b i k = minify_loop b j k"
      using line ok j(1) at_text_read(1) [OF skip [unfolded line(3)]] by (subst minify_loop.simps) simp
    then show ?thesis using 2(2) [of b j k d] line ok(2) j(2) after_parts(2) [of t] by auto
  next
    case comment
    have "at_text b (i + 2) k d t" using at_text_skip [OF skip [unfolded comment(3)]] by simp
    from skip_multiline_text [OF this] ok(2) comment(3) obtain j where
      j: "skip_multiline_comment b i = Some j" "at_text b j k d (after_comment t)" by (auto simp: skip_multiline_comment_def)
    have "minify_loop b i k = minify_loop b j k"
      using comment ok j(1) at_text_read(1) [OF skip [unfolded comment(3)]] by (subst minify_loop.simps) simp
    then show ?thesis using 2(3) [of b j k d] comment ok(2) j(2) after_parts(4) [of t] by auto
  next
    case slash
    have "\<exists>e. rd b (i + 1) = Some e \<and> e \<noteq> CHR ''/'' \<and> e \<noteq> CHR ''*''"
    proof (cases s)
      case Nil
      then show ?thesis using at_text_read(2) [of b "i + 1" k d] skip by simp
    next
      case (Cons e t)
      then show ?thesis using at_text_read(1) [of b "i + 1" k d e t] skip slash by simp
    qed
    then have "minify_loop b i k = minify_loop b (i + 1) k" using slash ok by (subst minify_loop.simps) auto
    moreover have "minified (c # s) = minified s" using slash by auto
    ultimately show ?thesis using 2(4) [OF slash(1,2) _ _ skip ok(2)] slash by auto
  next
    case quote
    from minify_string_text [OF step(2) ok(2)] obtain b1 i1 k1 where
      b1: "minify_string_loop (b[k := c]) (i + 1) (k + 1) = Some (b1, i1, k1)" "length b1 = length b"
        "at_text b1 i1 k1 ((d @ [c]) @ fst (literal s)) (snd (literal s))" using step(4) by auto
    have k1: "k1 = k + 1 + length (fst (literal s))" using b1(3) 2(7) by (auto simp: at_text_def)
    have "minify_loop b i k = minify_loop b1 i1 k1"
      using quote ok step(1) b1(1) by (subst minify_loop.simps) (simp add: minify_string_def)
    moreover have "NUL \<notin> set (snd (literal s))" using literal_parts [of s] ok(2) by auto
    ultimately show ?thesis using 2(5) [OF quote(1) _ quote(2) b1(3)] quote b1(2) k1 by auto
  next
    case other
    then have "minify_loop b i k = minify_loop (b[k := c]) (i + 1) (k + 1)"
      using ok step(1) by (subst minify_loop.simps) simp
    then show ?thesis using 2(6) [OF other step(2) ok(2)] other step(4) by auto
  qed
qed

lemma minify_text:
  assumes "NUL \<notin> set t"
  shows "\<exists>b. cJSON_Minify (Some (t @ NUL # rest)) = Some (Some b) \<and> length b = length (t @ NUL # rest) \<and>
    c_str b = minified t"
proof -
  have "at_text (t @ NUL # rest) 0 0 [] t" by (auto simp: at_text_def)
  from minify_loop_text [OF this assms] obtain b u where
    b: "minify_loop (t @ NUL # rest) 0 0 = Some (b, length (minified t))" "length b = length (t @ NUL # rest)"
      "b = minified t @ u" "u \<noteq> []" by auto
  obtain x xs where "u = x # xs" using b(4) by (cases u) auto
  then have "b[length (minified t) := NUL] = minified t @ NUL # xs" "length (minified t) < length b" using b(3) by simp_all
  moreover have "c_str (minified t @ NUL # xs) = minified t"
    using minified_parts [OF assms] by (simp add: c_str_no_NUL)
  moreover have "length (b[length (minified t) := NUL]) = length (t @ NUL # rest)" using b(2) by simp
  moreover have "cJSON_Minify (Some (t @ NUL # rest)) = Some (Some (b[length (minified t) := NUL]))"
    using b(1) \<open>length (minified t) < length b\<close> by (simp add: cJSON_Minify_def wr_def)
  ultimately show ?thesis by (intro exI [of _ "b[length (minified t) := NUL]"]) simp
qed



text \<open>The strings of an array, as the parser reads them.\<close>

definition strings_of :: "bytes \<Rightarrow> bytes option list option" where
  "strings_of b = Option.bind (cJSON_Parse b fresh_heap) (\<lambda>out. map_option (\<lambda>x. map valuestring (child x)) (parsed out))"


end
