(* ===== verification/DlcLock.thy ===== *)
theory DlcLock
  imports Main
begin

section \<open>The lock between the threads of the server\<close>

text \<open>
  The byte \<open>g_stat_lock\<close> of \<open>dlc_server.c\<close> is read and written by five kinds of threads: the loop
  of \<open>main\<close>, the request threads, the thread of the HMI, and the two worker threads that fetch
  and upload a package.  Here a thread is its position in the code, one step is one access to the
  byte, and the threads are interleaved freely.  Being inside is being between the write of 1
  and the write of 0.
\<close>

subsection \<open>The threads\<close>

datatype main_pc = Main_test | Main_set | Main_inside

text \<open>\<open>if (g_stat_lock) { sleep(1); continue; } g_stat_lock = 1; mg_mgr_poll(...); g_stat_lock = 0;\<close>\<close>

fun main_step :: "main_pc \<Rightarrow> bool \<Rightarrow> (bool \<times> main_pc) list" where
  "main_step Main_test l = [(l, if l then Main_test else Main_set)]"
| "main_step Main_set l = [(True, Main_inside)]"
| "main_step Main_inside l = [(False, Main_test)]"

text \<open>
  A request thread: the number is the variable \<open>t\<close> of \<open>wait_stat_unlocked(1000)\<close>; after a poll it
  goes round again or, when its exit flag is set, it ends.
\<close>

datatype request_pc = Request_wait nat | Request_set | Request_inside | Request_done

definition wait_step :: "nat \<Rightarrow> bool \<Rightarrow> nat option" where
  "wait_step t l = (if l \<and> t < 1000 then Some (t + 100) else None)"

fun request_step :: "request_pc \<Rightarrow> bool \<Rightarrow> (bool \<times> request_pc) list" where
  "request_step (Request_wait t) l =
     [(l, case wait_step t l of Some t' \<Rightarrow> Request_wait t' | None \<Rightarrow> Request_set)]"
| "request_step Request_set l = [(True, Request_inside)]"
| "request_step Request_inside l = [(False, Request_wait 1), (False, Request_done)]"
| "request_step Request_done l = []"

text \<open>The HMI thread, when a message asks for the start of the upgrade.\<close>

datatype hmi_pc = Hmi_idle | Hmi_wait nat | Hmi_set | Hmi_inside

fun hmi_step :: "hmi_pc \<Rightarrow> bool \<Rightarrow> (bool \<times> hmi_pc) list" where
  "hmi_step Hmi_idle l = [(l, Hmi_wait 1)]"
| "hmi_step (Hmi_wait t) l = [(l, case wait_step t l of Some t' \<Rightarrow> Hmi_wait t' | None \<Rightarrow> Hmi_set)]"
| "hmi_step Hmi_set l = [(True, Hmi_inside)]"
| "hmi_step Hmi_inside l = [(False, Hmi_idle)]"

text \<open>A worker thread: when its command has ended it sets the byte without looking at it.\<close>

datatype worker_pc = Worker_busy | Worker_inside | Worker_done

fun worker_step :: "worker_pc \<Rightarrow> bool \<Rightarrow> (bool \<times> worker_pc) list" where
  "worker_step Worker_busy l = [(True, Worker_inside)]"
| "worker_step Worker_inside l = [(False, Worker_done)]"
| "worker_step Worker_done l = []"

datatype thread = Main_loop main_pc | Request request_pc | Hmi hmi_pc | Worker worker_pc

fun thread_step :: "thread \<Rightarrow> bool \<Rightarrow> (bool \<times> thread) list" where
  "thread_step (Main_loop p) l = map (map_prod id Main_loop) (main_step p l)"
| "thread_step (Request p) l = map (map_prod id Request) (request_step p l)"
| "thread_step (Hmi p) l = map (map_prod id Hmi) (hmi_step p l)"
| "thread_step (Worker p) l = map (map_prod id Worker) (worker_step p l)"

definition inside :: "thread \<Rightarrow> bool" where
  "inside t \<longleftrightarrow> t \<in> {Main_loop Main_inside, Request Request_inside, Hmi Hmi_inside, Worker Worker_inside}"

subsection \<open>Interleavings\<close>

type_synonym system = "bool \<times> thread list"

inductive step :: "system \<Rightarrow> system \<Rightarrow> bool" where
  step_thread: "i < length ts \<Longrightarrow> (l', t') \<in> set (thread_step (ts ! i) l) \<Longrightarrow> step (l, ts) (l', ts[i := t'])"

inductive_cases stepE: "step (l, ts) s"

text \<open>A schedule: which threads move, and which of its moves each one makes.\<close>

fun schedule :: "(nat \<times> nat) list \<Rightarrow> system \<Rightarrow> system option" where
  "schedule [] s = Some s"
| "schedule ((i, n) # ms) (l, ts) =
     (if i < length ts \<and> n < length (thread_step (ts ! i) l)
      then case thread_step (ts ! i) l ! n of (l', t') \<Rightarrow> schedule ms (l', ts[i := t'])
      else None)"

lemma schedule_steps: "schedule ms s = Some s' \<Longrightarrow> step\<^sup>*\<^sup>* s s'"
proof (induction ms s rule: schedule.induct)
  case (2 i n ms l ts)
  then obtain l' t' where m: "i < length ts" "n < length (thread_step (ts ! i) l)" "thread_step (ts ! i) l ! n = (l', t')"
    "schedule ms (l', ts[i := t']) = Some s'" by (auto split: if_splits prod.splits)
  then have "(l', t') \<in> set (thread_step (ts ! i) l)" by (metis nth_mem)
  then have "step (l, ts) (l', ts[i := t'])" using m(1) by (intro step_thread)
  moreover have "step\<^sup>*\<^sup>* (l', ts[i := t']) s'" using 2 m by auto
  ultimately show ?case by (rule converse_rtranclp_into_rtranclp)
qed simp

lemma schedule_Cons:
  "i < length ts \<Longrightarrow> n < length (thread_step (ts ! i) l) \<Longrightarrow> thread_step (ts ! i) l ! n = (l', t') \<Longrightarrow>
    schedule ((i, n) # ms) (l, ts) = schedule ms (l', ts[i := t'])"
  by simp

text \<open>A thread that waits for the lock sleeps ten times at most and then enters.\<close>

lemma waiting_thread_enters:
  assumes "j < length ts" and "ts ! j = Request (Request_wait 1)"
  shows "step\<^sup>*\<^sup>* (True, ts) (True, ts[j := Request Request_inside])"
proof -
  have "schedule (replicate 12 (j, 0)) (True, ts) = Some (True, ts[j := Request Request_inside])"
    using assms by (simp add: eval_nat_numeral wait_step_def)
  then show ?thesis by (rule schedule_steps)
qed



end
