(* ===== verification/CUtilsPointer.thy ===== *)
theory CUtilsPointer
  imports CJsonQuery
begin

unbundle bit_operations_syntax

section \<open>cJSON utilities: JSON pointers\<close>

text \<open>
  The functions of \<open>cJSON_Utils.c\<close> on the text of JSON pointers: comparing a name with the next
  token, encoding a name as a token, decoding an array index, and following a pointer through a
  tree.  Texts are lists of characters without a terminator; reading one past the end is reading
  the terminator.  The reference is the unescaping of RFC 6901.
\<close>

subsection \<open>Comparing\<close>

definition compare_strings :: "bytes option \<Rightarrow> bytes option \<Rightarrow> bool \<Rightarrow> int" where
  "compare_strings s t case_sensitive =
     (case (s, t) of
        (Some a, Some b) \<Rightarrow> if case_sensitive then strcmp a b else ci_loop (c_str a) (c_str b)
      | _ \<Rightarrow> 1)"

definition first_char :: "bytes \<Rightarrow> char" where
  "first_char s = (case s of [] \<Rightarrow> NUL | c # _ \<Rightarrow> c)"

definition token_ends :: "bytes \<Rightarrow> bool" where
  "token_ends p \<longleftrightarrow> p = [] \<or> hd p = CHR ''/''"

text \<open>The loop of \<open>compare_pointers\<close> and the test behind it.\<close>

fun pointer_loop :: "bool \<Rightarrow> bytes \<Rightarrow> bytes \<Rightarrow> bool" where
  "pointer_loop cs (n # name) (p # pointer) =
     (if p = CHR ''/'' then False
      else if p = CHR ''~''
      then (if (first_char pointer \<noteq> CHR ''0'' \<or> n \<noteq> CHR ''~'') \<and> (first_char pointer \<noteq> CHR ''1'' \<or> n \<noteq> CHR ''/'')
            then False else pointer_loop cs name (tl pointer))
      else if \<not> cs \<and> tolower n \<noteq> tolower p \<or> cs \<and> n \<noteq> p then False
      else pointer_loop cs name pointer)"
| "pointer_loop cs name pointer \<longleftrightarrow> \<not> ((\<not> token_ends pointer) \<noteq> (name \<noteq> []))"

definition compare_pointers :: "bytes option \<Rightarrow> bytes option \<Rightarrow> bool \<Rightarrow> bool" where
  "compare_pointers name pointer case_sensitive =
     (case (name, pointer) of
        (Some n, Some p) \<Rightarrow> pointer_loop case_sensitive (c_str n) (c_str p)
      | _ \<Rightarrow> False)"

text \<open>RFC 6901: the token is what stands before the next slash, and what it means.\<close>

definition token :: "bytes \<Rightarrow> bytes" where
  "token p = takeWhile (\<lambda>c. c \<noteq> CHR ''/'') p"

fun unescape_token :: "bytes \<Rightarrow> bytes option" where
  "unescape_token [] = Some []"
| "unescape_token (c # s) =
     (if c \<noteq> CHR ''~'' then map_option (Cons c) (unescape_token s)
      else case s of
        [] \<Rightarrow> None
      | d # t \<Rightarrow> if d = CHR ''0'' then map_option (Cons CHR ''~'') (unescape_token t)
                 else if d = CHR ''1'' then map_option (Cons CHR ''/'') (unescape_token t) else None)"

definition same_name :: "bool \<Rightarrow> bytes \<Rightarrow> bytes \<Rightarrow> bool" where
  "same_name cs u n \<longleftrightarrow> (if cs then u = n else map tolower u = map tolower n)"

lemma tolower_fixed:
  assumes "ch d < 65 \<or> 122 < ch d"
  shows "tolower n = d \<longleftrightarrow> n = d"
proof
  assume *: "tolower n = d"
  show "n = d"
  proof (cases "ch CHR ''A'' \<le> ch n \<and> ch n \<le> ch CHR ''Z''")
    case True
    with * have "ch (char_of (ch n + 32) :: char) = ch d" by (simp add: tolower_def)
    moreover have "ch n + 32 < 256" using True by simp
    ultimately have "ch n + 32 = ch d" by (simp add: of_char_char_of_lt)
    with True assms show ?thesis by simp
  next
    case False
    with * show ?thesis by (auto simp: tolower_def)
  qed
next
  assume "n = d"
  with assms show "tolower n = d" by (auto simp: tolower_def)
qed

lemma tolower_special:
  "tolower n = CHR ''/'' \<longleftrightarrow> n = CHR ''/''" "tolower n = CHR ''~'' \<longleftrightarrow> n = CHR ''~''"
  "CHR ''/'' = tolower n \<longleftrightarrow> n = CHR ''/''" "CHR ''~'' = tolower n \<longleftrightarrow> n = CHR ''~''"
  "tolower CHR ''/'' = CHR ''/''" "tolower CHR ''~'' = CHR ''~''"
  using tolower_fixed [of "CHR ''/''" n] tolower_fixed [of "CHR ''~''" n]
    tolower_fixed [of "CHR ''/''" "CHR ''/''"] tolower_fixed [of "CHR ''~''" "CHR ''~''"] by auto

lemma same_name_Cons: "same_name cs u (n # name) \<longleftrightarrow>
    (\<exists>c v. u = c # v \<and> (if cs then c = n else tolower c = tolower n) \<and> same_name cs v name)"
  by (cases u) (auto simp: same_name_def)

lemma same_name_Nil: "same_name cs u [] \<longleftrightarrow> u = []"
  by (simp add: same_name_def)

lemma unescape_Nil: "unescape_token s = Some [] \<longleftrightarrow> s = []"
  by (cases s) (auto split: list.splits)

lemma token_Cons: "token (c # s) = (if c = CHR ''/'' then [] else c # token s)"
  by (simp add: token_def)

lemma pointer_loop_token:
  "pointer_loop cs n p \<longleftrightarrow> (\<exists>u. unescape_token (token p) = Some u \<and> same_name cs u n)"
proof (induction cs n p rule: pointer_loop.induct [case_names step name_ends pointer_ends])
  case (step cs n name p pointer)
  consider (slash) "p = CHR ''/''" | (tilde) "p = CHR ''~''" | (plain) "p \<noteq> CHR ''/''" "p \<noteq> CHR ''~''" by blast
  then show ?case
  proof cases
    case slash
    then show ?thesis by (simp add: token_Cons same_name_Cons)
  next
    case tilde
    show ?thesis
    proof (cases pointer)
      case Nil
      then show ?thesis using tilde by (simp add: token_def first_char_def)
    next
      case (Cons d t)
      have IH: "pointer_loop cs name t \<longleftrightarrow> (\<exists>u. unescape_token (token t) = Some u \<and> same_name cs u name)"
        if "\<not> ((first_char pointer \<noteq> CHR ''0'' \<or> n \<noteq> CHR ''~'') \<and> (first_char pointer \<noteq> CHR ''1'' \<or> n \<noteq> CHR ''/''))"
        using step(1) [OF _ tilde that] tilde Cons by simp
      show ?thesis
        using tilde Cons IH
        by (cases cs) (auto simp: token_Cons same_name_Cons first_char_def tolower_special split: if_splits)
    qed
  next
    case plain
    have un: "unescape_token (token (p # pointer)) = map_option (Cons p) (unescape_token (token pointer))"
      using plain by (simp add: token_Cons)
    show ?thesis
    proof (cases "\<not> cs \<and> tolower n \<noteq> tolower p \<or> cs \<and> n \<noteq> p")
      case True
      then show ?thesis using plain by (cases cs) (auto simp: un same_name_Cons)
    next
      case False
      then show ?thesis using step(2) [OF plain False] plain by (cases cs) (auto simp: un same_name_Cons)
    qed
  qed
next
  case (name_ends cs pointer)
  show ?case
    by (cases pointer) (auto simp: token_ends_def same_name_Nil unescape_Nil token_def)
next
  case (pointer_ends cs name)
  then show ?case by (auto simp: token_ends_def token_def same_name_def)
qed

subsection \<open>Encoding\<close>

fun pointer_encoded_length :: "bytes \<Rightarrow> nat" where
  "pointer_encoded_length [] = 0"
| "pointer_encoded_length (c # s) =
     (if c = CHR ''~'' \<or> c = CHR ''/'' then 2 else 1) + pointer_encoded_length s"

definition wr_at :: "bytes \<Rightarrow> nat \<Rightarrow> char \<Rightarrow> bytes option" where
  "wr_at b i c = (if i < length b then Some (b[i := c]) else None)"

text \<open>
  The destination is a block that may hold anything, and \<open>k\<close> the position in it; for a slash only
  the second of the two characters is written.
\<close>

fun encode_string_as_pointer :: "bytes \<Rightarrow> nat \<Rightarrow> bytes \<Rightarrow> bytes option" where
  "encode_string_as_pointer b k [] = wr_at b k NUL"
| "encode_string_as_pointer b k (c # s) =
     (if c = CHR ''/'' then do { b \<leftarrow> wr_at b (k + 1) CHR ''1''; encode_string_as_pointer b (k + 2) s }
      else if c = CHR ''~''
      then do { b \<leftarrow> wr_at b k CHR ''~''; b \<leftarrow> wr_at b (k + 1) CHR ''1''; encode_string_as_pointer b (k + 2) s }
      else do { b \<leftarrow> wr_at b k c; encode_string_as_pointer b (k + 1) s })"

text \<open>The characters that encoding leaves in a block that held \<open>junk\<close>.\<close>

fun encoded :: "bytes \<Rightarrow> bytes \<Rightarrow> bytes" where
  "encoded junk [] = []"
| "encoded junk (c # s) =
     (if c = CHR ''/'' then hd junk # CHR ''1'' # encoded (drop 2 junk) s
      else if c = CHR ''~'' then ''~1'' @ encoded (drop 2 junk) s
      else c # encoded (tl junk) s)"

lemma length_encoded [simp]: "length (encoded junk s) = pointer_encoded_length s"
  by (induction junk s rule: encoded.induct) auto

lemma encode_fits:
  assumes "pointer_encoded_length s < length junk"
  shows "encode_string_as_pointer (pre @ junk) (length pre) s
    = Some (pre @ encoded junk s @ NUL # drop (Suc (pointer_encoded_length s)) junk)"
  using assms
proof (induction s arbitrary: pre junk)
  case Nil
  then show ?case by (cases junk) (auto simp: wr_at_def)
next
  case (Cons c s)
  show ?case
  proof (cases "c = CHR ''/'' \<or> c = CHR ''~''")
    case True
    then obtain x y junk' where j: "junk = x # y # junk'" using Cons.prems
      by (cases junk; cases "tl junk") auto
    show ?thesis
      using Cons.IH [of junk' "pre @ [x, CHR ''1'']"] Cons.IH [of junk' "pre @ ''~1''"] Cons.prems j True
      by (auto simp: wr_at_def list_update_append)
  next
    case False
    then obtain x junk' where j: "junk = x # junk'" using Cons.prems by (cases junk) auto
    show ?thesis
      using Cons.IH [of junk' "pre @ [c]"] Cons.prems j False by (auto simp: wr_at_def list_update_append)
  qed
qed

text \<open>What a token that was encoded from a name without slashes means.\<close>

definition misread :: "char \<Rightarrow> char" where
  "misread c = (if c = CHR ''~'' then CHR ''/'' else c)"

lemma unescape_encoded:
  "CHR ''/'' \<notin> set s \<Longrightarrow> CHR ''/'' \<notin> set (encoded junk s) \<and>
    unescape_token (encoded junk s) = Some (map misread s) \<and> (NUL \<notin> set s \<longrightarrow> NUL \<notin> set (encoded junk s))"
proof (induction s arbitrary: junk)
  case (Cons c s)
  from Cons.IH [of "drop 2 junk"] Cons.IH [of "tl junk"] Cons.prems show ?case
    by (cases "c = CHR ''~''") (auto simp: misread_def)
qed simp

lemma token_no_slash: "CHR ''/'' \<notin> set p \<Longrightarrow> token p = p"
  unfolding token_def by (induction p) auto

lemma misread_same: "same_name cs (map misread s) s \<longleftrightarrow> CHR ''~'' \<notin> set s"
proof
  assume same: "same_name cs (map misread s) s"
  show "CHR ''~'' \<notin> set s"
  proof
    assume "CHR ''~'' \<in> set s"
    then obtain i where i: "i < length s" "s ! i = CHR ''~''" by (auto simp: in_set_conv_nth)
    have "map misread s ! i = CHR ''/''" using i by (simp add: misread_def)
    moreover have "cs \<Longrightarrow> map misread s ! i = s ! i"
      using same by (simp add: same_name_def)
    moreover have "\<not> cs \<Longrightarrow> \<forall>c \<in> set s. tolower (misread c) = tolower c"
      using same by (simp add: same_name_def)
    ultimately show False using i nth_mem [OF i(1)] by (cases cs) (auto simp: tolower_special misread_def)
  qed
next
  assume "CHR ''~'' \<notin> set s"
  then have "map misread s = s" by (induction s) (auto simp: misread_def)
  then show "same_name cs (map misread s) s" by (simp add: same_name_def)
qed

subsection \<open>Decoding\<close>

text \<open>
  The digits of an array index.  The loop compares each character with \<open>0\<close> but the first one with
  \<open>9\<close>; the sum is a \<open>size_t\<close>.
\<close>

fun index_loop :: "char \<Rightarrow> 64 word \<Rightarrow> bytes \<Rightarrow> 64 word \<times> bytes" where
  "index_loop c0 n [] = (n, [])"
| "index_loop c0 n (c # s) =
     (if ch CHR ''0'' \<le> ch c \<and> ch c0 \<le> ch CHR ''9''
      then index_loop c0 (10 * n + word_of_nat (ch c - ch CHR ''0'')) s else (n, c # s))"

definition decode_array_index_from_pointer :: "bytes \<Rightarrow> 64 word option" where
  "decode_array_index_from_pointer p =
     (if first_char p = CHR ''0'' \<and> \<not> token_ends (tl p) then None
      else case index_loop (first_char p) 0 p of
        (n, rest) \<Rightarrow> if token_ends rest then Some n else None)"

text \<open>In place: \<open>i\<close> reads, \<open>k\<close> writes; an escape that is none returns at once.\<close>

function decode_pointer_loop :: "bytes \<Rightarrow> nat \<Rightarrow> nat \<Rightarrow> bytes option" where
  "decode_pointer_loop b i k =
     (case rd b i of None \<Rightarrow> None
      | Some c \<Rightarrow>
          if c = NUL then wr_at b k NUL
          else if c = CHR ''~''
          then (case rd b (i + 1) of None \<Rightarrow> None
                | Some d \<Rightarrow>
                    if d = CHR ''0''
                    then (case wr_at b k CHR ''~'' of None \<Rightarrow> None | Some b' \<Rightarrow> decode_pointer_loop b' (i + 2) (k + 1))
                    else if d = CHR ''1''
                    then (case wr_at b (k + 1) CHR ''/'' of None \<Rightarrow> None | Some b' \<Rightarrow> decode_pointer_loop b' (i + 2) (k + 1))
                    else Some b)
          else decode_pointer_loop b (i + 1) (k + 1))"
  by pat_completeness auto
termination
  by (relation "measure (\<lambda>(b, i, k). length b - i)") (auto simp: rd_Some_iff wr_at_def split: if_splits)

declare decode_pointer_loop.simps [simp del]

definition decode_pointer_inplace :: "bytes option \<Rightarrow> bytes option option" where
  "decode_pointer_inplace s =
     (case s of None \<Rightarrow> Some None | Some b \<Rightarrow> map_option Some (decode_pointer_loop b 0 0))"

lemma decode_plain_gen:
  "NUL \<notin> set t \<Longrightarrow> CHR ''~'' \<notin> set t \<Longrightarrow>
    decode_pointer_loop (pre @ t @ NUL # rest) (length pre) (length pre) = Some (pre @ t @ NUL # rest)"
proof (induction t arbitrary: pre)
  case Nil
  then show ?case by (subst decode_pointer_loop.simps) (simp add: rd_def nth_append wr_at_def)
next
  case (Cons c t)
  then show ?case using Cons.IH [of "pre @ [c]"]
    by (subst decode_pointer_loop.simps) (auto simp: rd_def nth_append)
qed

text \<open>
  A token without escapes is left alone; one with \<open>~1\<close> is spoilt: \<open>a~1b\<close> becomes \<open>a~/\<close>.
\<close>

lemma decode_pointer_examples:
  "decode_pointer_inplace (Some (''a~1b'' @ [NUL])) = Some (Some (''a~/'' @ [NUL, NUL]))"
  "NUL \<notin> set t \<Longrightarrow> CHR ''~'' \<notin> set t \<Longrightarrow> decode_pointer_inplace (Some (t @ NUL # rest)) = Some (Some (t @ NUL # rest))"
proof -
  show "decode_pointer_inplace (Some (''a~1b'' @ [NUL])) = Some (Some (''a~/'' @ [NUL, NUL]))" by code_simp
  show "NUL \<notin> set t \<Longrightarrow> CHR ''~'' \<notin> set t \<Longrightarrow> decode_pointer_inplace (Some (t @ NUL # rest)) = Some (Some (t @ NUL # rest))"
    using decode_plain_gen [of t "[]" rest] by (simp add: decode_pointer_inplace_def)
qed

subsection \<open>Following a pointer\<close>

function pointer_walk :: "bool \<Rightarrow> cJSON option \<Rightarrow> bytes \<Rightarrow> cJSON option" where
  "pointer_walk cs current p =
     (case current of
        None \<Rightarrow> None
      | Some x \<Rightarrow>
          if first_char p \<noteq> CHR ''/'' then Some x
          else let q = tl p; rest = dropWhile (\<lambda>c. c \<noteq> CHR ''/'') q
          in if cJSON_IsArray current
          then (case decode_array_index_from_pointer q of
                  None \<Rightarrow> None
                | Some i \<Rightarrow> pointer_walk cs (walk (child x) (unat i)) rest)
          else if cJSON_IsObject current
          then pointer_walk cs (List.find (\<lambda>y. compare_pointers (item_string y) (Some q) cs) (child x)) rest
          else None)"
  by pat_completeness auto
termination
proof (relation "measure (\<lambda>(cs, x, p). length p)", goal_cases)
  case (2 cs current p x q rest i)
  then have "p \<noteq> []" by (auto simp: first_char_def)
  then have "length q < length p" using 2 by simp
  then show ?case using 2 length_dropWhile_le [of "\<lambda>c. c \<noteq> CHR ''/''" q] by simp
next
  case (3 cs current p x q rest)
  then have "p \<noteq> []" by (auto simp: first_char_def)
  then have "length q < length p" using 3 by simp
  then show ?case using 3 length_dropWhile_le [of "\<lambda>c. c \<noteq> CHR ''/''" q] by simp
qed simp

declare pointer_walk.simps [simp del]

definition get_item_from_pointer :: "cJSON option \<Rightarrow> bytes option \<Rightarrow> bool \<Rightarrow> cJSON option" where
  "get_item_from_pointer object pointer case_sensitive =
     (case pointer of None \<Rightarrow> None | Some p \<Rightarrow> pointer_walk case_sensitive object (c_str p))"

definition cJSONUtils_GetPointer :: "cJSON option \<Rightarrow> bytes option \<Rightarrow> cJSON option" where
  "cJSONUtils_GetPointer object pointer = get_item_from_pointer object pointer False"

definition cJSONUtils_GetPointerCaseSensitive :: "cJSON option \<Rightarrow> bytes option \<Rightarrow> cJSON option" where
  "cJSONUtils_GetPointerCaseSensitive object pointer = get_item_from_pointer object pointer True"

subsection \<open>The reference: tokens one after the other\<close>

function tokens :: "bytes \<Rightarrow> bytes list" where
  "tokens p = (if first_char p \<noteq> CHR ''/'' then [] else token (tl p) # tokens (dropWhile (\<lambda>c. c \<noteq> CHR ''/'') (tl p)))"
  by pat_completeness auto
termination
proof (relation "measure length", goal_cases)
  case (2 p)
  then have "p \<noteq> []" by (auto simp: first_char_def)
  then show ?case using length_dropWhile_le [of "\<lambda>c. c \<noteq> CHR ''/''" "tl p"] by (cases p) simp_all
qed simp

declare tokens.simps [simp del]

definition means :: "bool \<Rightarrow> bytes \<Rightarrow> cJSON \<Rightarrow> bool" where
  "means cs t y \<longleftrightarrow> (case (unescape_token t, item_string y) of (Some u, Some k) \<Rightarrow> same_name cs u (c_str k) | _ \<Rightarrow> False)"

fun resolve :: "bool \<Rightarrow> cJSON option \<Rightarrow> bytes list \<Rightarrow> cJSON option" where
  "resolve cs x [] = x"
| "resolve cs None (t # ts) = None"
| "resolve cs (Some x) (t # ts) =
     (if cJSON_IsArray (Some x)
      then (case decode_array_index_from_pointer t of None \<Rightarrow> None
            | Some i \<Rightarrow> resolve cs (if unat i < length (child x) then Some (child x ! unat i) else None) ts)
      else if cJSON_IsObject (Some x) then resolve cs (List.find (means cs t) (child x)) ts
      else None)"

lemma token_ends_token: "token_ends (token p) \<longleftrightarrow> token_ends p"
  by (cases p) (auto simp: token_ends_def token_def)

lemma index_loop_token:
  "index_loop c0 n (token p) = (fst (index_loop c0 n p), token (snd (index_loop c0 n p)))"
  by (induction c0 n p rule: index_loop.induct) (auto simp: token_def)

lemma decode_token: "decode_array_index_from_pointer (token p) = decode_array_index_from_pointer p"
proof -
  have f: "first_char (token p) = (if first_char p = CHR ''/'' then NUL else first_char p)"
    by (cases p) (simp_all add: first_char_def token_def)
  have t: "tl (token p) = token (tl p)" if "first_char p = CHR ''0''"
    using that by (cases p) (simp_all add: first_char_def token_def)
  have i: "index_loop NUL 0 (token p) = index_loop c0 0 (token p)" if "first_char p = CHR ''/''" for c0
    using that by (cases p) (simp_all add: first_char_def token_def)
  show ?thesis
  proof (cases "first_char p = CHR ''/''")
    case True
    then have "token p = []" "\<exists>r. p = CHR ''/'' # r" by (cases p; simp add: first_char_def token_def)+
    then show ?thesis by (auto simp: decode_array_index_from_pointer_def first_char_def token_ends_def)
  next
    case False
    then show ?thesis using t
      by (auto simp: decode_array_index_from_pointer_def f token_ends_token index_loop_token split: prod.splits)
  qed
qed

lemma compare_pointers_token:
  "NUL \<notin> set q \<Longrightarrow> compare_pointers (item_string y) (Some q) cs \<longleftrightarrow> means cs (token q) y"
  by (auto simp: compare_pointers_def means_def pointer_loop_token c_str_no_NUL split: option.splits)

lemma pointer_walk_resolve:
  assumes "NUL \<notin> set p"
  shows "pointer_walk cs x p = resolve cs x (tokens p)"
  using assms
proof (induction cs x p rule: pointer_walk.induct)
  case (1 cs current p)
  show ?case
  proof (cases "current = None \<or> first_char p \<noteq> CHR ''/''")
    case True
    then show ?thesis
      by (subst pointer_walk.simps; subst tokens.simps) (auto split: option.splits)
  next
    case False
    then obtain x where x: "current = Some x" by auto
    obtain q where p: "p = CHR ''/'' # q" using False by (cases p) (auto simp: first_char_def)
    let ?r = "dropWhile (\<lambda>c. c \<noteq> CHR ''/'') q"
    have nul: "NUL \<notin> set q" "NUL \<notin> set ?r" using 1(3) p by (auto dest: set_dropWhileD)
    have "List.find (\<lambda>y. compare_pointers (item_string y) (Some q) cs) ys = List.find (means cs (token q)) ys" for ys
      by (induction ys) (simp_all add: compare_pointers_token [OF nul(1)])
    then show ?thesis using 1(1,2) x p nul
      by (subst pointer_walk.simps; subst tokens.simps)
        (simp add: first_char_def decode_token walk_eq split: option.splits)
  qed
qed


text \<open>
  Encoding a member name: for a name without a slash the encoder stays in the block that
  \<open>pointer_encoded_length\<close> asks for, and the token it writes is found again exactly when the name
  has no tilde, which is written as \<open>~1\<close> and read back as a slash.
\<close>

theorem encoded_name_found:
  assumes "NUL \<notin> set n" and "CHR ''/'' \<notin> set n" and "pointer_encoded_length n < length block"
  shows "\<exists>b. encode_string_as_pointer block 0 n = Some b \<and> length b = length block \<and>
    (compare_pointers (Some n) (Some b) cs \<longleftrightarrow> CHR ''~'' \<notin> set n)"
proof -
  let ?b = "encoded block n @ NUL # drop (Suc (pointer_encoded_length n)) block"
  note e = unescape_encoded [OF assms(2), of block]
  have "encode_string_as_pointer block 0 n = Some ?b" using encode_fits [OF assms(3), of "[]"] by simp
  moreover have "c_str ?b = encoded block n" using e assms(1) by (simp add: c_str_no_NUL)
  moreover have "token (encoded block n) = encoded block n" using e by (simp add: token_no_slash)
  ultimately show ?thesis using assms(1,3) e
    by (auto simp: compare_pointers_def pointer_loop_token c_str_no_NUL misread_same)
qed

lemma encoded_name_found_witness:
  "\<exists>b. encode_string_as_pointer (replicate 4 NUL) 0 ''a~'' = Some b \<and> length b = 4 \<and>
    (compare_pointers (Some ''a~'') (Some b) True \<longleftrightarrow> CHR ''~'' \<notin> set ''a~'')"
  using encoded_name_found [of "''a~''" "replicate 4 NUL" True] by simp

text \<open>A name with a slash: the first character of the escape is whatever the block held.\<close>

lemma encoded_slash:
  "encode_string_as_pointer (replicate 4 CHR ''?'') 0 ''a/'' = Some (''a?1'' @ [NUL])"
  by code_simp

text \<open>Indices that are none: \<open>1a\<close> is 59, and an empty token is 0.\<close>

lemma index_examples:
  "decode_array_index_from_pointer ''1a'' = Some 59" "decode_array_index_from_pointer [] = Some 0"
  by code_simp+

end
