(* ===== verification/CJsonCopy.thy ===== *)
theory CJsonCopy
  imports CJsonPrint
begin

section \<open>cJSON: copying and comparing trees; the allocation hooks\<close>

text \<open>
  \<open>cJSON_Duplicate\<close>, \<open>cJSON_Compare\<close> and \<open>cJSON_InitHooks\<close> of \<open>cJSON.c\<close>, on the trees of the theory
  on items.
\<close>

subsection \<open>The hooks\<close>

datatype fn = Malloc | Free | Realloc | User nat

record internal_hooks =
  allocate :: fn
  deallocate :: fn
  reallocate :: "fn option"

text \<open>The argument is NULL or the pair of the fields \<open>malloc_fn\<close> and \<open>free_fn\<close>.\<close>

definition cJSON_InitHooks :: "(fn option \<times> fn option) option \<Rightarrow> internal_hooks" where
  "cJSON_InitHooks hooks =
     (case hooks of
        None \<Rightarrow> \<lparr>allocate = Malloc, deallocate = Free, reallocate = Some Realloc\<rparr>
      | Some (malloc_fn, free_fn) \<Rightarrow>
          let a = (case malloc_fn of None \<Rightarrow> Malloc | Some f \<Rightarrow> f);
              d = (case free_fn of None \<Rightarrow> Free | Some f \<Rightarrow> f)
          in \<lparr>allocate = a, deallocate = d,
              reallocate = (if a = Malloc \<and> d = Free then Some Realloc else None)\<rparr>)"

subsection \<open>Copying\<close>

text \<open>
  The copy is made node by node; \<open>acc\<close> are the children that are already linked below the new node.
  A failing allocation deletes what was built.
\<close>

fun duplicate :: "cJSON \<Rightarrow> bool \<Rightarrow> heap \<Rightarrow> cJSON option \<times> heap"
  and duplicate_children :: "cJSON list \<Rightarrow> cJSON list \<Rightarrow> heap \<Rightarrow> cJSON list \<times> bool \<times> heap" where
  "duplicate (CJson t c s i d k) recurse h =
     (case cJSON_New_Item h of
        (None, h) \<Rightarrow> (None, h)
      | (Some x, h) \<Rightarrow>
          let x = set_valuedouble d (set_valueint i (set_ctype (t AND NOT cJSON_IsReference) x));
              (s', h) = (if s \<noteq> None then cJSON_strdup s h else (None, h))
          in if s \<noteq> None \<and> s' = None then (None, cJSON_Delete [x] h)
          else let x = set_valuestring s' x;
              (k', h) = (if k = None then (None, h)
                         else if has_flag t cJSON_StringIsConst then (k, h) else cJSON_strdup k h)
          in if k \<noteq> None \<and> k' = None then (None, cJSON_Delete [x] h)
          else let x = set_item_string k' x
          in if \<not> recurse then (Some x, h)
          else let (acc, ok, h) = duplicate_children c [] h; x = set_child acc x
          in if ok then (Some x, h) else (None, cJSON_Delete [x] h))"
| "duplicate_children [] acc h = (acc, True, h)"
| "duplicate_children (x # xs) acc h =
     (case duplicate x True h of
        (None, h) \<Rightarrow> (acc, False, h)
      | (Some y, h) \<Rightarrow> duplicate_children xs (acc @ [y]) h)"

definition cJSON_Duplicate :: "cJSON option \<Rightarrow> bool \<Rightarrow> heap \<Rightarrow> cJSON option \<times> heap" where
  "cJSON_Duplicate item recurse h = (case item of None \<Rightarrow> (None, h) | Some x \<Rightarrow> duplicate x recurse h)"

text \<open>What a copy is: strings end at their first terminator, references become owners.\<close>

fun copy :: "cJSON \<Rightarrow> cJSON" where
  "copy (CJson t c s i d k) =
     CJson (t AND NOT cJSON_IsReference) (map copy c) (map_option c_str s) i d
       (if has_flag t cJSON_StringIsConst then k else map_option c_str k)"

lemma flags_of_copy [simp]:
  "has_flag (t AND NOT cJSON_IsReference) cJSON_IsReference \<longleftrightarrow> False"
  "has_flag (t AND NOT cJSON_IsReference) cJSON_StringIsConst \<longleftrightarrow> has_flag t cJSON_StringIsConst"
proof -
  have "NOT 256 AND 256 = (0 :: 32 word)" "NOT 256 AND 512 = (512 :: 32 word)" by simp_all
  then show "has_flag (t AND NOT cJSON_IsReference) cJSON_IsReference \<longleftrightarrow> False"
    "has_flag (t AND NOT cJSON_IsReference) cJSON_StringIsConst \<longleftrightarrow> has_flag t cJSON_StringIsConst"
    by (simp_all only: has_flag_def ctype_defs and.assoc) simp_all
qed

lemma strdup_cases:
  obtains (fail) h' where "cJSON_strdup (Some v) h = (None, h')" "live h' = live h" "oom h' = oom h" "oom h \<noteq> (\<lambda>_. False)"
  | (ok) h' where "cJSON_strdup (Some v) h = (Some (c_str v), h')" "live h' = live h + 1" "oom h' = oom h"
proof -
  obtain b h' where m: "malloc h = (b, h')" by fastforce
  then have "oom h' = oom h" "live h' = live h + of_bool b" "\<not> b \<Longrightarrow> oom h \<noteq> (\<lambda>_. False)"
    using malloc_never_fails [of h] by (auto simp: heap_simps)
  then show ?thesis using m that by (cases b) (auto simp: cJSON_strdup_def)
qed

lemma new_item_cases:
  obtains (fail) h' where "cJSON_New_Item h = (None, h')" "live h' = live h" "oom h' = oom h" "oom h \<noteq> (\<lambda>_. False)"
  | (ok) h' where "cJSON_New_Item h = (Some zero_item, h')" "live h' = live h + 1" "oom h' = oom h"
proof -
  obtain b h' where m: "malloc h = (b, h')" by fastforce
  then have "oom h' = oom h" "live h' = live h + of_bool b" "\<not> b \<Longrightarrow> oom h \<noteq> (\<lambda>_. False)"
    using malloc_never_fails [of h] by (auto simp: heap_simps)
  then show ?thesis using m that by (cases b) (auto simp: cJSON_New_Item_def)
qed

definition copied :: "cJSON \<Rightarrow> heap \<Rightarrow> cJSON option \<times> heap \<Rightarrow> bool" where
  "copied y h r \<longleftrightarrow> oom (snd r) = oom h \<and>
     (case fst r of None \<Rightarrow> live (snd r) = live h \<and> oom h \<noteq> (\<lambda>_. False)
      | Some z \<Rightarrow> z = y \<and> live (snd r) = live h + blocks [y])"

lemma duplicate_copies:
  "copied (if recurse then copy x else set_child [] (copy x)) h (duplicate x recurse h)"
  "case duplicate_children xs acc h of (ys, ok, h') \<Rightarrow> oom h' = oom h \<and> live h' = live h + blocks ys - blocks acc \<and>
     (if ok then ys = acc @ map copy xs else oom h \<noteq> (\<lambda>_. False))"
proof (induction x recurse h and xs acc h rule: duplicate_duplicate_children.induct)
  case (1 t c s i d k recurse h)
  let ?t = "t AND NOT cJSON_IsReference"
  have IH: "case duplicate_children c [] h3 of (ys, ok, h') \<Rightarrow> oom h' = oom h3 \<and> live h' = live h3 + blocks ys - blocks [] \<and>
     (if ok then ys = [] @ map copy c else oom h3 \<noteq> (\<lambda>_. False))"
    if "cJSON_New_Item h = (Some x, h1)" "(if s \<noteq> None then cJSON_strdup s h1 else (None, h1)) = (s', h2)"
      "\<not> (s \<noteq> None \<and> s' = None)"
      "(if k = None then (None, h2) else if has_flag t cJSON_StringIsConst then (k, h2) else cJSON_strdup k h2) = (k', h3)"
      "\<not> (k \<noteq> None \<and> k' = None)" recurse for x h1 s' h2 k' h3
    by (rule 1 [OF that(1)[symmetric] refl refl refl that(2)[symmetric] that(3) refl refl that(4)[symmetric] that(5) refl])
      (simp add: that(6))
  show ?case
  proof (cases h rule: new_item_cases)
    case (fail h0)
    then show ?thesis by (simp add: copied_def)
  next
    case (ok h1)
    note new = ok
    let ?x1 = "CJson ?t [] None i d None"
    have x1: "set_valuedouble d (set_valueint i (set_ctype ?t zero_item)) = ?x1" by (simp add: zero_item_def)
    note step = duplicate.simps new(1) prod.case option.case x1 Let_def set_valuestring.simps
      set_item_string.simps set_child.simps
    obtain s' h2 where s2: "(if s \<noteq> None then cJSON_strdup s h1 else (None, h1)) = (s', h2)" by fastforce
    have f2: "oom h2 = oom h" "s \<noteq> None \<and> s' = None \<longrightarrow> live h2 = live h1 \<and> oom h \<noteq> (\<lambda>_. False)"
      "\<not> (s \<noteq> None \<and> s' = None) \<longrightarrow> s' = map_option c_str s \<and> live h2 = live h1 + of_bool (s \<noteq> None)"
      using s2 new by (cases s; cases "the s" h1 rule: strdup_cases; auto)+
    show ?thesis
    proof (cases "s \<noteq> None \<and> s' = None")
      case True
      then show ?thesis using new s2 f2 by (simp add: copied_def x1 split: if_splits)
    next
      case s': False
      let ?x2 = "CJson ?t [] s' i d None"
      obtain k' h3 where k3: "(if k = None then (None, h2) else if has_flag t cJSON_StringIsConst then (k, h2) else cJSON_strdup k h2) = (k', h3)"
        by fastforce
      have f3: "oom h3 = oom h" "k \<noteq> None \<and> k' = None \<longrightarrow> live h3 = live h2 \<and> oom h \<noteq> (\<lambda>_. False)"
        "\<not> (k \<noteq> None \<and> k' = None) \<longrightarrow> k' = (if has_flag t cJSON_StringIsConst then k else map_option c_str k) \<and>
           live h3 = live h2 + of_bool (\<not> has_flag t cJSON_StringIsConst \<and> k \<noteq> None)"
        using k3 f2(1) by (cases k; cases "the k" h2 rule: strdup_cases; auto split: if_splits)+
      show ?thesis
      proof (cases "k \<noteq> None \<and> k' = None")
        case True
        have "duplicate (CJson t c s i d k) recurse h = (None, cJSON_Delete [?x2] h3)"
          by (simp only: step s2 k3 if_not_P [OF s'] if_P [OF True])
        then show ?thesis using new f2 f3 s' True by (auto simp: copied_def)
      next
        case k': False
        let ?x3 = "CJson ?t [] s' i d k'"
        have l2: "s' = map_option c_str s" "live h2 = live h1 + of_bool (s \<noteq> None)"
          using f2(3) s' by blast+
        have l3: "k' = (if has_flag t cJSON_StringIsConst then k else map_option c_str k)"
          "live h3 = live h2 + of_bool (\<not> has_flag t cJSON_StringIsConst \<and> k \<noteq> None)"
          using f3(3) k' by blast+
        show ?thesis
        proof (cases recurse)
          case False
          have "duplicate (CJson t c s i d k) recurse h = (Some ?x3, h3)"
            by (simp only: step s2 k3 if_not_P [OF s'] if_not_P [OF k'] if_P [OF False])
          then show ?thesis using new(2,3) f3(1) False by (simp add: copied_def l2 l3)
        next
          case recurse: True
          obtain ys ok h4 where ys: "duplicate_children c [] h3 = (ys, ok, h4)" by (cases "duplicate_children c [] h3")
          have f4: "oom h4 = oom h3" "live h4 = live h3 + blocks ys" "ok \<longrightarrow> ys = map copy c" "\<not> ok \<longrightarrow> oom h3 \<noteq> (\<lambda>_. False)"
            using IH [OF new(1) s2 s' k3 k' recurse] ys by (auto split: if_splits)
          have "duplicate (CJson t c s i d k) recurse h =
              (if ok then (Some (CJson ?t ys s' i d k'), h4) else (None, cJSON_Delete [CJson ?t ys s' i d k'] h4))"
            by (simp only: step s2 k3 ys prod.case if_not_P [OF s'] if_not_P [OF k'] recurse not_True_eq_False if_False)
          then show ?thesis using new(2,3) f3(1) f4 recurse by (cases ok) (simp_all add: copied_def l2 l3)
        qed
      qed
    qed
  qed
next
  case (3 x xs acc h)
  obtain r h1 where d: "duplicate x True h = (r, h1)" by fastforce
  show ?case
  proof (cases r)
    case None
    then show ?thesis using d 3(1) by (simp add: copied_def)
  next
    case (Some y)
    then have "y = copy x" "oom h1 = oom h" "live h1 = live h + blocks [copy x]"
      using d 3(1) by (simp_all add: copied_def)
    then show ?thesis using 3(2) [OF d [symmetric] Some] d Some by (auto split: prod.splits if_splits)
  qed
qed simp

subsection \<open>Comparing\<close>

lemma child_size: "y \<in> set (child b) \<Longrightarrow> size y < size b"
  by (cases b) (auto simp: less_Suc_eq_le dest!: size_list_estimation' [where f = size, OF _ order_refl])

lemma find_in_children:
  "find_cs n xs = Some y \<Longrightarrow> y \<in> set xs" "find_ci n xs = Some y \<Longrightarrow> y \<in> set xs"
  by (induction xs) (auto split: option.splits if_splits)

lemma get_object_item_child: "get_object_item (Some b) n cs = Some y \<Longrightarrow> y \<in> set (child b)"
  by (auto simp: get_object_item_def find_in_children split: option.splits if_splits)

text \<open>
  Two items at different addresses; what hangs below them is not shared.  The array case walks
  both chains, the object case looks up the members of each object in the other one.
\<close>

function compare_items :: "bool \<Rightarrow> cJSON \<Rightarrow> cJSON \<Rightarrow> bool"
  and compare_elements :: "bool \<Rightarrow> cJSON list \<Rightarrow> cJSON list \<Rightarrow> bool" where
  "compare_items cs a b =
     (let t = kind (ctype a)
      in if t \<noteq> kind (ctype b) \<or> t = cJSON_Invalid then False
      else if t \<notin> {cJSON_False, cJSON_True, cJSON_NULL, cJSON_Number, cJSON_String, cJSON_Raw, cJSON_Array, cJSON_Object}
      then False
      else if t \<in> {cJSON_False, cJSON_True, cJSON_NULL} then True
      else if t = cJSON_Number then compare_double (valuedouble a) (valuedouble b)
      else if t \<in> {cJSON_String, cJSON_Raw}
      then (case (valuestring a, valuestring b) of (Some v, Some w) \<Rightarrow> strcmp v w = 0 | _ \<Rightarrow> False)
      else if t = cJSON_Array then compare_elements cs (child a) (child b)
      else list_all (\<lambda>x. case get_object_item (Some b) (item_string x) cs of
                           None \<Rightarrow> False | Some y \<Rightarrow> compare_items cs x y) (child a) \<and>
           list_all (\<lambda>y. case get_object_item (Some a) (item_string y) cs of
                           None \<Rightarrow> False | Some x \<Rightarrow> compare_items cs y x) (child b))"
| "compare_elements cs (x # xs) (y # ys) \<longleftrightarrow> compare_items cs x y \<and> compare_elements cs xs ys"
| "compare_elements cs [] [] \<longleftrightarrow> True"
| "compare_elements cs (x # xs) [] \<longleftrightarrow> False"
| "compare_elements cs [] (y # ys) \<longleftrightarrow> False"
  by pat_completeness auto
termination
proof (relation "measure (\<lambda>p. case p of Inl (_, a, b) \<Rightarrow> size a + size b | Inr (_, xs, ys) \<Rightarrow> size_list size xs + size_list size ys)", goal_cases)
  case (2 cs a b t)
  then show ?case by (cases a; cases b) simp
next
  case (3 cs a b t x y)
  then show ?case using child_size [of x a] get_object_item_child [of b "item_string x" cs y] child_size [of y b] by simp
next
  case (4 cs a b t y x)
  then show ?case using child_size [of y b] get_object_item_child [of a "item_string y" cs x] child_size [of x a] by simp
qed auto

declare compare_items.simps [simp del]

text \<open>The pointers, and whether they are the same.\<close>

definition cJSON_Compare :: "cJSON option \<Rightarrow> cJSON option \<Rightarrow> bool \<Rightarrow> bool \<Rightarrow> bool" where
  "cJSON_Compare a b same case_sensitive =
     (case (a, b) of
        (Some x, Some y) \<Rightarrow>
          if same then kind (ctype x) \<in> {cJSON_False, cJSON_True, cJSON_NULL, cJSON_Number, cJSON_String,
                                         cJSON_Raw, cJSON_Array, cJSON_Object}
          else compare_items case_sensitive x y
      | _ \<Rightarrow> False)"

text \<open>
  The trees that compare equal to their copies: the types are the proper ones, numbers are finite,
  strings have a value, and the members of an object have names that the comparison tells apart.
\<close>

definition name_key :: "bool \<Rightarrow> cJSON \<Rightarrow> bytes option" where
  "name_key cs x = map_option (if cs then c_str else map tolower \<circ> c_str) (item_string x)"

fun comparable :: "bool \<Rightarrow> cJSON \<Rightarrow> bool" where
  "comparable cs (CJson t c s i d k) \<longleftrightarrow>
     kind t \<in> {cJSON_False, cJSON_True, cJSON_NULL} \<or>
     kind t = cJSON_Number \<and> (\<exists>sg q. d = DFin sg q) \<or>
     kind t \<in> {cJSON_String, cJSON_Raw} \<and> s \<noteq> None \<or>
     kind t = cJSON_Array \<and> (\<forall>x \<in> set c. comparable cs x) \<or>
     kind t = cJSON_Object \<and> (\<forall>x \<in> set c. comparable cs x \<and> item_string x \<noteq> None) \<and> distinct (map (name_key cs) c)"

lemma kind_without_reference [simp]: "kind (t AND NOT cJSON_IsReference) = kind t"
proof -
  have "NOT 256 AND 0xFF = (0xFF :: 32 word)" by simp
  then show ?thesis by (simp only: kind_def ctype_defs and.assoc)
qed

lemmas kind_defs = cJSON_Invalid_def cJSON_False_def cJSON_True_def cJSON_NULL_def
  cJSON_Number_def cJSON_String_def cJSON_Array_def cJSON_Object_def cJSON_Raw_def

lemma copy_sel [simp]:
  "ctype (copy x) = ctype x AND NOT cJSON_IsReference" "child (copy x) = map copy (child x)"
  "valuestring (copy x) = map_option c_str (valuestring x)" "valuedouble (copy x) = valuedouble x"
  "name_key cs (copy x) = name_key cs x" "item_string (copy x) = None \<longleftrightarrow> item_string x = None"
  by (cases x; auto simp: name_key_def option.map_comp o_def split: if_splits)+

lemma key_strcmp:
  "item_string x = Some k \<Longrightarrow> (if cs then strcmp n k = 0 else case_insensitive_strcmp (Some n) (Some k) = 0) \<longleftrightarrow>
     name_key cs x = Some ((if cs then c_str else map tolower \<circ> c_str) n)"
  by (auto simp: name_key_def strcmp_eq_0_iff case_insensitive_strcmp_eq_0_iff)

lemma lookup_by_key:
  assumes "\<forall>y \<in> set (child b). item_string y \<noteq> None" and "distinct (map (name_key cs) (child b))"
    and "x \<in> set (child b)" and "item_string z \<noteq> None" and "name_key cs z = name_key cs x"
  shows "get_object_item (Some b) (item_string z) cs = Some x"
proof -
  obtain n where n: "item_string z = Some n" using assms(4) by auto
  have k: "name_key cs x = Some ((if cs then c_str else map tolower \<circ> c_str) n)"
    using assms(5) n by (simp add: name_key_def)
  have "(if cs then find_cs n xs else find_ci n xs) = Some x"
    if "\<forall>y \<in> set xs. item_string y \<noteq> None" "distinct (map (name_key cs) xs)" "x \<in> set xs" for xs
    using that
  proof (induction xs)
    case (Cons y ys)
    then obtain m where m: "item_string y = Some m" by auto
    show ?case
    proof (cases "y = x")
      case True
      then show ?thesis using key_strcmp [OF m, of cs n] k m by (auto split: if_splits)
    next
      case False
      then have "name_key cs y \<noteq> name_key cs x" using Cons.prems by (auto simp: image_iff)
      then show ?thesis using key_strcmp [OF m, of cs n] k m Cons False by (auto split: if_splits)
    qed
  qed simp
  from this [OF assms(1-3)] show ?thesis using n assms(1,3) by (simp add: get_object_item_def)
qed

lemma compare_double_refl: "compare_double (DFin s q) (DFin s q)"
proof -
  have "\<not> dbl_less (dbl_of_rat False (1 / 10 ^ 16)) (dbl_of_rat False 0)"
    using dbl_of_rat_not_below_zero [of "1 / 10 ^ 16" False] by (simp add: dbl_of_rat_def rnd53_def)
  then show ?thesis by (simp add: compare_double_def dbl_leq_def CJSON_DOUBLE_PRECISION_def)
qed

lemma compare_copy:
  assumes "comparable cs x"
  shows "compare_items cs x (copy x) \<and> compare_items cs (copy x) x"
  using assms
proof (induction x)
  case (CJson t c s i d k)
  let ?x = "CJson t c s i d k"
  have IH: "\<forall>y \<in> set c. comparable cs y \<longrightarrow> compare_items cs y (copy y) \<and> compare_items cs (copy y) y"
    using CJson.IH by blast
  from CJson.prems consider
    (plain) "kind t \<in> {cJSON_False, cJSON_True, cJSON_NULL}"
    | (number) sg q where "kind t = cJSON_Number" "d = DFin sg q"
    | (str) v where "kind t \<in> {cJSON_String, cJSON_Raw}" "s = Some v"
    | (arr) "kind t = cJSON_Array" "\<forall>x \<in> set c. comparable cs x"
    | (obj) "kind t = cJSON_Object" "\<forall>x \<in> set c. comparable cs x \<and> item_string x \<noteq> None" "distinct (map (name_key cs) c)"
    by auto
  then show ?case
  proof cases
    case plain
    then show ?thesis by (auto simp: compare_items.simps Let_def kind_defs)
  next
    case number
    then show ?thesis using compare_double_refl by (simp add: compare_items.simps Let_def kind_defs)
  next
    case str
    then show ?thesis by (auto simp: compare_items.simps Let_def kind_defs strcmp_eq_0_iff)
  next
    case arr
    have "compare_elements cs xs (map copy xs) \<and> compare_elements cs (map copy xs) xs"
      if "\<forall>y \<in> set xs. compare_items cs y (copy y) \<and> compare_items cs (copy y) y" for xs
      using that by (induction xs) auto
    then show ?thesis using arr IH by (simp add: compare_items.simps Let_def kind_defs)
  next
    case obj
    have there: "get_object_item (Some (copy ?x)) (item_string y) cs = Some (copy y)" if "y \<in> set c" for y
      by (rule lookup_by_key) (use obj that in \<open>auto simp: o_def simp del: not_None_eq\<close>)
    have here: "get_object_item (Some ?x) (item_string (copy y)) cs = Some y" if "y \<in> set c" for y
      by (rule lookup_by_key) (use obj that in \<open>auto simp del: not_None_eq\<close>)
    show ?thesis using obj IH there here
      by (subst (1 2) compare_items.simps) (simp add: Let_def kind_defs list_all_iff)
  qed
qed

text \<open>
  C23. Duplicating copies.  Whatever allocation fails, \<open>cJSON_Duplicate\<close> loses no block: it gives
  NULL and leaves the heap as it was, or it gives the copy and owns exactly the copy's blocks; it
  gives NULL only if an allocation fails.  A full copy of a tree whose numbers are finite, whose
  strings have values and whose member names differ compares equal to it, both ways round.
\<close>

theorem duplicate_exact:
  "\<exists>r h'. cJSON_Duplicate (Some x) recurse h = (r, h') \<and>
     (case r of
        None \<Rightarrow> live h' = live h \<and> oom h \<noteq> (\<lambda>_. False)
      | Some y \<Rightarrow> y = (if recurse then copy x else set_child [] (copy x)) \<and> live h' = live h + blocks [y] \<and>
          (recurse \<and> comparable cs x \<longrightarrow>
             cJSON_Compare (Some x) (Some y) False cs \<and> cJSON_Compare (Some y) (Some x) False cs))"
proof -
  obtain r h' where d: "duplicate x recurse h = (r, h')" by fastforce
  have "copied (if recurse then copy x else set_child [] (copy x)) h (r, h')"
    using duplicate_copies(1) [of recurse x h] d by simp
  then show ?thesis using d compare_copy [of cs x]
    by (auto simp: cJSON_Duplicate_def cJSON_Compare_def copied_def split: option.splits)
qed

lemma duplicate_exact_witness:
  "\<exists>h'. cJSON_Duplicate (Some (CJson cJSON_Array [CJson cJSON_True [] None 1 (DFin False 0) None] None 0 (DFin False 0) None)) True fresh_heap
      = (Some (CJson cJSON_Array [CJson cJSON_True [] None 1 (DFin False 0) None] None 0 (DFin False 0) None), h') \<and>
    cJSON_Compare (Some (CJson cJSON_Array [CJson cJSON_True [] None 1 (DFin False 0) None] None 0 (DFin False 0) None))
      (Some (CJson cJSON_Array [CJson cJSON_True [] None 1 (DFin False 0) None] None 0 (DFin False 0) None)) False True"
proof -
  let ?x = "CJson cJSON_Array [CJson cJSON_True [] None 1 (DFin False 0) None] None 0 (DFin False 0) None"
  have "copy ?x = ?x" "comparable True ?x" by (simp_all add: ctype_defs has_flag_def kind_def)
  then show ?thesis
    using duplicate_exact [of ?x True fresh_heap True] by (auto simp: fresh_heap_def split: option.splits)
qed

end
