(* ===== verification/CUtilsSort.thy ===== *)
theory CUtilsSort
  imports CUtilsPointer CJsonCopy "HOL-Library.Multiset"
begin

section \<open>cJSON utilities: sorting members and comparing documents\<close>

text \<open>
  \<open>sort_list\<close>, \<open>sort_object\<close> and \<open>compare_json\<close> of \<open>cJSON_Utils.c\<close> on lists of children.  The
  merge sort relinks the nodes; as a list its result is a permutation of its argument.  The list
  model takes for granted that every child but the first has its \<open>prev\<close> set, without which
  the code would not split the list.
\<close>

subsection \<open>The merge sort\<close>

definition name_diff :: "bool \<Rightarrow> cJSON \<Rightarrow> cJSON \<Rightarrow> int" where
  "name_diff cs x y = compare_strings (item_string x) (item_string y) cs"

text \<open>The test for a list that is sorted already.\<close>

fun ascending :: "bool \<Rightarrow> cJSON list \<Rightarrow> bool" where
  "ascending cs (x # y # xs) \<longleftrightarrow> name_diff cs x y < 0 \<and> ascending cs (y # xs)"
| "ascending cs xs \<longleftrightarrow> True"

text \<open>How far \<open>second\<close> gets while \<open>current_item\<close> moves two steps at a time.\<close>

fun middle :: "nat \<Rightarrow> nat" where
  "middle 0 = 0"
| "middle (Suc 0) = 1"
| "middle (Suc (Suc n)) = Suc (middle n)"

fun merge_lists :: "bool \<Rightarrow> cJSON list \<Rightarrow> cJSON list \<Rightarrow> cJSON list" where
  "merge_lists cs (x # xs) (y # ys) =
     (if name_diff cs x y < 0 then x # merge_lists cs xs (y # ys) else y # merge_lists cs (x # xs) ys)"
| "merge_lists cs [] ys = ys"
| "merge_lists cs xs [] = xs"

lemma middle_bounds: "middle n \<le> n" "2 \<le> n \<Longrightarrow> 0 < middle n \<and> middle n < n"
proof -
  show le: "middle n \<le> n" for n by (induction n rule: middle.induct) auto
  show "2 \<le> n \<Longrightarrow> 0 < middle n \<and> middle n < n"
    using le [of "n - 2"] by (cases n rule: middle.cases) auto
qed

function sort_list :: "bool \<Rightarrow> cJSON list \<Rightarrow> cJSON list" where
  "sort_list cs xs =
     (if length xs < 2 \<or> ascending cs xs then xs
      else merge_lists cs (sort_list cs (take (middle (length xs)) xs)) (sort_list cs (drop (middle (length xs)) xs)))"
  by pat_completeness auto
termination
proof (relation "measure (\<lambda>(cs, xs). length xs)", goal_cases)
  case (2 cs xs)
  then show ?case using middle_bounds(2) [of "length xs"] by simp
next
  case (3 cs xs)
  then show ?case using middle_bounds(2) [of "length xs"] by simp arith
qed simp

declare sort_list.simps [simp del]

definition sort_object :: "cJSON option \<Rightarrow> bool \<Rightarrow> cJSON option" where
  "sort_object object case_sensitive =
     map_option (\<lambda>x. set_child (sort_list case_sensitive (child x)) x) object"

definition cJSONUtils_SortObject :: "cJSON option \<Rightarrow> cJSON option" where
  "cJSONUtils_SortObject object = sort_object object False"

definition cJSONUtils_SortObjectCaseSensitive :: "cJSON option \<Rightarrow> cJSON option" where
  "cJSONUtils_SortObjectCaseSensitive object = sort_object object True"

lemma mset_merge: "mset (merge_lists cs xs ys) = mset xs + mset ys"
  by (induction cs xs ys rule: merge_lists.induct) auto

lemma mset_sort_list: "mset (sort_list cs xs) = mset xs"
proof (induction cs xs rule: sort_list.induct)
  case (1 cs xs)
  have "mset (take n xs) + mset (drop n xs) = mset xs" for n
    by (simp only: mset_append [symmetric] append_take_drop_id)
  then show ?case using 1 by (subst sort_list.simps) (simp add: mset_merge)
qed

subsection \<open>The order of names\<close>

lemma strcmp_aux_trans:
  "strcmp_aux s t \<le> 0 \<Longrightarrow> strcmp_aux t u \<le> 0 \<Longrightarrow> NUL \<notin> set t \<Longrightarrow> NUL \<notin> set s \<Longrightarrow> strcmp_aux s u \<le> 0"
proof (induction s t arbitrary: u rule: strcmp_aux.induct)
  case (4 c s d t)
  show ?case
  proof (cases u)
    case Nil
    then show ?thesis using 4 by (auto simp: byte_simps split: if_splits)
  next
    case (Cons e v)
    then show ?thesis using 4 by (auto split: if_splits)
  qed
next
  case (1 )
  then show ?case by simp
next
  case (2 d t)
  then show ?case by (cases u) auto
next
  case (3 c s)
  then show ?case by (auto simp: byte_simps)
qed

lemma ci_loop_strcmp: "ci_loop s t = strcmp_aux (map tolower s) (map tolower t)"
  by (induction s t rule: ci_loop.induct) auto

definition order_key :: "bool \<Rightarrow> cJSON \<Rightarrow> bytes" where
  "order_key cs x = (if cs then c_str (the (item_string x)) else map tolower (c_str (the (item_string x))))"

lemma order_key_no_NUL: "NUL \<notin> set (order_key cs x)"
proof -
  have "NUL \<notin> set (map tolower (c_str v))" for v
    using NUL_notin_c_str [of v] by (auto simp: tolower_eq_NUL_iff dest: sym)
  then show ?thesis by (simp add: order_key_def)
qed

lemma name_diff_key:
  "item_string x \<noteq> None \<Longrightarrow> item_string y \<noteq> None \<Longrightarrow> name_diff cs x y = strcmp_aux (order_key cs x) (order_key cs y)"
  by (auto simp: name_diff_def compare_strings_def order_key_def strcmp_def ci_loop_strcmp)

definition name_le :: "bool \<Rightarrow> cJSON \<Rightarrow> cJSON \<Rightarrow> bool" where
  "name_le cs x y \<longleftrightarrow> strcmp_aux (order_key cs x) (order_key cs y) \<le> 0"

lemma name_le_trans: "name_le cs x y \<Longrightarrow> name_le cs y z \<Longrightarrow> name_le cs x z"
  unfolding name_le_def using strcmp_aux_trans [OF _ _ order_key_no_NUL order_key_no_NUL] by blast

lemma sorted_merge:
  assumes "sorted_wrt (name_le cs) xs" and "sorted_wrt (name_le cs) ys"
    and "\<forall>x \<in> set xs \<union> set ys. item_string x \<noteq> None"
  shows "sorted_wrt (name_le cs) (merge_lists cs xs ys)"
  using assms
proof (induction cs xs ys rule: merge_lists.induct)
  case (1 cs x xs y ys)
  have d: "name_diff cs x y = strcmp_aux (order_key cs x) (order_key cs y)"
    using 1(5) by (intro name_diff_key) auto
  have set: "set (merge_lists cs us vs) = set us \<union> set vs" for us vs
    by (metis mset_merge set_mset_mset set_mset_union)
  show ?case
  proof (cases "name_diff cs x y < 0")
    case True
    then have le: "name_le cs x y" using d by (simp add: name_le_def)
    then have "\<forall>z \<in> set xs \<union> set (y # ys). name_le cs x z" using 1(3,4) name_le_trans [OF le] by auto
    then show ?thesis using 1(1) [OF True] 1(3-5) True by (auto simp: set)
  next
    case False
    then have le: "name_le cs y x" using d strcmp_aux_anti [of "order_key cs x" "order_key cs y"] by (simp add: name_le_def)
    then have "\<forall>z \<in> set (x # xs) \<union> set ys. name_le cs y z" using 1(3,4) name_le_trans [OF le] by auto
    then show ?thesis using 1(2) [OF False] 1(3-5) False by (auto simp: set)
  qed
qed auto

lemma ascending_sorted:
  "ascending cs xs \<Longrightarrow> \<forall>x \<in> set xs. item_string x \<noteq> None \<Longrightarrow> sorted_wrt (name_le cs) xs"
proof (induction cs xs rule: ascending.induct)
  case (1 cs x y xs)
  have "name_diff cs x y = strcmp_aux (order_key cs x) (order_key cs y)"
    using 1(3) by (intro name_diff_key) auto
  then have le: "name_le cs x y" using 1(2) by (simp add: name_le_def)
  then show ?case using 1 name_le_trans [OF le] by auto
qed auto

lemma sorted_sort_list:
  "\<forall>x \<in> set xs. item_string x \<noteq> None \<Longrightarrow> sorted_wrt (name_le cs) (sort_list cs xs)"
proof (induction cs xs rule: sort_list.induct)
  case (1 cs xs)
  show ?case
  proof (cases "length xs < 2 \<or> ascending cs xs")
    case True
    moreover have "length xs < 2 \<Longrightarrow> sorted_wrt (name_le cs) xs" by (cases xs; cases "tl xs") auto
    ultimately show ?thesis using ascending_sorted 1(3) by (subst sort_list.simps) auto
  next
    case False
    have set: "set (sort_list cs us) = set us" for us by (metis mset_sort_list set_mset_mset)
    have "sorted_wrt (name_le cs) (sort_list cs (take (middle (length xs)) xs))"
      "sorted_wrt (name_le cs) (sort_list cs (drop (middle (length xs)) xs))"
      using 1(1,2) [OF False] 1(3) by (auto dest: in_set_takeD in_set_dropD)
    moreover have "\<forall>x \<in> set (take n xs) \<union> set (drop n xs). item_string x \<noteq> None" for n
      using 1(3) by (metis Un_iff in_set_dropD in_set_takeD)
    ultimately show ?thesis using False
      by (subst sort_list.simps) (simp add: sorted_merge set)
  qed
qed

text \<open>
  Sorting the members of an object sorts: for members that have names, the result holds the
  same items and their names ascend in the order of \<open>strcmp\<close>, or of lower-case letters.
\<close>

theorem sort_object_sorts:
  assumes "\<forall>y \<in> set (child x). item_string y \<noteq> None"
  shows "\<exists>y. sort_object (Some x) cs = Some y \<and> mset (child y) = mset (child x) \<and>
    sorted_wrt (\<lambda>a b. compare_strings (item_string a) (item_string b) cs \<le> 0) (child y)"
proof -
  let ?ys = "sort_list cs (child x)"
  have "set ?ys = set (child x)" by (metis mset_sort_list set_mset_mset)
  moreover have "sorted_wrt (name_le cs) ?ys" by (rule sorted_sort_list [OF assms])
  ultimately have "sorted_wrt (\<lambda>a b. compare_strings (item_string a) (item_string b) cs \<le> 0) ?ys"
    using assms by (auto intro: sorted_wrt_mono_rel [rotated] simp: name_le_def name_diff_key [symmetric] name_diff_def)
  then show ?thesis by (simp add: sort_object_def mset_sort_list)
qed

lemma sort_object_sorts_witness:
  "\<exists>y. sort_object (Some (CJson cJSON_Object [CJson cJSON_True [] None 1 (DFin False 0) (Some ''b''),
      CJson cJSON_True [] None 1 (DFin False 0) (Some ''a'')] None 0 (DFin False 0) None)) True = Some y \<and>
    map item_string (child y) = [Some ''a'', Some ''b'']"
proof -
  let ?x = "CJson cJSON_Object [CJson cJSON_True [] None 1 (DFin False 0) (Some ''b''),
      CJson cJSON_True [] None 1 (DFin False 0) (Some ''a'')] None 0 (DFin False 0) None"
  have "sort_object (Some ?x) True \<noteq> None" using sort_object_sorts [of ?x True] by auto
  moreover have "map_option (\<lambda>y. map item_string (child y)) (sort_object (Some ?x) True) = Some [Some ''a'', Some ''b'']"
    by code_simp
  ultimately show ?thesis by auto
qed

subsection \<open>Comparing documents\<close>

text \<open>
  Both trees come back, because the members of the objects that were compared are sorted in
  place; \<open>None\<close> is a string item without a string.  The flag of \<open>compare_members\<close> says whether the
  names are compared too.
\<close>

lemma size_list_sort: "size_list size (sort_list cs xs) = size_list size xs"
proof -
  have "size_list size ys = sum_mset (image_mset size (mset ys)) + length ys" for ys :: "cJSON list"
    by (induction ys) auto
  then show ?thesis by (metis mset_eq_length mset_sort_list)
qed

lemma size_child: "size_list size (child x) < size x"
  by (cases x) simp

function compare_json :: "bool \<Rightarrow> cJSON \<Rightarrow> cJSON \<Rightarrow> (bool \<times> cJSON \<times> cJSON) option"
  and compare_members :: "bool \<Rightarrow> bool \<Rightarrow> cJSON list \<Rightarrow> cJSON list \<Rightarrow> (bool \<times> cJSON list \<times> cJSON list) option" where
  "compare_json cs a b =
     (if kind (ctype a) \<noteq> kind (ctype b) then Some (False, a, b)
      else if kind (ctype a) = cJSON_Number
      then Some (valueint a = valueint b \<and> compare_double (valuedouble a) (valuedouble b), a, b)
      else if kind (ctype a) = cJSON_String
      then (case (valuestring a, valuestring b) of
              (Some v, Some w) \<Rightarrow> Some (strcmp v w = 0, a, b) | _ \<Rightarrow> None)
      else if kind (ctype a) = cJSON_Array
      then map_option (\<lambda>(r, xs, ys). (r, set_child xs a, set_child ys b)) (compare_members cs False (child a) (child b))
      else if kind (ctype a) = cJSON_Object
      then map_option (\<lambda>(r, xs, ys). (r, set_child xs a, set_child ys b))
             (compare_members cs True (sort_list cs (child a)) (sort_list cs (child b)))
      else Some (True, a, b))"
| "compare_members cs keys (x # xs) (y # ys) =
     (if keys \<and> name_diff cs x y \<noteq> 0 then Some (False, x # xs, y # ys)
      else do {
        (r, x', y') \<leftarrow> compare_json cs x y;
        if \<not> r then Some (False, x' # xs, y' # ys)
        else do { (r, xs', ys') \<leftarrow> compare_members cs keys xs ys; Some (r, x' # xs', y' # ys') } })"
| "compare_members cs keys [] [] = Some (True, [], [])"
| "compare_members cs keys (x # xs) [] = Some (False, x # xs, [])"
| "compare_members cs keys [] (y # ys) = Some (False, [], y # ys)"
  by pat_completeness auto
termination
  by (relation "measure (\<lambda>p. case p of Inl (cs, a, b) \<Rightarrow> size a + size b
      | Inr (cs, k, xs, ys) \<Rightarrow> size_list size xs + size_list size ys)")
    (auto simp: size_list_sort intro: add_strict_mono size_child)

declare compare_json.simps [simp del]

end
