(* ===== verification/CUtilsGenerate.thy ===== *)
theory CUtilsGenerate
  imports CUtilsSort
begin

section \<open>cJSON utilities: generating patches\<close>

text \<open>
  \<open>create_patches\<close> and \<open>generate_merge_patch\<close> of \<open>cJSON_Utils.c\<close> on trees: the list of patches
  (RFC 6902) or the merge patch (RFC 7396) that leads from one document to another.  Both documents
  come back, because their members are sorted on the way; \<open>None\<close> is undefined behaviour of the
  C code (a string item without a string, a write through a failed allocation).  The reference is
  the meaning RFC 6902 gives to a patch, on documents whose members are maps.
\<close>

subsection \<open>Composing one patch\<close>

text \<open>A fresh block holds anything: \<open>junk n i\<close> is byte \<open>i\<close> of the block of the \<open>n\<close>-th allocation.\<close>

type_synonym garbage = "nat \<Rightarrow> nat \<Rightarrow> char"

definition malloc_block :: "garbage \<Rightarrow> nat \<Rightarrow> heap \<Rightarrow> bytes option \<times> heap" where
  "malloc_block junk n h =
     (let (ok, h') = malloc h in (if ok then Some (map (junk (allocs h)) [0..<n]) else None, h'))"

text \<open>\<open>cJSON_AddItemToObject\<close> and \<open>cJSON_AddItemToArray\<close> for items that were just created.\<close>

definition add_to_object :: "cJSON \<Rightarrow> bytes \<Rightarrow> cJSON option \<Rightarrow> heap \<Rightarrow> cJSON \<times> heap" where
  "add_to_object object name item h =
     (case item of
        None \<Rightarrow> (object, h)
      | Some x \<Rightarrow>
          case cJSON_strdup (Some name) h of
            (None, h) \<Rightarrow> (object, h)
          | (Some k, h) \<Rightarrow>
              let h = (if \<not> has_flag (ctype x) cJSON_StringIsConst \<and> item_string x \<noteq> None then dealloc h else h);
                  x = set_ctype (ctype x AND NOT cJSON_StringIsConst) (set_item_string (Some k) x)
              in (set_child (child object @ [x]) object, h))"

definition add_to_array :: "cJSON \<Rightarrow> cJSON \<Rightarrow> cJSON" where
  "add_to_array array item = set_child (child array @ [item]) array"

text \<open>
  A path with one more token: \<open>sprintf\<close> writes the path and a slash into a block of just the size
  needed, and the name is encoded behind them.
\<close>

definition extended_path :: "garbage \<Rightarrow> bytes \<Rightarrow> bytes \<Rightarrow> heap \<Rightarrow> (bytes \<times> heap) option" where
  "extended_path junk path name h =
     (let n = length (c_str path) + pointer_encoded_length (c_str name) + 2; (b, h) = malloc_block junk n h
      in do {
        b \<leftarrow> b;
        b \<leftarrow> encode_string_as_pointer
               (c_str path @ CHR ''/'' # NUL # drop (length (c_str path) + 2) b) (length (c_str path) + 1) (c_str name);
        Some (b, h) })"

text \<open>The members \<open>path\<close> and \<open>value\<close> of a patch; \<open>sfx\<close> is the argument \<open>suffix\<close>.\<close>

definition add_path :: "garbage \<Rightarrow> bytes \<Rightarrow> bytes option \<Rightarrow> cJSON \<Rightarrow> heap \<Rightarrow> (cJSON \<times> heap) option" where
  "add_path junk path sfx patch h =
     (case sfx of
        None \<Rightarrow> (let (s, h) = cJSON_CreateString (Some path) h in Some (add_to_object patch ''path'' s h))
      | Some n \<Rightarrow> do {
          (full, h) \<leftarrow> extended_path junk path n h;
          let (s, h) = cJSON_CreateString (Some full) h;
          let (patch, h) = add_to_object patch ''path'' s h;
          Some (patch, dealloc h) })"

definition add_value :: "cJSON option \<Rightarrow> cJSON \<Rightarrow> heap \<Rightarrow> cJSON \<times> heap" where
  "add_value value patch h =
     (if value = None then (patch, h)
      else let (v, h) = cJSON_Duplicate value True h in add_to_object patch ''value'' v h)"

definition compose_patch ::
    "garbage \<Rightarrow> cJSON option \<Rightarrow> bytes option \<Rightarrow> bytes option \<Rightarrow> bytes option \<Rightarrow> cJSON option \<Rightarrow> heap
     \<Rightarrow> (cJSON option \<times> heap) option" where
  "compose_patch junk patches operation path sfx value h =
     (case (patches, operation, path) of
        (Some ps, Some opn, Some p) \<Rightarrow>
          (case cJSON_CreateObject h of
             (None, h) \<Rightarrow> Some (Some ps, h)
           | (Some patch, h) \<Rightarrow>
               let (s, h) = cJSON_CreateString (Some opn) h; (patch, h) = add_to_object patch ''op'' s h
               in do {
                 (patch, h) \<leftarrow> add_path junk p sfx patch h;
                 let (patch, h) = add_value value patch h;
                 Some (Some (add_to_array ps patch), h) })
      | _ \<Rightarrow> Some (patches, h))"

definition cJSONUtils_AddPatchToArray ::
    "garbage \<Rightarrow> cJSON option \<Rightarrow> bytes option \<Rightarrow> bytes option \<Rightarrow> cJSON option \<Rightarrow> heap \<Rightarrow> (cJSON option \<times> heap) option" where
  "cJSONUtils_AddPatchToArray junk array operation path value h =
     compose_patch junk array operation path None value h"

subsection \<open>Creating patches\<close>

text \<open>
  \<open>room\<close> is the size of the block \<open>new_path\<close> of the array case, \<open>None\<close> when it could not be allocated;
  \<open>print_index\<close> is the \<open>sprintf\<close> into it.
\<close>

definition print_index :: "nat option \<Rightarrow> bytes \<Rightarrow> bytes option" where
  "print_index room s = (case room of None \<Rightarrow> None | Some n \<Rightarrow> if length s < n then Some s else None)"

definition member_order :: "bool \<Rightarrow> cJSON list \<Rightarrow> cJSON list \<Rightarrow> int" where
  "member_order cs xs ys =
     (case (xs, ys) of ([], _) \<Rightarrow> 1 | (_, []) \<Rightarrow> - 1 | (x # _, y # _) \<Rightarrow> name_diff cs x y)"

lemma member_sizes:
  "\<not> (xs = [] \<and> ys = []) \<Longrightarrow> member_order cs xs ys = 0 \<Longrightarrow>
     size (hd xs) + size (hd ys) < size_list size xs + size_list size ys \<and>
     size_list size (tl xs) + size_list size (tl ys) < size_list size xs + size_list size ys"
  "member_order cs xs ys < 0 \<Longrightarrow> size_list size (tl xs) < size_list size xs"
  "\<not> (xs = [] \<and> ys = []) \<Longrightarrow> member_order cs xs ys \<noteq> 0 \<Longrightarrow> \<not> member_order cs xs ys < 0 \<Longrightarrow>
     size_list size (tl ys) < size_list size ys"
  by (cases xs; cases ys; auto simp: member_order_def)+

function create_patches ::
    "garbage \<Rightarrow> bool \<Rightarrow> cJSON option \<Rightarrow> bytes \<Rightarrow> cJSON \<Rightarrow> cJSON \<Rightarrow> heap
     \<Rightarrow> (cJSON option \<times> cJSON \<times> cJSON \<times> heap) option"
  and array_patches ::
    "garbage \<Rightarrow> bool \<Rightarrow> cJSON option \<Rightarrow> bytes \<Rightarrow> nat option \<Rightarrow> nat \<Rightarrow> cJSON list \<Rightarrow> cJSON list \<Rightarrow> heap
     \<Rightarrow> (cJSON option \<times> cJSON list \<times> cJSON list \<times> heap) option"
  and object_patches ::
    "garbage \<Rightarrow> bool \<Rightarrow> cJSON option \<Rightarrow> bytes \<Rightarrow> cJSON list \<Rightarrow> cJSON list \<Rightarrow> heap
     \<Rightarrow> (cJSON option \<times> cJSON list \<times> cJSON list \<times> heap) option" where
  "create_patches junk cs ps path a b h =
     (let replace = do { (ps, h) \<leftarrow> compose_patch junk ps (Some ''replace'') (Some path) None (Some b) h; Some (ps, a, b, h) }
      in if kind (ctype a) \<noteq> kind (ctype b) then replace
      else if kind (ctype a) = cJSON_Number
      then (if valueint a \<noteq> valueint b \<or> \<not> compare_double (valuedouble a) (valuedouble b) then replace
            else Some (ps, a, b, h))
      else if kind (ctype a) = cJSON_String
      then (case (valuestring a, valuestring b) of
              (Some v, Some w) \<Rightarrow> if strcmp v w \<noteq> 0 then replace else Some (ps, a, b, h)
            | _ \<Rightarrow> None)
      else if kind (ctype a) = cJSON_Array
      then (let (ok, h) = malloc h; room = (if ok then Some (length (c_str path) + 22) else None)
            in do { (ps, xs, ys, h) \<leftarrow> array_patches junk cs ps path room 0 (child a) (child b) h;
                    Some (ps, set_child xs a, set_child ys b, if ok then dealloc h else h) })
      else if kind (ctype a) = cJSON_Object
      then do { (ps, xs, ys, h) \<leftarrow> object_patches junk cs ps path (sort_list cs (child a)) (sort_list cs (child b)) h;
                Some (ps, set_child xs a, set_child ys b, h) }
      else Some (ps, a, b, h))"
| "array_patches junk cs ps path room i (x # xs) (y # ys) h =
     do {
       new_path \<leftarrow> print_index room (c_str path @ CHR ''/'' # show_nat i);
       (ps, x, y, h) \<leftarrow> create_patches junk cs ps new_path x y h;
       (ps, xs, ys, h) \<leftarrow> array_patches junk cs ps path room (i + 1) xs ys h;
       Some (ps, x # xs, y # ys, h) }"
| "array_patches junk cs ps path room i (x # xs) [] h =
     do {
       new_path \<leftarrow> print_index room (show_nat i);
       (ps, h) \<leftarrow> compose_patch junk ps (Some ''remove'') (Some path) (Some new_path) None h;
       (ps, xs, ys, h) \<leftarrow> array_patches junk cs ps path room i xs [] h;
       Some (ps, x # xs, ys, h) }"
| "array_patches junk cs ps path room i [] (y # ys) h =
     do {
       (ps, h) \<leftarrow> compose_patch junk ps (Some ''add'') (Some path) (Some ''-'') (Some y) h;
       (ps, xs, ys, h) \<leftarrow> array_patches junk cs ps path room (i + 1) [] ys h;
       Some (ps, xs, y # ys, h) }"
| "array_patches junk cs ps path room i [] [] h = Some (ps, [], [], h)"
| "object_patches junk cs ps path xs ys h =
     (if xs = [] \<and> ys = [] then Some (ps, [], [], h)
      else if member_order cs xs ys = 0
      then do {
        name \<leftarrow> item_string (hd xs);
        (new_path, h) \<leftarrow> extended_path junk path name h;
        (ps, x, y, h) \<leftarrow> create_patches junk cs ps new_path (hd xs) (hd ys) h;
        (ps, xs, ys, h) \<leftarrow> object_patches junk cs ps path (tl xs) (tl ys) (dealloc h);
        Some (ps, x # xs, y # ys, h) }
      else if member_order cs xs ys < 0
      then do {
        (ps, h) \<leftarrow> compose_patch junk ps (Some ''remove'') (Some path) (item_string (hd xs)) None h;
        (ps, xs', ys, h) \<leftarrow> object_patches junk cs ps path (tl xs) ys h;
        Some (ps, hd xs # xs', ys, h) }
      else do {
        (ps, h) \<leftarrow> compose_patch junk ps (Some ''add'') (Some path) (item_string (hd ys)) (Some (hd ys)) h;
        (ps, xs, ys', h) \<leftarrow> object_patches junk cs ps path xs (tl ys) h;
        Some (ps, xs, hd ys # ys', h) })"
  by pat_completeness auto

termination
  by (relation "measure (\<lambda>p. case p of Inl (j, cs, ps, path, a, b, h) \<Rightarrow> size a + size b
    | Inr (Inl (j, cs, ps, path, r, i, xs, ys, h)) \<Rightarrow> size_list size xs + size_list size ys
    | Inr (Inr (j, cs, ps, path, xs, ys, h)) \<Rightarrow> size_list size xs + size_list size ys)")
    (simp_all add: size_list_sort member_sizes add_strict_mono size_child)

declare create_patches.simps [simp del] object_patches.simps [simp del]

definition cJSONUtils_GeneratePatches ::
    "garbage \<Rightarrow> cJSON option \<Rightarrow> cJSON option \<Rightarrow> heap \<Rightarrow> (cJSON option \<times> cJSON option \<times> cJSON option \<times> heap) option" where
  "cJSONUtils_GeneratePatches junk from to h =
     (case (from, to) of
        (Some a, Some b) \<Rightarrow>
          (let (ps, h) = cJSON_CreateArray h
           in do { (ps, a, b, h) \<leftarrow> create_patches junk False ps [] a b h; Some (ps, Some a, Some b, h) })
      | _ \<Rightarrow> Some (None, from, to, h))"

definition cJSONUtils_GeneratePatchesCaseSensitive ::
    "garbage \<Rightarrow> cJSON option \<Rightarrow> cJSON option \<Rightarrow> heap \<Rightarrow> (cJSON option \<times> cJSON option \<times> cJSON option \<times> heap) option" where
  "cJSONUtils_GeneratePatchesCaseSensitive junk from to h =
     (case (from, to) of
        (Some a, Some b) \<Rightarrow>
          (let (ps, h) = cJSON_CreateArray h
           in do { (ps, a, b, h) \<leftarrow> create_patches junk True ps [] a b h; Some (ps, Some a, Some b, h) })
      | _ \<Rightarrow> Some (None, from, to, h))"

subsection \<open>Generating merge patches\<close>

text \<open>
  Merge patches.  \<open>None\<close> is a comparison of a missing name, or the access to the object that could
  not be allocated; the recursion goes through the public function and is case-insensitive.
\<close>

lemma compare_json_size:
  "compare_json cs a b = Some (r, a', b') \<Longrightarrow> size a' = size a \<and> size b' = size b"
  "compare_members cs keys xs ys = Some (r, xs', ys') \<Longrightarrow>
     size_list size xs' = size_list size xs \<and> size_list size ys' = size_list size ys"
proof (induction cs a b and cs keys xs ys arbitrary: r a' b' and r xs' ys' rule: compare_json_compare_members.induct)
  case (1 cs a b)
  have set: "size_list size us = size_list size (child x) \<Longrightarrow> size (set_child us x) = size x" for us x
    by (cases x) simp
  consider (array) "kind (ctype a) = kind (ctype b)" "kind (ctype a) = cJSON_Array"
    | (object) "kind (ctype a) = kind (ctype b)" "kind (ctype a) = cJSON_Object"
    | (plain) "kind (ctype a) \<noteq> kind (ctype b) \<or> kind (ctype a) \<notin> {cJSON_Array, cJSON_Object}" by blast
  then show ?case
  proof cases
    case array
    then obtain xs ys where "compare_members cs False (child a) (child b) = Some (r, xs, ys)"
      "a' = set_child xs a" "b' = set_child ys b"
      using 1(3) unfolding compare_json.simps [of cs a b] by (auto simp: kind_defs)
    then show ?thesis using 1(1) array set by (simp add: kind_defs)
  next
    case object
    then obtain xs ys where "compare_members cs True (sort_list cs (child a)) (sort_list cs (child b)) = Some (r, xs, ys)"
      "a' = set_child xs a" "b' = set_child ys b"
      using 1(3) unfolding compare_json.simps [of cs a b] by (auto simp: kind_defs)
    then show ?thesis using 1(2) object set by (simp add: kind_defs size_list_sort)
  next
    case plain
    then show ?thesis using 1(3) unfolding compare_json.simps [of cs a b]
      by (auto split: if_splits option.splits)
  qed
next
  case (2 cs keys x xs y ys)
  then show ?case by (auto split: if_splits bind_splits prod.splits)
qed auto

definition add_or_lose :: "cJSON option \<Rightarrow> bytes option \<Rightarrow> cJSON option \<Rightarrow> heap \<Rightarrow> cJSON option \<times> heap" where
  "add_or_lose patch name item h =
     (case (patch, name) of
        (Some p, Some n) \<Rightarrow> (let (p, h) = add_to_object p n item h in (Some p, h))
      | _ \<Rightarrow> (patch, h))"

definition merge_order :: "cJSON list \<Rightarrow> cJSON list \<Rightarrow> int option" where
  "merge_order xs ys =
     (case (xs, ys) of
        ([], _) \<Rightarrow> Some 1
      | (_, []) \<Rightarrow> Some (- 1)
      | (x # _, y # _) \<Rightarrow> do { a \<leftarrow> item_string x; b \<leftarrow> item_string y; Some (strcmp a b) })"

lemma merge_order_sizes:
  assumes "xs \<noteq> [] \<or> ys \<noteq> []" and "merge_order xs ys = Some d"
  shows "d < 0 \<Longrightarrow> size_list size (tl xs) < size_list size xs"
    and "0 < d \<Longrightarrow> size_list size (tl ys) < size_list size ys"
    and "\<not> d < 0 \<Longrightarrow> \<not> 0 < d \<Longrightarrow> size (hd xs) + size (hd ys) < size_list size xs + size_list size ys"
    and "\<not> d < 0 \<Longrightarrow> \<not> 0 < d \<Longrightarrow> size_list size (tl xs) + size_list size (tl ys) < size_list size xs + size_list size ys"
  using assms by (cases xs; cases ys; auto simp: merge_order_def)+

lemmas merge_order_step = merge_order_sizes [OF disjI1] merge_order_sizes [OF disjI2]

function generate_merge_patch ::
    "bool \<Rightarrow> cJSON option \<Rightarrow> cJSON option \<Rightarrow> heap \<Rightarrow> (cJSON option \<times> cJSON option \<times> cJSON option \<times> heap) option"
  and merge_members ::
    "bool \<Rightarrow> cJSON option \<Rightarrow> cJSON list \<Rightarrow> cJSON list \<Rightarrow> heap \<Rightarrow> (cJSON option \<times> cJSON list \<times> cJSON list \<times> heap) option" where
  "generate_merge_patch cs from to h =
     (case to of
        None \<Rightarrow> (let (n, h) = cJSON_CreateNull h in Some (n, from, to, h))
      | Some b \<Rightarrow>
          (case from of
             None \<Rightarrow> (let (d, h) = cJSON_Duplicate to True h in Some (d, from, to, h))
           | Some a \<Rightarrow>
               if \<not> cJSON_IsObject to \<or> \<not> cJSON_IsObject from
               then (let (d, h) = cJSON_Duplicate to True h in Some (d, from, to, h))
               else (let (patch, h) = cJSON_CreateObject h
                     in do {
                       (patch, xs, ys, h) \<leftarrow> merge_members cs patch (sort_list cs (child a)) (sort_list cs (child b)) h;
                       p \<leftarrow> patch;
                       let from = Some (set_child xs a);
                       let to = Some (set_child ys b);
                       Some (if child p = [] then (None, from, to, cJSON_Delete [p] h) else (Some p, from, to, h)) })))"
| "merge_members cs patch xs ys h =
     (if xs = [] \<and> ys = [] then Some (patch, [], [], h)
      else do {
        diff \<leftarrow> merge_order xs ys;
        if diff < 0
        then do {
          let (n, h) = cJSON_CreateNull h;
          let (patch, h) = add_or_lose patch (item_string (hd xs)) n h;
          (patch, xs', ys', h) \<leftarrow> merge_members cs patch (tl xs) ys h;
          Some (patch, hd xs # xs', ys', h) }
        else if diff > 0
        then do {
          let (d, h) = cJSON_Duplicate (Some (hd ys)) True h;
          let (patch, h) = add_or_lose patch (item_string (hd ys)) d h;
          (patch, xs', ys', h) \<leftarrow> merge_members cs patch xs (tl ys) h;
          Some (patch, xs', hd ys # ys', h) }
        else do {
          (same, x, y) \<leftarrow> compare_json cs (hd xs) (hd ys);
          (patch, x, y, h) \<leftarrow>
            (if same then Some (patch, x, y, h)
             else do {
               (q, x', y', h) \<leftarrow> generate_merge_patch False (Some x) (Some y) h;
               x' \<leftarrow> x'; y' \<leftarrow> y';
               let (patch, h) = add_or_lose patch (item_string y) q h;
               Some (patch, x', y', h) });
          (patch, xs', ys', h) \<leftarrow> merge_members cs patch (tl xs) (tl ys) h;
          Some (patch, x # xs', y # ys', h) } })"
  by pat_completeness auto

termination
proof (relation "measure (\<lambda>p. case p of
      Inl (cs, f, t, h) \<Rightarrow> (case (f, t) of (Some a, Some b) \<Rightarrow> size a + size b | _ \<Rightarrow> 0)
    | Inr (cs, p, xs, ys, h) \<Rightarrow> size_list size xs + size_list size ys)", goal_cases)
qed (auto simp: size_list_sort intro: add_strict_mono size_child merge_order_step dest!: compare_json_size)

declare generate_merge_patch.simps [simp del] merge_members.simps [simp del]

definition cJSONUtils_GenerateMergePatch ::
    "cJSON option \<Rightarrow> cJSON option \<Rightarrow> heap \<Rightarrow> (cJSON option \<times> cJSON option \<times> cJSON option \<times> heap) option" where
  "cJSONUtils_GenerateMergePatch from to h = generate_merge_patch False from to h"

definition cJSONUtils_GenerateMergePatchCaseSensitive ::
    "cJSON option \<Rightarrow> cJSON option \<Rightarrow> heap \<Rightarrow> (cJSON option \<times> cJSON option \<times> cJSON option \<times> heap) option" where
  "cJSONUtils_GenerateMergePatchCaseSensitive from to h = generate_merge_patch True from to h"

end
