(* ===== verification/CUtilsPatch.thy ===== *)
theory CUtilsPatch
  imports CJsonLinks CUtilsGenerate
begin

section \<open>cJSON utilities: applying patches\<close>

text \<open>
  \<open>apply_patch\<close>, \<open>merge_patch\<close> and what they need of \<open>cJSON_Utils.c\<close>, on the store of nodes: they
  detach, insert and overwrite nodes of the document, and sort the members of the objects they
  compare.  A pointer into the document is an address; \<open>None\<close> is undefined behaviour (NULL, freed
  memory) or a loop that does not end.  The names of the functions that the theories on pointers,
  sorting and copying define on trees carry the suffix \<open>_at\<close> here.
\<close>

subsection \<open>Finding\<close>

definition is_at :: "32 word \<Rightarrow> ptr \<Rightarrow> node_store \<Rightarrow> bool option" where
  "is_at t p s = (if p = None then Some False else do { v \<leftarrow> load type_of p s; Some (kind v = t) })"

partial_function (option) find_pointed :: "bytes \<Rightarrow> bool \<Rightarrow> ptr \<Rightarrow> node_store \<Rightarrow> ptr option" where
  "find_pointed pointer cs p s =
     (if p = None then Some None
      else do {
        k \<leftarrow> load name_of p s;
        if \<not> compare_pointers k (Some pointer) cs
        then do { n \<leftarrow> load next_of p s; find_pointed pointer cs n s }
        else Some p })"

partial_function (option) pointer_at :: "bool \<Rightarrow> ptr \<Rightarrow> bytes \<Rightarrow> node_store \<Rightarrow> ptr option" where
  "pointer_at cs current p s =
     (if first_char p \<noteq> CHR ''/'' \<or> current = None then Some current
      else do {
        array \<leftarrow> is_at cJSON_Array current s;
        obj \<leftarrow> is_at cJSON_Object current s;
        if array
        then (case decode_array_index_from_pointer (tl p) of
                None \<Rightarrow> Some None
              | Some i \<Rightarrow> do {
                  n \<leftarrow> array_item_at current (unat i) s;
                  pointer_at cs n (dropWhile (\<lambda>c. c \<noteq> CHR ''/'') (tl p)) s })
        else if obj
        then do {
          c \<leftarrow> load child_of current s;
          n \<leftarrow> find_pointed (tl p) cs c s;
          pointer_at cs n (dropWhile (\<lambda>c. c \<noteq> CHR ''/'') (tl p)) s }
        else Some None })"

definition item_at :: "ptr \<Rightarrow> bytes option \<Rightarrow> bool \<Rightarrow> node_store \<Rightarrow> ptr option" where
  "item_at object pointer cs s =
     (case pointer of None \<Rightarrow> Some None | Some p \<Rightarrow> pointer_at cs object (c_str p) s)"

text \<open>The pointer that leads from an object to one of the items below it.\<close>

partial_function (option) find_to ::
    "garbage \<Rightarrow> nat option \<Rightarrow> ptr \<Rightarrow> ptr \<Rightarrow> ptr \<Rightarrow> node_store \<Rightarrow> (bytes option \<times> node_store) option" where
  "find_to junk i object c target s =
     (case i of
        None \<Rightarrow>
          if object = None \<or> target = None then Some (None, s)
          else if object = target then Some (dup_text (Some []) s)
          else do { c \<leftarrow> load child_of object s; find_to junk (Some 0) object c target s }
      | Some n \<Rightarrow>
          if c = None then Some (None, s)
          else do {
            (found, s) \<leftarrow> find_to junk None c None target s;
            case found of
              None \<Rightarrow> do { c \<leftarrow> load next_of c s; find_to junk (Some (n + 1)) object c target s }
            | Some q \<Rightarrow> do {
                array \<leftarrow> is_at cJSON_Array object s;
                obj \<leftarrow> is_at cJSON_Object object s;
                if array
                then (let (b, h) = malloc_block junk (length (c_str q) + 22) (blocks_of s)
                      in do {
                        b \<leftarrow> b;
                        full \<leftarrow> print_index (Some (length b)) (CHR ''/'' # show_nat n @ c_str q);
                        Some (Some full, free_text (s\<lparr>blocks_of := h\<rparr>)) })
                else if obj
                then do {
                  k \<leftarrow> load name_of c s; k \<leftarrow> k;
                  let (b, h) = malloc_block junk (length (c_str q) + pointer_encoded_length (c_str k) + 2) (blocks_of s);
                  b \<leftarrow> b;
                  b \<leftarrow> encode_string_as_pointer (b[0 := CHR ''/'']) 1 (c_str k);
                  full \<leftarrow> print_index (Some (length b)) (c_str b @ c_str q);
                  Some (Some full, free_text (s\<lparr>blocks_of := h\<rparr>)) }
                else Some (None, free_text s) } })"

definition cJSONUtils_FindPointerFromObjectTo ::
    "garbage \<Rightarrow> ptr \<Rightarrow> ptr \<Rightarrow> node_store \<Rightarrow> (bytes option \<times> node_store) option" where
  "cJSONUtils_FindPointerFromObjectTo junk object target s = find_to junk None object None target s"

subsection \<open>Sorting and comparing in place\<close>

definition names_diff :: "bool \<Rightarrow> ptr \<Rightarrow> ptr \<Rightarrow> node_store \<Rightarrow> int option" where
  "names_diff cs p q s = do { a \<leftarrow> load name_of p s; b \<leftarrow> load name_of q s; Some (compare_strings a b cs) }"

partial_function (option) ascending_at :: "bool \<Rightarrow> ptr \<Rightarrow> node_store \<Rightarrow> bool option" where
  "ascending_at cs current s =
     (if current = None then Some True
      else do {
        n \<leftarrow> load next_of current s;
        if n = None then Some True
        else do { d \<leftarrow> names_diff cs current n s; if d < 0 then ascending_at cs n s else Some False } })"

partial_function (option) middle_at :: "ptr \<Rightarrow> ptr \<Rightarrow> node_store \<Rightarrow> ptr option" where
  "middle_at second current s =
     (if current = None then Some second
      else do {
        second \<leftarrow> load next_of second s;
        current \<leftarrow> load next_of current s;
        current \<leftarrow> (if current \<noteq> None then load next_of current s else Some None);
        middle_at second current s })"

definition split_at :: "ptr \<Rightarrow> node_store \<Rightarrow> node_store option" where
  "split_at second s =
     (if second = None then Some s
      else do {
        back \<leftarrow> load prev_of second s;
        if back = None then Some s
        else do { s \<leftarrow> set_next back None s; set_prev second None s } })"

text \<open>\<open>first\<close> and \<open>second\<close> are what is left of the two lists; \<open>tail\<close> is the last item of \<open>result\<close>.\<close>

definition append_rest :: "ptr \<Rightarrow> ptr \<Rightarrow> ptr \<Rightarrow> ptr \<Rightarrow> node_store \<Rightarrow> (ptr \<times> node_store) option" where
  "append_rest first second result tail s =
     (if first \<noteq> None \<and> result = None then Some (first, s)
      else do {
        s \<leftarrow> (if first \<noteq> None then do { s \<leftarrow> set_next tail first s; set_prev first tail s } else Some s);
        if second \<noteq> None \<and> result = None then Some (second, s)
        else do {
          s \<leftarrow> (if second \<noteq> None then do { s \<leftarrow> set_next tail second s; set_prev second tail s } else Some s);
          Some (result, s) } })"

partial_function (option) merge_at ::
    "bool \<Rightarrow> ptr \<Rightarrow> ptr \<Rightarrow> ptr \<Rightarrow> ptr \<Rightarrow> node_store \<Rightarrow> (ptr \<times> node_store) option" where
  "merge_at cs first second result tail s =
     (if first = None \<or> second = None then append_rest first second result tail s
      else do {
        d \<leftarrow> names_diff cs first second s;
        let smaller = (if d < 0 then first else second);
        s \<leftarrow> (if result = None then Some s
             else do { s \<leftarrow> set_next tail smaller s; set_prev smaller tail s });
        let result = (if result = None then smaller else result);
        if first = smaller
        then do { first \<leftarrow> load next_of first s; merge_at cs first second result smaller s }
        else do { second \<leftarrow> load next_of second s; merge_at cs first second result smaller s } })"

partial_function (option) sort_list_at :: "bool \<Rightarrow> ptr \<Rightarrow> node_store \<Rightarrow> (ptr \<times> node_store) option" where
  "sort_list_at cs list s =
     (if list = None then Some (list, s)
      else do {
        n \<leftarrow> load next_of list s;
        if n = None then Some (list, s)
        else do {
          sorted \<leftarrow> ascending_at cs list s;
          if sorted then Some (list, s)
          else do {
            second \<leftarrow> middle_at list list s;
            s \<leftarrow> split_at second s;
            (first, s) \<leftarrow> sort_list_at cs list s;
            (second, s) \<leftarrow> sort_list_at cs second s;
            merge_at cs first second None None s } } })"

definition sort_object_at :: "ptr \<Rightarrow> bool \<Rightarrow> node_store \<Rightarrow> node_store option" where
  "sort_object_at object cs s =
     (if object = None then Some s
      else do {
        c \<leftarrow> load child_of object s;
        (c, s) \<leftarrow> sort_list_at cs c s;
        set_head object c s })"

text \<open>
  \<open>compare_json\<close> and its two loops in one function: a whole item, the elements of two arrays, or the
  members of two objects.
\<close>

datatype compared = Item | Elements | Members

partial_function (option) compare_at ::
    "compared \<Rightarrow> bool \<Rightarrow> ptr \<Rightarrow> ptr \<Rightarrow> node_store \<Rightarrow> (bool \<times> node_store) option" where
  "compare_at what cs a b s =
     (if what = Item
      then (if a = None \<or> b = None then Some (False, s)
            else do {
              t \<leftarrow> load type_of a s; u \<leftarrow> load type_of b s;
              if kind t \<noteq> kind u then Some (False, s)
              else if kind t = cJSON_Number
              then do {
                i \<leftarrow> load int_of a s; j \<leftarrow> load int_of b s; d \<leftarrow> load double_of a s; e \<leftarrow> load double_of b s;
                Some (i = j \<and> compare_double d e, s) }
              else if kind t = cJSON_String
              then do {
                v \<leftarrow> load text_of a s; w \<leftarrow> load text_of b s; v \<leftarrow> v; w \<leftarrow> w;
                Some (strcmp v w = 0, s) }
              else if kind t = cJSON_Array
              then do {
                a \<leftarrow> load child_of a s; b \<leftarrow> load child_of b s;
                compare_at Elements cs a b s }
              else if kind t = cJSON_Object
              then do {
                s \<leftarrow> sort_object_at a cs s; s \<leftarrow> sort_object_at b cs s;
                a \<leftarrow> load child_of a s; b \<leftarrow> load child_of b s;
                compare_at Members cs a b s }
              else Some (True, s) })
      else if a = None \<or> b = None then Some (a = None \<and> b = None, s)
      else do {
        differ \<leftarrow> (if what = Members then do { d \<leftarrow> names_diff cs a b s; Some (d \<noteq> 0) } else Some False);
        if differ then Some (False, s)
        else do {
          (same, s) \<leftarrow> compare_at Item cs a b s;
          if \<not> same then Some (False, s)
          else do {
            a \<leftarrow> load next_of a s; b \<leftarrow> load next_of b s;
            compare_at what cs a b s } } })"

subsection \<open>Copying\<close>

text \<open>
  \<open>cJSON_Duplicate\<close>: first a node with its strings, then its children.  When something fails, each
  level deletes the node it was making.
\<close>

definition duplicate_node :: "ptr \<Rightarrow> node_store \<Rightarrow> (ptr \<times> node_store) option" where
  "duplicate_node item s =
     (case new_node s of
        (None, s) \<Rightarrow> Some (None, s)
      | (Some a, s) \<Rightarrow> do {
          t \<leftarrow> load type_of item s; i \<leftarrow> load int_of item s; d \<leftarrow> load double_of item s;
          let s = s\<lparr>type_of := (type_of s)(a := t AND NOT cJSON_IsReference), int_of := (int_of s)(a := i),
            double_of := (double_of s)(a := d)\<rparr>;
          v \<leftarrow> load text_of item s;
          let (w, s) = (if v \<noteq> None then dup_text v s else (None, s));
          let s = s\<lparr>text_of := (text_of s)(a := w)\<rparr>;
          if v \<noteq> None \<and> w = None then do { s \<leftarrow> delete_chain (Some a) s; Some (None, s) }
          else do {
            k \<leftarrow> load name_of item s;
            let (m, s) = (if k = None then (None, s)
                          else if has_flag t cJSON_StringIsConst then (k, s) else dup_text k s);
            let s = s\<lparr>name_of := (name_of s)(a := m)\<rparr>;
            if k \<noteq> None \<and> m = None then do { s \<leftarrow> delete_chain (Some a) s; Some (None, s) }
            else Some (Some a, s) } })"

partial_function (option) duplicate_children_at ::
    "ptr \<Rightarrow> ptr \<Rightarrow> ptr \<Rightarrow> node_store \<Rightarrow> (bool \<times> node_store) option" where
  "duplicate_children_at item newitem back s =
     (if item = None then Some (True, s)
      else do {
        (newchild, s) \<leftarrow> duplicate_node item s;
        if newchild = None then Some (False, s)
        else do {
          c \<leftarrow> load child_of item s;
          (ok, s) \<leftarrow> duplicate_children_at c newchild None s;
          if \<not> ok then do { s \<leftarrow> delete_chain newchild s; Some (False, s) }
          else do {
            s \<leftarrow> (if back \<noteq> None then do { s \<leftarrow> set_next back newchild s; set_prev newchild back s }
                 else set_head newitem newchild s);
            n \<leftarrow> load next_of item s;
            duplicate_children_at n newitem newchild s } } })"

definition duplicate_at :: "ptr \<Rightarrow> node_store \<Rightarrow> (ptr \<times> node_store) option" where
  "duplicate_at item s =
     (if item = None then Some (None, s)
      else do {
        (newitem, s) \<leftarrow> duplicate_node item s;
        if newitem = None then Some (None, s)
        else do {
          c \<leftarrow> load child_of item s;
          (ok, s) \<leftarrow> duplicate_children_at c newitem None s;
          if ok then Some (newitem, s) else do { s \<leftarrow> delete_chain newitem s; Some (None, s) } } })"

subsection \<open>Detaching and inserting\<close>

definition unlink :: "ptr \<Rightarrow> ptr \<Rightarrow> node_store \<Rightarrow> node_store option" where
  "unlink array c s = do {
     back \<leftarrow> load prev_of c s;
     forward \<leftarrow> load next_of c s;
     s \<leftarrow> when_some back (set_next back forward) s;
     forward \<leftarrow> load next_of c s;
     back \<leftarrow> load prev_of c s;
     s \<leftarrow> when_some forward (set_prev forward back) s;
     first \<leftarrow> load child_of array s;
     s \<leftarrow> (if c = first then do { forward \<leftarrow> load next_of c s; set_head array forward s } else Some s);
     s \<leftarrow> set_next c None s;
     set_prev c None s }"

definition detach_item_from_array :: "ptr \<Rightarrow> nat \<Rightarrow> node_store \<Rightarrow> (ptr \<times> node_store) option" where
  "detach_item_from_array array which s = do {
     c \<leftarrow> load child_of array s;
     c \<leftarrow> walk_ptr c which s;
     if c = None then Some (None, s) else do { s \<leftarrow> unlink array c s; Some (c, s) } }"

text \<open>\<open>strrchr\<close> splits a path at its last slash.\<close>

definition split_path :: "bytes \<Rightarrow> (bytes \<times> bytes) option" where
  "split_path p =
     (if CHR ''/'' \<in> set p
      then let n = length (takeWhile (\<lambda>c. c \<noteq> CHR ''/'') (rev p))
           in Some (take (length p - n - 1) p, drop (length p - n) p)
      else None)"

definition decoded :: "bytes \<Rightarrow> bytes option" where
  "decoded p = do { r \<leftarrow> decode_pointer_inplace (Some (p @ [NUL])); b \<leftarrow> r; Some (c_str b) }"

definition detach_path :: "ptr \<Rightarrow> bytes option \<Rightarrow> bool \<Rightarrow> node_store \<Rightarrow> (ptr \<times> node_store) option" where
  "detach_path object path cs s = do {
     path \<leftarrow> path;
     let (copy, s) = dup_text (Some path) s;
     case copy of
       None \<Rightarrow> Some (None, s)
     | Some p \<Rightarrow> do {
         (item, s) \<leftarrow>
           (case split_path p of
              None \<Rightarrow> Some (None, s)
            | Some (parent, leaf) \<Rightarrow> do {
                parent \<leftarrow> pointer_at cs object parent s;
                leaf \<leftarrow> decoded leaf;
                array \<leftarrow> is_at cJSON_Array parent s;
                obj \<leftarrow> is_at cJSON_Object parent s;
                if array
                then (case decode_array_index_from_pointer leaf of
                        None \<Rightarrow> Some (None, s)
                      | Some i \<Rightarrow> detach_item_from_array parent (unat i) s)
                else if obj then cJSON_DetachItemFromObject parent (Some leaf) s
                else Some (None, s) });
         Some (item, free_text s) } }"

fun walk_down :: "ptr \<Rightarrow> nat \<Rightarrow> node_store \<Rightarrow> (ptr \<times> nat) option" where
  "walk_down p 0 s = Some (p, 0)"
| "walk_down p (Suc i) s =
     (if p = None then Some (None, Suc i) else do { n \<leftarrow> load next_of p s; walk_down n i s })"

definition insert_item_in_array :: "ptr \<Rightarrow> nat \<Rightarrow> ptr \<Rightarrow> node_store \<Rightarrow> (bool \<times> node_store) option" where
  "insert_item_in_array array which newitem s = do {
     c \<leftarrow> load child_of array s;
     (c, rest) \<leftarrow> walk_down c which s;
     if 0 < rest then Some (False, s)
     else if c = None then do { s \<leftarrow> cJSON_AddItemToArray array newitem s; Some (True, s) }
     else do {
       s \<leftarrow> set_next newitem c s;
       back \<leftarrow> load prev_of c s;
       s \<leftarrow> set_prev newitem back s;
       s \<leftarrow> set_prev c newitem s;
       first \<leftarrow> load child_of array s;
       s \<leftarrow> (if c = first then set_head array newitem s
            else do { back \<leftarrow> load prev_of newitem s; set_next back newitem s });
       Some (True, s) } }"

subsection \<open>Applying one patch\<close>

datatype patch_operation = INVALID | ADD | REMOVE | REPLACE | MOVE | COPY | TEST

definition decode_patch_operation :: "ptr \<Rightarrow> bool \<Rightarrow> node_store \<Rightarrow> patch_operation option" where
  "decode_patch_operation patch cs s = do {
     operation \<leftarrow> member_at patch (Some ''op'') cs s;
     str \<leftarrow> is_at cJSON_String operation s;
     if \<not> str then Some INVALID
     else do {
       v \<leftarrow> load text_of operation s;
       v \<leftarrow> v;
       Some (if strcmp v ''add'' = 0 then ADD
             else if strcmp v ''remove'' = 0 then REMOVE
             else if strcmp v ''replace'' = 0 then REPLACE
             else if strcmp v ''move'' = 0 then MOVE
             else if strcmp v ''copy'' = 0 then COPY
             else if strcmp v ''test'' = 0 then TEST
             else INVALID) } }"

text \<open>A structure that is passed by value: what writing it to an address does.\<close>

type_synonym struct = "addr \<Rightarrow> node_store \<Rightarrow> node_store"

definition invalid_struct :: struct where
  "invalid_struct a s = s\<lparr>next_of := (next_of s)(a := None), prev_of := (prev_of s)(a := None),
     child_of := (child_of s)(a := None), type_of := (type_of s)(a := cJSON_Invalid),
     text_of := (text_of s)(a := None), int_of := (int_of s)(a := 0),
     double_of := (double_of s)(a := DFin False 0), name_of := (name_of s)(a := None)\<rparr>"

definition struct_at :: "ptr \<Rightarrow> node_store \<Rightarrow> struct option" where
  "struct_at p s =
     (case p of
        None \<Rightarrow> None
      | Some b \<Rightarrow>
          if live_at s b
          then Some (\<lambda>a t. t\<lparr>next_of := (next_of t)(a := next_of s b), prev_of := (prev_of t)(a := prev_of s b),
             child_of := (child_of t)(a := child_of s b), type_of := (type_of t)(a := type_of s b),
             text_of := (text_of t)(a := text_of s b), int_of := (int_of t)(a := int_of s b),
             double_of := (double_of t)(a := double_of s b), name_of := (name_of t)(a := name_of s b)\<rparr>)
          else None)"

definition overwrite_item :: "ptr \<Rightarrow> struct \<Rightarrow> node_store \<Rightarrow> node_store option" where
  "overwrite_item target replacement s =
     (if target = None then Some s
      else do {
        k \<leftarrow> load name_of target s;
        let s = (if k \<noteq> None then free_text s else s);
        v \<leftarrow> load text_of target s;
        let s = (if v \<noteq> None then free_text s else s);
        c \<leftarrow> load child_of target s;
        s \<leftarrow> (if c \<noteq> None then delete_chain c s else Some s);
        CJsonLinks.put replacement target s })"

text \<open>The two special cases for the whole document.\<close>

definition remove_root :: "ptr \<Rightarrow> node_store \<Rightarrow> (int \<times> node_store) option" where
  "remove_root object s = do { s \<leftarrow> overwrite_item object invalid_struct s; Some (0, s) }"

definition replace_root :: "ptr \<Rightarrow> ptr \<Rightarrow> bool \<Rightarrow> node_store \<Rightarrow> (int \<times> node_store) option" where
  "replace_root object patch cs s = do {
     value \<leftarrow> member_at patch (Some ''value'') cs s;
     if value = None then Some (7, s)
     else do {
       (value, s) \<leftarrow> duplicate_at value s;
       if value = None then Some (8, s)
       else do {
         x \<leftarrow> struct_at value s;
         s \<leftarrow> overwrite_item object x s;
         s \<leftarrow> free_node value s;
         k \<leftarrow> load name_of object s;
         s \<leftarrow> (if k \<noteq> None then set_name object None (free_text s) else Some s);
         Some (0, s) } } }"

text \<open>The value that goes to the path: \<open>Inl\<close> is the status of a failure.\<close>

definition patch_value ::
    "ptr \<Rightarrow> ptr \<Rightarrow> patch_operation \<Rightarrow> bool \<Rightarrow> node_store \<Rightarrow> ((int + ptr) \<times> node_store) option" where
  "patch_value object patch opcode cs s =
     (if opcode = MOVE \<or> opcode = COPY
      then do {
        from_item \<leftarrow> member_at patch (Some ''from'') cs s;
        if from_item = None then Some (Inl 4, s)
        else do {
          from_path \<leftarrow> load text_of from_item s;
          (value, s) \<leftarrow> (if opcode = MOVE then detach_path object from_path cs s
                       else do { v \<leftarrow> item_at object from_path cs s; Some (v, s) });
          if value = None then Some (Inl 5, s)
          else if opcode = COPY
          then do {
            (value, s) \<leftarrow> duplicate_at value s;
            Some (if value = None then Inl 6 else Inr value, s) }
          else Some (Inr value, s) } }
      else do {
        value \<leftarrow> member_at patch (Some ''value'') cs s;
        if value = None then Some (Inl 7, s)
        else do {
          (value, s) \<leftarrow> duplicate_at value s;
          Some (if value = None then Inl 8 else Inr value, s) } })"

text \<open>
  Adding the value at the path.  The result says which status is returned and whether the value was
  handed over; \<open>attach_value\<close> adds the clean-up.
\<close>

definition place_value :: "ptr \<Rightarrow> bytes \<Rightarrow> ptr \<Rightarrow> bool \<Rightarrow> node_store \<Rightarrow> (int \<times> bool \<times> node_store) option" where
  "place_value parent leaf value cs s = do {
     array \<leftarrow> is_at cJSON_Array parent s;
     obj \<leftarrow> is_at cJSON_Object parent s;
     if array
     then (if strcmp leaf ''-'' = 0 then do { s \<leftarrow> cJSON_AddItemToArray parent value s; Some (0, True, s) }
           else case decode_array_index_from_pointer leaf of
             None \<Rightarrow> Some (11, False, s)
           | Some i \<Rightarrow> do {
               (ok, s) \<leftarrow> insert_item_in_array parent (unat i) value s;
               Some (if ok then (0, True, s) else (10, False, s)) })
     else if obj
     then do {
       s \<leftarrow> (if cs then cJSON_DeleteItemFromObjectCaseSensitive parent (Some leaf) s
            else cJSON_DeleteItemFromObject parent (Some leaf) s);
       s \<leftarrow> cJSON_AddItemToObject parent (Some leaf) value s;
       Some (0, True, s) }
     else Some (9, False, s) }"

definition attach_value :: "ptr \<Rightarrow> ptr \<Rightarrow> ptr \<Rightarrow> bool \<Rightarrow> node_store \<Rightarrow> (int \<times> node_store) option" where
  "attach_value object path value cs s = do {
     p \<leftarrow> load text_of path s;
     p \<leftarrow> p;
     let (copy, s) = dup_text (Some p) s;
     copy \<leftarrow> copy;
     (status, kept, s) \<leftarrow>
       (case split_path copy of
          None \<Rightarrow> do { pointer_at cs object copy s; Some (9, False, s) }
        | Some (front, leaf) \<Rightarrow> do {
            parent \<leftarrow> pointer_at cs object front s;
            leaf \<leftarrow> decoded leaf;
            if parent = None then Some (9, False, s) else place_value parent leaf value cs s });
     s \<leftarrow> (if kept then Some s else delete_chain value s);
     Some (status, free_text s) }"

text \<open>Removing the old value, getting the new one, and putting it where the path leads.\<close>

definition change_at ::
    "ptr \<Rightarrow> ptr \<Rightarrow> patch_operation \<Rightarrow> ptr \<Rightarrow> bytes option \<Rightarrow> bool \<Rightarrow> node_store \<Rightarrow> (int \<times> node_store) option" where
  "change_at object patch opcode path p cs s = do {
     (gone, s) \<leftarrow>
       (if opcode = REMOVE \<or> opcode = REPLACE
        then do {
          (old_item, s) \<leftarrow> detach_path object p cs s;
          if old_item = None then Some (False, s)
          else do { s \<leftarrow> delete_chain old_item s; Some (True, s) } }
        else Some (True, s));
     if \<not> gone then Some (13, s)
     else if opcode = REMOVE then Some (0, s)
     else do {
       (value, s) \<leftarrow> patch_value object patch opcode cs s;
       case value of
         Inl status \<Rightarrow> Some (status, s)
       | Inr value \<Rightarrow> attach_value object path value cs s } }"

definition apply_patch :: "ptr \<Rightarrow> ptr \<Rightarrow> bool \<Rightarrow> node_store \<Rightarrow> (int \<times> node_store) option" where
  "apply_patch object patch cs s = do {
     path \<leftarrow> member_at patch (Some ''path'') cs s;
     str \<leftarrow> is_at cJSON_String path s;
     if \<not> str then Some (2, s)
     else do {
       opcode \<leftarrow> decode_patch_operation patch cs s;
       if opcode = INVALID then Some (3, s)
       else do {
         p \<leftarrow> load text_of path s;
         if opcode = TEST
         then do {
           x \<leftarrow> item_at object p cs s;
           value \<leftarrow> member_at patch (Some ''value'') cs s;
           (same, s) \<leftarrow> compare_at Item cs x value s;
           Some (if same then 0 else 1, s) }
         else do {
           q \<leftarrow> p;
           if c_str q = [] \<and> opcode = REMOVE then remove_root object s
           else if c_str q = [] \<and> (opcode = REPLACE \<or> opcode = ADD) then replace_root object patch cs s
           else change_at object patch opcode path p cs s } } } }"

partial_function (option) apply_patches_at :: "bool \<Rightarrow> ptr \<Rightarrow> ptr \<Rightarrow> node_store \<Rightarrow> (int \<times> node_store) option" where
  "apply_patches_at cs object current_patch s =
     (if current_patch = None then Some (0, s)
      else do {
        (status, s) \<leftarrow> apply_patch object current_patch cs s;
        if status \<noteq> 0 then Some (status, s)
        else do { n \<leftarrow> load next_of current_patch s; apply_patches_at cs object n s } })"

definition cJSONUtils_ApplyPatches :: "ptr \<Rightarrow> ptr \<Rightarrow> node_store \<Rightarrow> (int \<times> node_store) option" where
  "cJSONUtils_ApplyPatches object patches s = do {
     array \<leftarrow> is_at cJSON_Array patches s;
     if \<not> array then Some (1, s)
     else do { c \<leftarrow> load child_of patches s; apply_patches_at False object c s } }"

definition cJSONUtils_ApplyPatchesCaseSensitive :: "ptr \<Rightarrow> ptr \<Rightarrow> node_store \<Rightarrow> (int \<times> node_store) option" where
  "cJSONUtils_ApplyPatchesCaseSensitive object patches s = do {
     array \<leftarrow> is_at cJSON_Array patches s;
     if \<not> array then Some (1, s)
     else do { c \<leftarrow> load child_of patches s; apply_patches_at True object c s } }"

subsection \<open>Merge patches\<close>

text \<open>\<open>merge_patch\<close> and its loop over the members of the patch in one function.\<close>

partial_function (option) merge_patch_at :: "bool \<Rightarrow> bool \<Rightarrow> ptr \<Rightarrow> ptr \<Rightarrow> node_store \<Rightarrow> (ptr \<times> node_store) option" where
  "merge_patch_at members cs target patch s =
     (if members
      then (if patch = None then Some (target, s)
            else do {
              null \<leftarrow> is_at cJSON_NULL patch s;
              k \<leftarrow> load name_of patch s;
              if null
              then do {
                s \<leftarrow> (if cs then cJSON_DeleteItemFromObjectCaseSensitive target k s
                     else cJSON_DeleteItemFromObject target k s);
                n \<leftarrow> load next_of patch s;
                merge_patch_at True cs target n s }
              else do {
                (replace_me, s) \<leftarrow> (if cs then cJSON_DetachItemFromObjectCaseSensitive target k s
                                  else cJSON_DetachItemFromObject target k s);
                (replacement, s) \<leftarrow> merge_patch_at False cs replace_me patch s;
                if replacement = None then Some (None, s)
                else do {
                  k \<leftarrow> load name_of patch s;
                  s \<leftarrow> cJSON_AddItemToObject target k replacement s;
                  n \<leftarrow> load next_of patch s;
                  merge_patch_at True cs target n s } } })
      else do {
        obj \<leftarrow> is_at cJSON_Object patch s;
        if \<not> obj then do { s \<leftarrow> delete_chain target s; duplicate_at patch s }
        else do {
          obj \<leftarrow> is_at cJSON_Object target s;
          (target, s) \<leftarrow> (if obj then Some (target, s)
                        else do { s \<leftarrow> delete_chain target s; Some (place (cJSON_CreateObject (blocks_of s)) s) });
          c \<leftarrow> load child_of patch s;
          merge_patch_at True cs target c s } })"

definition cJSONUtils_MergePatch :: "ptr \<Rightarrow> ptr \<Rightarrow> node_store \<Rightarrow> (ptr \<times> node_store) option" where
  "cJSONUtils_MergePatch target patch s = merge_patch_at False False target patch s"

definition cJSONUtils_MergePatchCaseSensitive :: "ptr \<Rightarrow> ptr \<Rightarrow> node_store \<Rightarrow> (ptr \<times> node_store) option" where
  "cJSONUtils_MergePatchCaseSensitive target patch s = merge_patch_at False True target patch s"

declare find_pointed.simps [code] pointer_at.simps [code] ascending_at.simps [code] middle_at.simps [code]
  merge_at.simps [code] sort_list_at.simps [code] compare_at.simps [code] duplicate_children_at.simps [code]
  apply_patches_at.simps [code] merge_patch_at.simps [code] find_to.simps [code]

end
