(* ===== verification/CUtilsPatchProps.thy ===== *)
theory CUtilsPatchProps
  imports CUtilsPatch CJsonLinkProps
begin

section \<open>What patches do to a document in memory\<close>

text \<open>
  Patches that are rejected early leave the document alone; the merge sort on nodes is the merge sort
  on lists; and the cases in which patching goes wrong.
\<close>

subsection \<open>Rejected patches\<close>

text \<open>The store after an allocation and the release of that block.\<close>

definition recounted :: "node_store \<Rightarrow> node_store \<Rightarrow> bool" where
  "recounted s s' \<longleftrightarrow> (\<exists>n. s' = s\<lparr>blocks_of := (blocks_of s)\<lparr>allocs := n\<rparr>\<rparr>)"

lemma recounted_refl [simp]: "recounted s s"
  unfolding recounted_def by (rule exI [of _ "allocs (blocks_of s)"]) simp

lemma detach_via_pointer_None: "cJSON_DetachItemViaPointer p i s = Some (None, s') \<Longrightarrow> s' = s"
  by (auto simp: cJSON_DetachItemViaPointer_def split: if_splits bind_splits)

lemma detach_array_None: "detach_item_from_array a i s = Some (None, s') \<Longrightarrow> s' = s"
  by (auto simp: detach_item_from_array_def split: if_splits bind_splits)

lemma dup_text_cases:
  obtains (fail) s1 where "dup_text (Some p) s = (None, s1)" "recounted s s1"
  | (ok) s1 where "dup_text (Some p) s = (Some (c_str p), s1)" "recounted s (free_text s1)"
    "s1 = s\<lparr>blocks_of := blocks_of s1\<rparr>"
proof -
  let ?h = "blocks_of s"
  show ?thesis
  proof (cases "oom ?h (allocs ?h)")
    case True
    show ?thesis
    proof (rule fail)
      show "dup_text (Some p) s = (None, s\<lparr>blocks_of := ?h\<lparr>allocs := Suc (allocs ?h)\<rparr>\<rparr>)"
        using True by (simp add: dup_text_def cJSON_strdup_def malloc_def)
    qed (unfold recounted_def, blast)
  next
    case False
    let ?s1 = "s\<lparr>blocks_of := ?h\<lparr>allocs := Suc (allocs ?h), live := live ?h + 1\<rparr>\<rparr>"
    show ?thesis
    proof (rule ok)
      show "dup_text (Some p) s = (Some (c_str p), ?s1)"
        using False by (simp add: dup_text_def cJSON_strdup_def malloc_def)
      have "free_text ?s1 = s\<lparr>blocks_of := ?h\<lparr>allocs := Suc (allocs ?h)\<rparr>\<rparr>" by (simp add: free_text_def dealloc_def)
      then show "recounted s (free_text ?s1)" unfolding recounted_def by blast
    qed simp
  qed
qed

lemma detach_path_None:
  assumes "detach_path object path cs s = Some (None, s')"
  shows "recounted s s'"
proof -
  obtain p where p: "path = Some p" using assms by (cases path) (simp_all add: detach_path_def)
  show ?thesis
  proof (cases p s rule: dup_text_cases)
    case (fail s1)
    then show ?thesis using assms p by (simp add: detach_path_def)
  next
    case (ok s1)
    then have "s' = free_text s1"
      using assms p
      by (auto simp: detach_path_def cJSON_DetachItemFromObject_def split: option.splits bind_splits if_splits
        dest!: detach_array_None detach_via_pointer_None)
    then show ?thesis using ok by simp
  qed
qed

lemma patch_value_rejects:
  assumes "patch_value object patch opcode cs s = Some (Inl status, s')" and "opcode = MOVE \<or> opcode = COPY" and "status \<noteq> 6"
  shows "recounted s s'"
  using assms by (auto simp: patch_value_def split: bind_splits if_splits dest: detach_path_None)

lemma attach_value_status: "attach_value object path value cs s = Some (status, s') \<Longrightarrow> status \<in> {0, 9, 10, 11}"
  by (auto simp: attach_value_def place_value_def Let_def split: bind_splits if_splits option.splits prod.splits)

lemma patch_value_status:
  "patch_value object patch opcode cs s = Some (Inl status, s') \<Longrightarrow>
     status \<in> (if opcode = MOVE \<or> opcode = COPY then {4, 5, 6} else {7, 8})"
  by (auto simp: patch_value_def split: bind_splits if_splits)

lemma root_status:
  "remove_root object s = Some (status, s') \<Longrightarrow> status = 0"
  "replace_root object patch cs s = Some (status, s') \<Longrightarrow> status \<in> {0, 7, 8}"
  by (auto simp: remove_root_def replace_root_def split: bind_splits if_splits)

lemma change_at_rejects:
  assumes "change_at object patch opcode path p cs s = Some (status, s')"
  shows "status \<notin> {2, 3}" and "status \<in> {4, 5, 13} \<Longrightarrow> recounted s s'"
proof -
  let ?v = "\<lambda>s. do {
       (value, s) \<leftarrow> patch_value object patch opcode cs s;
       case value of Inl status \<Rightarrow> Some (status, s) | Inr value \<Rightarrow> attach_value object path value cs s }"
  have v: "status \<notin> {2, 3, 13} \<and> (opcode \<noteq> MOVE \<and> opcode \<noteq> COPY \<longrightarrow> status \<notin> {4, 5}) \<and>
      (status \<in> {4, 5} \<longrightarrow> recounted t s')" if v: "?v t = Some (status, s')" for t
  proof -
    obtain r u where r: "patch_value object patch opcode cs t = Some (r, u)"
      "(case r of Inl status \<Rightarrow> Some (status, u) | Inr value \<Rightarrow> attach_value object path value cs u) = Some (status, s')"
      using v by (auto split: bind_splits)
    show ?thesis
    proof (cases r)
      case (Inl st)
      then show ?thesis using r patch_value_status [of object patch opcode cs t st u]
          patch_value_rejects [of object patch opcode cs t st u] by (auto split: if_splits)
    next
      case (Inr x)
      then show ?thesis using r attach_value_status [of object path x cs u status s'] by auto
    qed
  qed
  have "status \<notin> {2, 3} \<and> (status \<in> {4, 5, 13} \<longrightarrow> recounted s s')"
  proof (cases "opcode = REMOVE \<or> opcode = REPLACE")
    case True
    obtain old t where d: "detach_path object p cs s = Some (old, t)"
      using assms True by (auto simp: change_at_def split: bind_splits)
    show ?thesis
    proof (cases old)
      case None
      then show ?thesis using assms True d detach_path_None [of object p cs s t] by (auto simp: change_at_def)
    next
      case (Some a)
      then obtain u where "delete_chain old t = Some u"
        "(if opcode = REMOVE then Some (0, u) else ?v u) = Some (status, s')"
        using assms True d by (auto simp: change_at_def split: bind_splits)
      then show ?thesis using v [of u] True by (auto split: if_splits)
    qed
  next
    case False
    then have "?v s = Some (status, s')" using assms by (simp add: change_at_def)
    then show ?thesis using v [of s] by auto
  qed
  then show "status \<notin> {2, 3}" and "status \<in> {4, 5, 13} \<Longrightarrow> recounted s s'" by blast+
qed

text \<open>
  C10. A patch that is rejected before anything is detached changes nothing.  When \<open>apply_patch\<close>
  returns one of the codes for a malformed patch (2, 3), for a missing or unresolvable \<open>from\<close> (4, 5)
  or for a path that leads nowhere (13), every node of the store is as before and every block
  that was allocated on the way is freed.
\<close>

theorem rejected_patch_changes_nothing:
  assumes "apply_patch object patch cs s = Some (status, s')" and "status \<in> {2, 3, 4, 5, 13}"
  shows "\<exists>n. s' = s\<lparr>blocks_of := (blocks_of s)\<lparr>allocs := n\<rparr>\<rparr>"
proof -
  let ?rest = "\<lambda>path opcode. do {
       p \<leftarrow> load text_of path s;
       if opcode = TEST
       then do {
         x \<leftarrow> item_at object p cs s;
         value \<leftarrow> member_at patch (Some ''value'') cs s;
         (same, s) \<leftarrow> compare_at Item cs x value s;
         Some (if same then 0 else 1, s) }
       else do {
         q \<leftarrow> p;
         if c_str q = [] \<and> opcode = REMOVE then remove_root object s
         else if c_str q = [] \<and> (opcode = REPLACE \<or> opcode = ADD) then replace_root object patch cs s
         else change_at object patch opcode path p cs s } }"
  obtain path str where path: "member_at patch (Some ''path'') cs s = Some path" "is_at cJSON_String path s = Some str"
    using assms(1) unfolding apply_patch_def bind_eq_Some_conv by blast
  have "recounted s s'"
  proof (cases str)
    case False
    then show ?thesis using assms(1) path by (simp add: apply_patch_def)
  next
    case True
    then obtain opcode where opcode: "decode_patch_operation patch cs s = Some opcode"
      using assms(1) path by (simp add: apply_patch_def bind_eq_Some_conv) blast
    show ?thesis
    proof (cases "opcode = INVALID")
      case True
      then show ?thesis using assms(1) path opcode \<open>str\<close> by (simp add: apply_patch_def)
    next
      case False
      then have rest: "?rest path opcode = Some (status, s')"
        using assms(1) path opcode \<open>str\<close> by (simp add: apply_patch_def)
      then obtain p where p: "load text_of path s = Some p" unfolding bind_eq_Some_conv by blast
      have "opcode \<noteq> TEST" using rest assms(2) by (auto simp: bind_eq_Some_conv split: if_splits)
      with rest p obtain q where "(if c_str q = [] \<and> opcode = REMOVE then remove_root object s
           else if c_str q = [] \<and> (opcode = REPLACE \<or> opcode = ADD) then replace_root object patch cs s
           else change_at object patch opcode path p cs s) = Some (status, s')"
        by (auto simp: bind_eq_Some_conv)
      then show ?thesis using assms(2) root_status(1) [of object s status s'] root_status(2) [of object patch cs s status s']
          change_at_rejects [of object patch opcode path p cs s status s'] by (auto split: if_splits)
    qed
  qed
  then show ?thesis by (simp add: recounted_def)
qed

text \<open>A patch with a path and no operation: the object 0 with the member 1.\<close>

definition patch_store :: node_store where
  "patch_store = \<lparr>next_of = \<lambda>_. None, prev_of = \<lambda>_. None, child_of = [0 \<mapsto> 1],
     type_of = \<lambda>x. if x = 0 then cJSON_Object else cJSON_String, text_of = [1 \<mapsto> ''/a''],
     int_of = \<lambda>_. 0, double_of = \<lambda>_. DFin False 0, name_of = [1 \<mapsto> ''path''],
     live_at = \<lambda>x. x < 3, limit = 3, blocks_of = fresh_heap\<rparr>"

lemma rejected_patch_changes_nothing_witness:
  "apply_patch (Some 2) (Some 0) True patch_store = Some (3, patch_store) \<and>
   (\<exists>n. patch_store = patch_store\<lparr>blocks_of := (blocks_of patch_store)\<lparr>allocs := n\<rparr>\<rparr>)"
proof -
  have names: "strcmp ''path'' ''path'' = 0" "strcmp ''op'' ''path'' \<noteq> 0" by code_simp+
  have path: "member_at (Some 0) (Some ''path'') True patch_store = Some (Some 1)"
    by (simp add: member_at_def find_member_cs.simps [of _ "Some _"] patch_store_def names)
  have op: "member_at (Some 0) (Some ''op'') True patch_store = Some None"
    by (simp add: member_at_def find_member_cs.simps [of _ "Some _"] find_member_cs.simps [of _ None] patch_store_def names)
  have "is_at cJSON_String (Some 1) patch_store = Some True" "is_at cJSON_String None patch_store = Some False"
    by (simp_all add: is_at_def patch_store_def kind_def ctype_defs)
  then have run: "apply_patch (Some 2) (Some 0) True patch_store = Some (3, patch_store)"
    using path op by (simp add: apply_patch_def decode_patch_operation_def)
  then show ?thesis using rejected_patch_changes_nothing [OF run] by simp
qed

subsection \<open>Sorting nodes is sorting lists\<close>

text \<open>What the merge sort compares of a node.\<close>

definition item_of :: "node_store \<Rightarrow> addr \<Rightarrow> cJSON" where
  "item_of s x = CJson 0 [] None 0 (DFin False 0) (name_of s x)"

lemma names_diff_items:
  "live_at s x \<Longrightarrow> live_at s y \<Longrightarrow> names_diff cs (Some x) (Some y) s = Some (name_diff cs (item_of s x) (item_of s y))"
  by (simp add: names_diff_def name_diff_def item_of_def)

definition relinks :: "node_store \<Rightarrow> node_store \<Rightarrow> addr set \<Rightarrow> bool" where
  "relinks s s' A \<longleftrightarrow> s' = s\<lparr>next_of := next_of s', prev_of := prev_of s'\<rparr> \<and>
     (\<forall>y. y \<notin> A \<longrightarrow> next_of s' y = next_of s y \<and> prev_of s' y = prev_of s y)"

lemma relinks_fields:
  assumes "relinks s s' A"
  shows "live_at s' = live_at s" "item_of s' = item_of s" "child_of s' = child_of s" "type_of s' = type_of s"
    "y \<notin> A \<Longrightarrow> next_of s' y = next_of s y" "y \<notin> A \<Longrightarrow> prev_of s' y = prev_of s y"
proof -
  have e: "s' = s\<lparr>next_of := next_of s', prev_of := prev_of s'\<rparr>" using assms by (simp add: relinks_def)
  show "live_at s' = live_at s" "child_of s' = child_of s" "type_of s' = type_of s" by (subst e; simp)+
  have "name_of s' = name_of s" by (subst e) simp
  then show "item_of s' = item_of s" by (simp add: item_of_def fun_eq_iff)
  show "y \<notin> A \<Longrightarrow> next_of s' y = next_of s y" "y \<notin> A \<Longrightarrow> prev_of s' y = prev_of s y"
    using assms by (simp_all add: relinks_def)
qed

lemma relinks_refl [simp]: "relinks s s A"
  by (simp add: relinks_def)

lemma relinks_trans: "relinks s t A \<Longrightarrow> relinks t u B \<Longrightarrow> A \<subseteq> C \<Longrightarrow> B \<subseteq> C \<Longrightarrow> relinks s u C"
  by (cases s; cases t; cases u) (simp add: relinks_def; metis subsetD)

lemma relinks_upd:
  "x \<in> A \<Longrightarrow> relinks s (s\<lparr>next_of := (next_of s)(x := v)\<rparr>) A" "x \<in> A \<Longrightarrow> relinks s (s\<lparr>prev_of := (prev_of s)(x := v)\<rparr>) A"
  by (auto simp: relinks_def)

text \<open>A list of nodes that ends in NULL, with the links back between its nodes.\<close>

definition segment :: "node_store \<Rightarrow> ptr \<Rightarrow> addr list \<Rightarrow> bool" where
  "segment s p xs \<longleftrightarrow> chain (next_of s) (live_at s) p xs None \<and> linked (prev_of s) xs \<and> distinct xs"

lemma chain_cong:
  "chain n l p xs q \<Longrightarrow> (\<And>x. x \<in> set xs \<Longrightarrow> n' x = n x) \<Longrightarrow> (\<And>x. x \<in> set xs \<Longrightarrow> l' x = l x) \<Longrightarrow> chain n' l' p xs q"
  by (induction xs arbitrary: p) auto

lemma linked_cong: "linked p xs \<Longrightarrow> (\<And>x. x \<in> set xs \<Longrightarrow> p' x = p x) \<Longrightarrow> linked p' xs"
  by (induction p xs rule: linked.induct) auto

lemma segment_relinks:
  assumes "segment s p xs" and "relinks s s' A" and "set xs \<inter> A = {}"
  shows "segment s' p xs"
  using assms relinks_fields [OF assms(2)] unfolding segment_def
  by (auto intro!: chain_cong [where n = "next_of s" and l = "live_at s"] linked_cong [where p = "prev_of s"])

lemma ascending_at_items:
  "chain (next_of s) (live_at s) p xs None \<Longrightarrow> ascending_at cs p s = Some (ascending cs (map (item_of s) xs))"
proof (induction xs arbitrary: p)
  case Nil
  then show ?case by (subst ascending_at.simps) simp
next
  case (Cons x xs)
  show ?case
  proof (cases xs)
    case Nil
    then show ?thesis using Cons.prems by (subst ascending_at.simps) simp
  next
    case (Cons y ys)
    then have "live_at s x" "live_at s y" "next_of s x = Some y" "p = Some x" using Cons.prems by auto
    moreover have "ascending_at cs (Some y) s = Some (ascending cs (map (item_of s) xs))"
      using Cons.IH [of "Some y"] Cons.prems Cons by simp
    ultimately show ?thesis using Cons
      by (subst ascending_at.simps) (simp add: names_diff_items)
  qed
qed

lemma middle_at_end: "middle_at p None s = Some p"
  by (subst middle_at.simps) simp

lemma middle_at_nth:
  assumes "chain (next_of s) (live_at s) p ys None" and "chain (next_of s) (live_at s) q zs None" and "length zs \<le> length ys"
  shows "middle_at p q s = Some (if middle (length zs) < length ys then Some (ys ! middle (length zs)) else None)"
  using assms
proof (induction "length zs" arbitrary: p q ys zs rule: middle.induct)
  case 1
  then show ?case by (cases ys) (auto simp: middle_at_end)
next
  case 2
  obtain z where z: "zs = [z]" using 2(1) by (cases zs) auto
  obtain y ys' where zy: "zs = [z]" "ys = y # ys'" using 2(4) z by (cases ys) auto
  then have f: "p = Some y" "q = Some z" "live_at s y" "live_at s z" "next_of s z = None"
    "chain (next_of s) (live_at s) (next_of s y) ys' None" using 2 by auto
  then have "next_of s y = (if ys' = [] then None else Some (hd ys'))" using chain_ne [of _ _ "next_of s y" ys'] by auto
  then show ?case using f zy by (subst middle_at.simps) (cases ys'; simp add: middle_at_end)
next
  case (3 n)
  obtain z z' zs' where zs: "zs = z # z' # zs'" using 3(2) by (cases zs; cases "tl zs") auto
  obtain y y' ys' where ys: "ys = y # y' # ys'" using 3(5) zs by (cases ys; cases "tl ys") auto
  have "middle_at (next_of s y) (next_of s z') s
      = Some (if middle (length zs') < length (y' # ys') then Some ((y' # ys') ! middle (length zs')) else None)"
    by (rule 3(1)) (use 3(2-5) zs ys in auto)
  then show ?case using 3(3,4) zs ys by (subst middle_at.simps) auto
qed

lemma split_at_seg:
  assumes "segment s p (us @ v # vs)" and "us \<noteq> []"
  obtains s' where "split_at (Some v) s = Some s'" "segment s' p us" "segment s' (Some v) (v # vs)" "prev_of s' v = None"
    "prev_of s' (hd us) = prev_of s (hd us)" "relinks s s' (set (us @ v # vs))"
proof -
  from assms have c: "chain (next_of s) (live_at s) p (us @ v # vs) None" and l: "linked (prev_of s) (us @ v # vs)"
    and d: "distinct (us @ v # vs)" by (simp_all add: segment_def)
  obtain ws u where us: "us = ws @ [u]" using assms(2) by (cases us rule: rev_cases) auto
  let ?s' = "s\<lparr>next_of := (next_of s)(u := None), prev_of := (prev_of s)(v := None)\<rparr>"
  show ?thesis
  proof (rule that)
    have "prev_of s v = Some u" "live_at s u" "live_at s v" using l c us by auto
    then show "split_at (Some v) s = Some ?s'" by (simp add: split_at_def set_defs)
    show "segment ?s' p us" "segment ?s' (Some v) (v # vs)" using c l d us
      by (auto simp: segment_def linked_Cons)
    show "prev_of ?s' (hd us) = prev_of s (hd us)" using d assms(2) by (cases us) auto
    show "relinks s ?s' (set (us @ v # vs))" using us by (auto simp: relinks_def)
  qed simp
qed

text \<open>The part of the merged list that is done: \<open>tail\<close> is its last node, whose \<open>next\<close> is still to be set.\<close>

definition done_part :: "node_store \<Rightarrow> addr list \<Rightarrow> ptr \<Rightarrow> ptr \<Rightarrow> bool" where
  "done_part s rs result tail \<longleftrightarrow>
     (if rs = [] then result = None
      else result = Some (hd rs) \<and> tail = Some (last rs) \<and> live_at s (last rs) \<and>
        chain (next_of s) (live_at s) (Some (hd rs)) (butlast rs) (Some (last rs)) \<and> linked (prev_of s) rs)"

lemma segment_Cons: "segment s p (x # xs) \<longleftrightarrow> p = Some x \<and> live_at s x \<and> x \<notin> set xs \<and> segment s (next_of s x) xs \<and>
    (xs \<noteq> [] \<longrightarrow> prev_of s (hd xs) = Some x)"
  by (auto simp: segment_def linked_Cons)

lemma done_extend:
  assumes "done_part s rs result tail" and "live_at s x" and "distinct (rs @ [x])"
  obtains s1 where "(if result = None then Some s else do { s \<leftarrow> set_next tail (Some x) s; set_prev (Some x) tail s }) = Some s1"
    "done_part s1 (rs @ [x]) (if result = None then Some x else result) (Some x)"
    "next_of s1 x = next_of s x" "relinks s s1 (set (rs @ [x]))" "prev_of s1 (hd (rs @ [x])) = prev_of s (hd (rs @ [x]))"
proof (cases "rs = []")
  case True
  then show ?thesis using that [of s] assms by (simp add: done_part_def)
next
  case False
  then obtain ws t where rs: "rs = ws @ [t]" by (cases rs rule: rev_cases) auto
  let ?s1 = "s\<lparr>next_of := (next_of s)(t := Some x), prev_of := (prev_of s)(x := Some t)\<rparr>"
  have d: "result = Some (hd rs)" "tail = Some t" "live_at s t" "chain (next_of s) (live_at s) (Some (hd rs)) ws (Some t)"
    "linked (prev_of s) rs" using assms(1) rs by (simp_all add: done_part_def)
  have x: "x \<notin> set rs" "t \<notin> set ws" using assms(3) rs by auto
  show ?thesis
  proof (rule that)
    show "(if result = None then Some s else do { s \<leftarrow> set_next tail (Some x) s; set_prev (Some x) tail s }) = Some ?s1"
      using d assms(2) by (simp add: set_defs)
    show "done_part ?s1 (rs @ [x]) (if result = None then Some x else result) (Some x)"
    proof -
      have "hd (ws @ [t, x]) = hd (ws @ [t])" by (cases ws) simp_all
      then show ?thesis using d x assms(2) rs by (auto simp: done_part_def butlast_append)
    qed
    show "next_of ?s1 x = next_of s x" using x rs by auto
    show "relinks s ?s1 (set (rs @ [x]))" using rs by (auto simp: relinks_def)
    show "prev_of ?s1 (hd (rs @ [x])) = prev_of s (hd (rs @ [x]))" using x rs by (cases ws) auto
  qed
qed

lemma done_finish:
  assumes "done_part s rs result tail" and "rs \<noteq> []" and "segment s p (x # xs)" and "distinct (rs @ x # xs)"
  obtains s0 s1 where "set_next tail p s = Some s0" "set_prev p tail s0 = Some s1" "segment s1 result (rs @ x # xs)"
    "relinks s s1 (set (rs @ x # xs))" "prev_of s1 (hd rs) = prev_of s (hd rs)"
proof -
  obtain ws t where rs: "rs = ws @ [t]" using assms(2) by (cases rs rule: rev_cases) auto
  let ?s1 = "s\<lparr>next_of := (next_of s)(t := Some x), prev_of := (prev_of s)(x := Some t)\<rparr>"
  have d: "result = Some (hd rs)" "tail = Some t" "live_at s t" "chain (next_of s) (live_at s) (Some (hd rs)) ws (Some t)"
    "linked (prev_of s) rs" using assms(1) rs by (simp_all add: done_part_def)
  have p: "p = Some x" "live_at s x" using assms(3) by (simp_all add: segment_Cons)
  have t: "t \<notin> set ws" "t \<notin> set (x # xs)" "x \<notin> set rs" using assms(4) rs by auto
  show ?thesis
  proof (rule that)
    show "set_next tail p s = Some (s\<lparr>next_of := (next_of s)(t := Some x)\<rparr>)"
      "set_prev p tail (s\<lparr>next_of := (next_of s)(t := Some x)\<rparr>) = Some ?s1" using d p by (simp_all add: set_defs)
    have "chain (next_of ?s1) (live_at s) (Some (hd rs)) (ws @ t # x # xs) None"
      using d t p assms(3) by (auto simp: segment_def)
    moreover have "linked (prev_of ?s1) (rs @ x # xs)"
      using d(5) t(3) assms(3,4) rs by (simp add: segment_def)
    ultimately show "segment ?s1 result (rs @ x # xs)" using assms(4) d(1) rs by (simp add: segment_def)
    show "relinks s ?s1 (set (rs @ x # xs))" using rs by (auto simp: relinks_def)
    show "prev_of ?s1 (hd rs) = prev_of s (hd rs)" using t(3) rs by (cases ws) auto
  qed
qed

definition merged :: "bool \<Rightarrow> node_store \<Rightarrow> addr list \<Rightarrow> addr list \<Rightarrow> addr list \<Rightarrow> addr list \<Rightarrow> bool" where
  "merged cs s xs ys rs zs \<longleftrightarrow> (\<exists>ws. zs = rs @ ws \<and> mset ws = mset xs + mset ys \<and>
     map (item_of s) ws = merge_lists cs (map (item_of s) xs) (map (item_of s) ys))"

lemma append_rest_seg:
  assumes "done_part s rs result tail" and "segment s p xs" and "segment s q ys" and "distinct (rs @ xs @ ys)"
    and one: "xs = [] \<and> ys \<noteq> [] \<or> ys = [] \<and> xs \<noteq> []"
  obtains s' r where "append_rest p q result tail s = Some (r, s')" "segment s' r (rs @ xs @ ys)"
    "relinks s s' (set (rs @ xs @ ys))" "prev_of s' (hd (rs @ xs @ ys)) = prev_of s (hd (rs @ xs @ ys))"
proof (cases "rs = []")
  case True
  then have "result = None" using assms(1) by (simp add: done_part_def)
  then show ?thesis using that [of "if xs = [] then q else p" s] one assms(2,3) True
    by (auto simp: append_rest_def segment_def split: if_splits dest: chain_ne)
next
  case False
  have res: "result \<noteq> None" using assms(1) False by (simp add: done_part_def)
  show ?thesis
  proof (cases xs)
    case Nil
    then obtain y ys' where y: "ys = y # ys'" using one by (cases ys) auto
    obtain s0 s1 where s1: "set_next tail q s = Some s0" "set_prev q tail s0 = Some s1" "segment s1 result (rs @ y # ys')"
      "relinks s s1 (set (rs @ y # ys'))" "prev_of s1 (hd rs) = prev_of s (hd rs)"
      using done_finish [OF assms(1) False] assms(3,4) y Nil by (metis append_Nil)
    have "p = None" using assms(2) Nil by (simp add: segment_def)
    then show ?thesis using that [of result s1] s1 res Nil y False
      by (simp add: append_rest_def segment_Cons assms(3) [unfolded y segment_Cons])
  next
    case (Cons x xs')
    then have ys: "ys = []" using one by simp
    obtain s0 s1 where s1: "set_next tail p s = Some s0" "set_prev p tail s0 = Some s1" "segment s1 result (rs @ x # xs')"
      "relinks s s1 (set (rs @ x # xs'))" "prev_of s1 (hd rs) = prev_of s (hd rs)"
      using done_finish [OF assms(1) False, of p x xs'] assms(2,4) Cons ys by auto
    have "q = None" using assms(3) ys by (simp add: segment_def)
    then show ?thesis using that [of result s1] s1 res Cons ys False
      by (simp add: append_rest_def segment_Cons assms(2) [unfolded Cons segment_Cons])
  qed
qed

lemma seg_distinct_hd: "segment s p xs \<Longrightarrow> distinct xs"
  by (simp add: segment_def)

lemma merge_lists_Nil [simp]: "merge_lists cs xs [] = xs"
  by (cases xs) simp_all

lemma merge_at_seg:
  assumes "done_part s rs result tail" and "segment s p xs" and "segment s q ys" and "distinct (rs @ xs @ ys)"
    and "xs \<noteq> [] \<or> ys \<noteq> []"
  shows "\<exists>s' r ws. merge_at cs p q result tail s = Some (r, s') \<and> segment s' r (rs @ ws) \<and>
    mset ws = mset xs + mset ys \<and> map (item_of s) ws = merge_lists cs (map (item_of s) xs) (map (item_of s) ys) \<and>
    relinks s s' (set (rs @ xs @ ys)) \<and> prev_of s' (hd (rs @ ws)) = prev_of s (hd (rs @ ws)) \<and>
    (xs \<noteq> [] \<and> hd ws = hd xs \<or> ys \<noteq> [] \<and> hd ws = hd ys)"
  using assms
proof (induction "length xs + length ys" arbitrary: s rs result tail p xs q ys rule: less_induct)
  case less
  show ?case
  proof (cases "xs = [] \<or> ys = []")
    case True
    then have "xs = [] \<and> ys \<noteq> [] \<or> ys = [] \<and> xs \<noteq> []" using less.prems(5) by blast
    then obtain s' r where r: "append_rest p q result tail s = Some (r, s')" "segment s' r (rs @ xs @ ys)"
      "relinks s s' (set (rs @ xs @ ys))" "prev_of s' (hd (rs @ xs @ ys)) = prev_of s (hd (rs @ xs @ ys))"
      using append_rest_seg [OF less.prems(1-4)] by metis
    have "p = None \<or> q = None" using True less.prems(2,3) by (auto simp: segment_def)
    then have "merge_at cs p q result tail s = Some (r, s')" using r(1) by (subst merge_at.simps) simp
    then show ?thesis using r True less.prems(5) by (intro exI [of _ s'] exI [of _ r] exI [of _ "xs @ ys"]) auto
  next
    case False
    then obtain x xs' y ys' where xy: "xs = x # xs'" "ys = y # ys'" by (cases xs; cases ys) auto
    have x: "p = Some x" "live_at s x" "segment s (next_of s x) xs'" and y: "q = Some y" "live_at s y" "segment s (next_of s y) ys'"
      using less.prems(2,3) xy by (simp_all add: segment_Cons)
    have d: "names_diff cs p q s = Some (name_diff cs (item_of s x) (item_of s y))"
      using x y by (simp add: names_diff_items)
    have dist: "x \<notin> set (rs @ xs' @ ys)" "y \<notin> set (rs @ xs @ ys')" "x \<noteq> y" using less.prems(4) xy by auto
    have step: "\<exists>s' r ws. merge_at cs p q result tail s = Some (r, s') \<and> segment s' r (rs @ ws) \<and>
        mset ws = mset xs + mset ys \<and> map (item_of s) ws = item_of s v # merge_lists cs (map (item_of s) us) (map (item_of s) vs) \<and>
        relinks s s' (set (rs @ xs @ ys)) \<and> prev_of s' (hd (rs @ ws)) = prev_of s (hd (rs @ ws)) \<and> hd ws = v"
      if v: "v = (if name_diff cs (item_of s x) (item_of s y) < 0 then x else y)"
        "us = (if name_diff cs (item_of s x) (item_of s y) < 0 then xs' else xs)"
        "vs = (if name_diff cs (item_of s x) (item_of s y) < 0 then ys else ys')" for v us vs
    proof -
      have vl: "live_at s v" "distinct (rs @ [v])" using v x y dist less.prems(4) by auto
      obtain s1 where s1: "(if result = None then Some s else do { s \<leftarrow> set_next tail (Some v) s; set_prev (Some v) tail s }) = Some s1"
        "done_part s1 (rs @ [v]) (if result = None then Some v else result) (Some v)"
        "next_of s1 v = next_of s v" "relinks s s1 (set (rs @ [v]))" "prev_of s1 (hd (rs @ [v])) = prev_of s (hd (rs @ [v]))"
        using done_extend [OF less.prems(1) vl] .
      let ?p = "if v = x then next_of s x else p" and ?q = "if v = x then q else next_of s y"
      have vx: "v = x \<longleftrightarrow> name_diff cs (item_of s x) (item_of s y) < 0" using v dist(3) by simp
      have segs: "segment s ?p us" "segment s ?q vs" using x y v vx less.prems(2,3) by auto
      have disj: "set us \<inter> set (rs @ [v]) = {}" "set vs \<inter> set (rs @ [v]) = {}"
        using less.prems(4) dist v xy by (auto split: if_splits)
      have segs1: "segment s1 ?p us" "segment s1 ?q vs"
        using segment_relinks [OF segs(1) s1(4) disj(1)] segment_relinks [OF segs(2) s1(4) disj(2)] by blast+
      have "distinct ((rs @ [v]) @ us @ vs)" "us \<noteq> [] \<or> vs \<noteq> []" "length us + length vs < length xs + length ys"
        using less.prems(4) v xy by (auto split: if_splits)
      from less.hyps [OF this(3) s1(2) segs1 this(1,2)] obtain s' r ws where r:
        "merge_at cs ?p ?q (if result = None then Some v else result) (Some v) s1 = Some (r, s')"
        "segment s' r ((rs @ [v]) @ ws)" "mset ws = mset us + mset vs"
        "map (item_of s1) ws = merge_lists cs (map (item_of s1) us) (map (item_of s1) vs)"
        "relinks s1 s' (set ((rs @ [v]) @ us @ vs))" "prev_of s' (hd ((rs @ [v]) @ ws)) = prev_of s1 (hd ((rs @ [v]) @ ws))"
        by blast
      have item: "item_of s1 = item_of s" "live_at s1 = live_at s" using relinks_fields [OF s1(4)] by auto
      have d': "names_diff cs (Some x) (Some y) s = Some (name_diff cs (item_of s x) (item_of s y))"
        using d x(1) y(1) by simp
      have linked_up: "result = None \<and> s1 = s \<or> (\<exists>s0 u. result = Some u \<and> set_next tail (Some v) s = Some s0 \<and> set_prev (Some v) tail s0 = Some s1)"
        using s1(1) by (cases result) (auto split: bind_splits)
      have "merge_at cs p q result tail s = Some (r, s')"
      proof (cases "name_diff cs (item_of s x) (item_of s y) < 0")
        case True
        then have vv: "v = x" using v by simp
        have n: "next_of s1 x = next_of s x" "live_at s1 x" using s1(3) item x(2) vv by simp_all
        show ?thesis using r(1) [unfolded vv x(1) y(1)] linked_up [unfolded vv] n
          by (subst merge_at.simps) (auto simp: x(1) y(1) d' True Let_def)
      next
        case False
        then have vv: "v = y" "y \<noteq> x" using v dist(3) by simp_all
        have n: "next_of s1 y = next_of s y" "live_at s1 y" using s1(3) item y(2) vv by simp_all
        show ?thesis using r(1) [unfolded vv(1) x(1) y(1)] linked_up [unfolded vv(1)] n vv(2)
          by (subst merge_at.simps) (auto simp: x(1) y(1) d' False Let_def)
      qed
      moreover have "mset (v # ws) = mset xs + mset ys" using r(3) v xy by (auto split: if_splits)
      moreover have "relinks s s' (set (rs @ xs @ ys))"
        by (rule relinks_trans [OF s1(4) r(5)]) (use v xy in \<open>auto split: if_splits\<close>)
      moreover have "hd ((rs @ [v]) @ ws) = hd (rs @ [v])" by (cases rs) simp_all
      ultimately show ?thesis using r(2,4,6) s1(5) item
        by (intro exI [of _ s'] exI [of _ r] exI [of _ "v # ws"]) simp
    qed
    let ?le = "name_diff cs (item_of s x) (item_of s y) < 0"
    from step [OF refl refl refl] obtain s' r ws where w: "merge_at cs p q result tail s = Some (r, s')" "segment s' r (rs @ ws)"
      "mset ws = mset xs + mset ys" "relinks s s' (set (rs @ xs @ ys))" "prev_of s' (hd (rs @ ws)) = prev_of s (hd (rs @ ws))"
      "hd ws = (if ?le then x else y)"
      and m: "map (item_of s) ws = item_of s (if ?le then x else y) #
          merge_lists cs (map (item_of s) (if ?le then xs' else xs)) (map (item_of s) (if ?le then ys else ys'))"
      by (elim exE conjE) (rule that)
    have "map (item_of s) ws = merge_lists cs (map (item_of s) xs) (map (item_of s) ys)" using m xy by simp
    moreover have "xs \<noteq> [] \<and> hd ws = hd xs \<or> ys \<noteq> [] \<and> hd ws = hd ys" using w(6) xy by simp
    ultimately show ?thesis using w(1-5) by (intro exI [of _ s'] exI [of _ r] exI [of _ ws] conjI)
  qed
qed

lemma sort_list_at_seg:
  assumes "segment s p xs"
  shows "\<exists>s' r zs. sort_list_at cs p s = Some (r, s') \<and> segment s' r zs \<and> mset zs = mset xs \<and>
    map (item_of s) zs = sort_list cs (map (item_of s) xs) \<and> relinks s s' (set xs) \<and>
    (xs \<noteq> [] \<longrightarrow> prev_of s' (hd zs) = (if hd zs = hd xs then prev_of s (hd xs) else None))"
  using assms
proof (induction "length xs" arbitrary: s p xs rule: less_induct)
  case less
  have c: "chain (next_of s) (live_at s) p xs None" using less.prems by (simp add: segment_def)
  show ?case
  proof (cases "length xs < 2 \<or> ascending cs (map (item_of s) xs)")
    case True
    then have same: "sort_list cs (map (item_of s) xs) = map (item_of s) xs" by (subst sort_list.simps) simp
    have "sort_list_at cs p s = Some (p, s)"
    proof (cases xs)
      case Nil
      then show ?thesis using c by (subst sort_list_at.simps) simp
    next
      case (Cons x xs')
      then show ?thesis using c True ascending_at_items [OF c]
        by (cases xs'; subst sort_list_at.simps) auto
    qed
    then show ?thesis using less.prems same by (intro exI [of _ s] exI [of _ p] exI [of _ xs]) simp
  next
    case False
    let ?n = "middle (length xs)"
    have n: "0 < ?n" "?n < length xs" using False middle_bounds(2) [of "length xs"] by auto
    let ?us = "take ?n xs" and ?v = "xs ! ?n" and ?vs = "drop (Suc ?n) xs"
    have xs: "?us @ ?v # ?vs = xs" using n by (simp add: id_take_nth_drop [symmetric])
    have us: "?us \<noteq> []" using n by auto
    obtain x x' xs' where xx: "xs = x # x' # xs'" using False by (cases xs; cases "tl xs") auto
    have p: "p = Some x" "live_at s x" "next_of s x = Some x'" using c xx by auto
    have mid: "middle_at p p s = Some (Some ?v)" using middle_at_nth [OF c c] n by simp
    obtain s1 where s1: "split_at (Some ?v) s = Some s1" "segment s1 p ?us" "segment s1 (Some ?v) (?v # ?vs)" "prev_of s1 ?v = None"
      "prev_of s1 (hd ?us) = prev_of s (hd ?us)" "relinks s s1 (set xs)"
      using split_at_seg [of s p ?us ?v ?vs] less.prems us unfolding xs by metis
    have it1: "item_of s1 = item_of s" using relinks_fields [OF s1(6)] by simp
    have "length ?us < length xs" "length (?v # ?vs) < length xs" using n by auto
    from less.hyps [OF this(1) s1(2)] obtain s2 r1 ws1 where 2: "sort_list_at cs p s1 = Some (r1, s2)" "segment s2 r1 ws1"
      "mset ws1 = mset ?us" "map (item_of s) ws1 = sort_list cs (map (item_of s) ?us)" "relinks s1 s2 (set ?us)"
      "prev_of s2 (hd ws1) = (if hd ws1 = hd ?us then prev_of s1 (hd ?us) else None)"
      using us unfolding it1 by blast
    have d: "distinct xs" using less.prems by (simp add: segment_def)
    have dd: "set ?us \<inter> set (?v # ?vs) = {}" "distinct ?us" "distinct (?v # ?vs)" proof -
      have "distinct (?us @ ?v # ?vs)" using d by (simp only: xs)
      then show "set ?us \<inter> set (?v # ?vs) = {}" "distinct ?us" "distinct (?v # ?vs)" by auto
    qed
    have v2: "segment s2 (Some ?v) (?v # ?vs)" using segment_relinks [OF s1(3) 2(5)] dd(1) by blast
    have it2: "item_of s2 = item_of s" using relinks_fields [OF 2(5)] it1 by simp
    from less.hyps [OF \<open>length (?v # ?vs) < length xs\<close> v2] obtain s3 r2 ws2 where 3: "sort_list_at cs (Some ?v) s2 = Some (r2, s3)" "segment s3 r2 ws2"
      "mset ws2 = mset (?v # ?vs)" "map (item_of s) ws2 = sort_list cs (map (item_of s) (?v # ?vs))"
      "relinks s2 s3 (set (?v # ?vs))" "prev_of s3 (hd ws2) = (if hd ws2 = ?v then prev_of s2 ?v else None)"
      unfolding it2 by (metis list.distinct(1) list.sel(1))
    have ws: "set ws1 = set ?us" "set ws2 = set (?v # ?vs)" using 2(3) 3(3) by (metis set_mset_mset)+
    have v3: "segment s3 r1 ws1" using segment_relinks [OF 2(2) 3(5)] ws(1) dd(1) by blast
    have it3: "item_of s3 = item_of s" using relinks_fields [OF 3(5)] it2 by simp
    have w: "distinct ([] @ ws1 @ ws2)" "ws1 \<noteq> [] \<or> ws2 \<noteq> []"
      using 2(2) 3(2) ws dd(1) by (auto simp: segment_def)
    obtain s' r zs where 4: "merge_at cs r1 r2 None None s3 = Some (r, s')" "segment s' r zs" "mset zs = mset ws1 + mset ws2"
      "map (item_of s) zs = merge_lists cs (map (item_of s) ws1) (map (item_of s) ws2)" "relinks s3 s' (set ws1 \<union> set ws2)"
      "prev_of s' (hd zs) = prev_of s3 (hd zs)" "ws1 \<noteq> [] \<and> hd zs = hd ws1 \<or> ws2 \<noteq> [] \<and> hd zs = hd ws2"
      using merge_at_seg [OF _ v3 3(2) w, of None None cs] unfolding it3 by (auto simp: done_part_def)
    have all: "mset zs = mset xs"
    proof -
      have "mset zs = mset (?us @ ?v # ?vs)" using 4(3) 2(3) 3(3) by simp
      then show ?thesis by (simp only: xs)
    qed
    have set_xs: "set ?us \<union> set (?v # ?vs) = set xs" using xs by (metis set_append)
    have "sort_list_at cs p s = Some (r, s')"
      using p mid s1(1) 2(1) 3(1) 4(1) ascending_at_items [OF c] False
      by (subst sort_list_at.simps) simp
    moreover have "map (item_of s) zs = sort_list cs (map (item_of s) xs)"
      using 4(4) 2(4) 3(4) False n by (subst sort_list.simps) (simp add: take_map drop_map Cons_nth_drop_Suc)
    moreover have "relinks s s' (set xs)"
    proof -
      have "relinks s s2 (set xs)" by (rule relinks_trans [OF s1(6) 2(5)]) (use set_xs in auto)
      then have "relinks s s3 (set xs)" by (rule relinks_trans [OF _ 3(5)]) (use set_xs in auto)
      then show ?thesis by (rule relinks_trans [OF _ 4(5)]) (use set_xs ws in auto)
    qed
    moreover have "prev_of s' (hd zs) = (if hd zs = hd xs then prev_of s (hd xs) else None)"
    proof -
      have hd_xs: "hd ?us = hd xs" using us by (cases xs) (auto simp: take_Cons split: nat.splits)
      have v: "prev_of s2 ?v = None" using relinks_fields(6) [OF 2(5), of ?v] dd(1) s1(4) by auto
      have hd_us: "hd ?us \<in> set ?us" using us by (rule hd_in_set)
      from 4(7) show ?thesis
      proof
        assume z: "ws1 \<noteq> [] \<and> hd zs = hd ws1"
        then have "hd ws1 \<notin> set (?v # ?vs)" using dd(1) ws(1) by (metis disjoint_iff hd_in_set)
        then have "prev_of s3 (hd ws1) = prev_of s2 (hd ws1)" using relinks_fields(6) [OF 3(5)] by blast
        then show ?thesis using z 4(6) 2(6) s1(5) hd_xs by simp
      next
        assume z: "ws2 \<noteq> [] \<and> hd zs = hd ws2"
        then have "hd ws2 \<in> set (?v # ?vs)" using ws(2) hd_in_set by metis
        then have "hd ws2 \<noteq> hd xs" using dd(1) hd_us hd_xs by (metis disjoint_iff)
        then show ?thesis using z 4(6) 3(6) v by simp
      qed
    qed
    ultimately show ?thesis using 4(2) all by blast
  qed
qed

lemma sort_object_at_children:
  assumes "children s a xs"
  obtains s' ys where "sort_object_at (Some a) cs s = Some s'" "mset ys = mset xs"
    "map (item_of s) ys = sort_list cs (map (item_of s) xs)" "segment s' (child_of s' a) ys"
    "live_at s' = live_at s" "item_of s' = item_of s" "\<And>x. x \<notin> set xs \<Longrightarrow> next_of s' x = next_of s x"
    "xs \<noteq> [] \<Longrightarrow> prev_of s' (hd ys) = (if hd ys = hd xs then prev_of s (hd xs) else None)"
proof -
  have segment: "segment s (child_of s a) xs" and l: "live_at s a" using assms by (auto simp: children_def segment_def)
  obtain s1 r ys where 1: "sort_list_at cs (child_of s a) s = Some (r, s1)" "segment s1 r ys" "mset ys = mset xs"
    "map (item_of s) ys = sort_list cs (map (item_of s) xs)" "relinks s s1 (set xs)"
    "xs \<noteq> [] \<longrightarrow> prev_of s1 (hd ys) = (if hd ys = hd xs then prev_of s (hd xs) else None)"
    using sort_list_at_seg [OF segment] by blast
  let ?s' = "s1\<lparr>child_of := (child_of s1)(a := r)\<rparr>"
  have f: "live_at s1 = live_at s" "item_of s1 = item_of s" "\<And>x. x \<notin> set xs \<Longrightarrow> next_of s1 x = next_of s x"
    using relinks_fields [OF 1(5)] by auto
  show ?thesis
  proof (rule that [of ?s' ys])
    show "sort_object_at (Some a) cs s = Some ?s'" using 1(1) l f by (simp add: sort_object_at_def set_defs)
    show "segment ?s' (child_of ?s' a) ys" using 1(2) by (simp add: segment_def)
    have "item_of ?s' x = item_of s1 x" for x by (simp add: item_of_def)
    then show "item_of ?s' = item_of s" using f by (simp add: fun_eq_iff)
  qed (use 1 f in simp_all)
qed

text \<open>
  C9. Sorting nodes is sorting lists.  On the children of an object, \<open>sort_object\<close> ends, keeps the same
  nodes, and chains them, forwards and backwards, in the order in which the merge sort on lists
  puts their names; when the first child had no \<open>prev\<close> (the parser's chains), the result is a proper
  chain of children again.
\<close>

theorem sorting_nodes_sorts:
  assumes "children s a xs"
  shows "\<exists>s' ys. sort_object_at (Some a) cs s = Some s' \<and> mset ys = mset xs \<and>
    map (item_of s) ys = sort_list cs (map (item_of s) xs) \<and>
    chain (next_of s') (live_at s') (child_of s' a) ys None \<and> linked (prev_of s') ys \<and>
    (prev_of s (hd xs) = None \<longrightarrow> children s' a ys)"
proof -
  obtain s' ys where r: "sort_object_at (Some a) cs s = Some s'" "mset ys = mset xs"
    "map (item_of s) ys = sort_list cs (map (item_of s) xs)" "segment s' (child_of s' a) ys" "live_at s' = live_at s"
    "xs \<noteq> [] \<Longrightarrow> prev_of s' (hd ys) = (if hd ys = hd xs then prev_of s (hd xs) else None)"
    using sort_object_at_children [OF assms, of cs] by metis
  have "live_at s' a" using r(5) assms by (simp add: children_def)
  moreover have "ys \<noteq> [] \<longleftrightarrow> xs \<noteq> []" using r(2) by auto
  ultimately have "prev_of s (hd xs) = None \<longrightarrow> children s' a ys" using r(4,6) by (auto simp: children_def segment_def)
  then show ?thesis using r by (auto simp: segment_def)
qed

definition named_store :: node_store where
  "named_store = sample_store\<lparr>name_of := [1 \<mapsto> ''a'', 2 \<mapsto> ''c'', 3 \<mapsto> ''b'']\<rparr>"

lemma named_children: "children named_store 0 [1, 2, 3]"
  using sample_children by (simp add: named_store_def children_def)

lemma named_sorted:
  assumes "mset ys = mset [1, 2, 3]" and "map (item_of named_store) ys = sort_list True (map (item_of named_store) [1, 2, 3])"
  shows "ys = [1, 3, 2]"
proof -
  have names: "item_of named_store 1 = CJson 0 [] None 0 (DFin False 0) (Some ''a'')"
    "item_of named_store 2 = CJson 0 [] None 0 (DFin False 0) (Some ''c'')"
    "item_of named_store 3 = CJson 0 [] None 0 (DFin False 0) (Some ''b'')"
    by (simp_all add: item_of_def named_store_def)
  have "sort_list True (map (item_of named_store) [1, 2, 3]) = map (item_of named_store) [1, 3, 2]"
    unfolding list.map names by code_simp
  with assms(2) have m: "map (item_of named_store) ys = map (item_of named_store) [1, 3, 2]" by simp
  have "set ys = {1, 2, 3}" using assms(1) by (metis list.set(1) list.set(2) set_mset_mset)
  moreover have "inj_on (item_of named_store) {1, 2, 3}"
    using names by (auto simp: inj_on_def)
  ultimately show ?thesis using m by (intro map_inj_on [where f = "item_of named_store"]) auto
qed

lemma sorting_nodes_sorts_witness:
  "\<exists>s'. sort_object_at (Some 0) True named_store = Some s' \<and> chain (next_of s') (live_at s') (child_of s' 0) [1, 3, 2] None"
  using sorting_nodes_sorts [OF named_children, of True] named_sorted by metis

lemma named_store_sorts:
  "\<exists>s'. sort_object_at (Some 0) True named_store = Some s' \<and> segment s' (child_of s' 0) [1, 3, 2]"
proof -
  obtain s' ys where r: "sort_object_at (Some 0) True named_store = Some s'" "mset ys = mset [1, 2, 3]"
    "map (item_of named_store) ys = sort_list True (map (item_of named_store) [1, 2, 3])" "segment s' (child_of s' 0) ys"
    using sort_object_at_children [OF named_children, of True] by metis
  then show ?thesis using named_sorted [OF r(2,3)] by auto
qed

lemma chain_unique: "chain n l p xs None \<Longrightarrow> chain n l p ys None \<Longrightarrow> xs = ys"
proof (induction xs arbitrary: p ys)
  case Nil
  then show ?case by (cases ys) auto
next
  case (Cons x xs)
  then show ?case by (cases ys) auto
qed



end
