(* ===== verification/CUtilsGenerateProps.thy ===== *)
theory CUtilsGenerateProps
  imports CUtilsGenerate
begin

section \<open>Generated patches do what they should\<close>

text \<open>
  The meaning RFC 6902 gives to patches, on documents whose members are maps, and the proof that
  the patches of \<open>create_patches\<close> turn the first document into the second.
\<close>

subsection \<open>The reference\<close>

datatype doc = DLit "32 word" | DNum int dbl | DStr bytes | DArr "doc list" | DObj "bytes \<Rightarrow> doc option"

definition name :: "cJSON \<Rightarrow> bytes" where
  "name x = c_str (the (item_string x))"

fun meaning :: "cJSON \<Rightarrow> doc" where
  "meaning (CJson t c s i d k) =
     (if kind t = cJSON_Number then DNum i d
      else if kind t = cJSON_String then DStr (c_str (the s))
      else if kind t = cJSON_Array then DArr (map meaning c)
      else if kind t = cJSON_Object then DObj (map_of (map (\<lambda>x. (name x, meaning x)) c))
      else DLit (kind t))"

text \<open>
  The documents considered: no raw items; strings have a value; members have different names,
  which hold no slash and no tilde.
\<close>

definition plain_name :: "cJSON \<Rightarrow> bool" where
  "plain_name x \<longleftrightarrow> item_string x \<noteq> None \<and> CHR ''/'' \<notin> set (name x) \<and> CHR ''~'' \<notin> set (name x)"

fun document :: "cJSON \<Rightarrow> bool" where
  "document (CJson t c s i d k) \<longleftrightarrow>
     kind t \<in> {cJSON_False, cJSON_True, cJSON_NULL, cJSON_Number} \<or>
     kind t = cJSON_String \<and> s \<noteq> None \<or>
     kind t = cJSON_Array \<and> length c < 10 ^ 20 \<and> (\<forall>x \<in> set c. document x) \<or>
     kind t = cJSON_Object \<and> (\<forall>x \<in> set c. document x \<and> plain_name x) \<and> distinct (map name c)"

text \<open>RFC 6901: an array index has no leading zero.\<close>

definition array_index :: "bytes \<Rightarrow> nat option" where
  "array_index t =
     (if t \<noteq> [] \<and> list_all is_digit t \<and> (hd t \<noteq> CHR ''0'' \<or> tl t = []) then Some (digits_val t) else None)"

text \<open>A change at the place a list of tokens leads to, and the value there.\<close>

fun under :: "bytes list \<Rightarrow> (doc \<Rightarrow> doc option) \<Rightarrow> doc \<Rightarrow> doc option" where
  "under [] f d = f d"
| "under (t # ts) f (DObj m) = do { x \<leftarrow> m t; y \<leftarrow> under ts f x; Some (DObj (m(t \<mapsto> y))) }"
| "under (t # ts) f (DArr ds) =
     do { i \<leftarrow> array_index t;
          if i < length ds then do { y \<leftarrow> under ts f (ds ! i); Some (DArr (ds[i := y])) } else None }"
| "under (t # ts) f d = None"

fun locate :: "bytes list \<Rightarrow> doc \<Rightarrow> doc option" where
  "locate [] d = Some d"
| "locate (t # ts) (DObj m) = do { x \<leftarrow> m t; locate ts x }"
| "locate (t # ts) (DArr ds) =
     do { i \<leftarrow> array_index t; if i < length ds then locate ts (ds ! i) else None }"
| "locate (t # ts) d = None"

text \<open>RFC 6902, sections 4.1 and 4.2: adding to and removing from an object or an array.\<close>

definition add_at :: "bytes \<Rightarrow> doc \<Rightarrow> doc \<Rightarrow> doc option" where
  "add_at t v d =
     (case d of
        DObj m \<Rightarrow> Some (DObj (m(t \<mapsto> v)))
      | DArr ds \<Rightarrow>
          if t = ''-'' then Some (DArr (ds @ [v]))
          else do { i \<leftarrow> array_index t;
                    if i \<le> length ds then Some (DArr (take i ds @ v # drop i ds)) else None }
      | _ \<Rightarrow> None)"

definition remove_at :: "bytes \<Rightarrow> doc \<Rightarrow> doc option" where
  "remove_at t d =
     (case d of
        DObj m \<Rightarrow> if m t = None then None else Some (DObj (m(t := None)))
      | DArr ds \<Rightarrow>
          do { i \<leftarrow> array_index t;
               if i < length ds then Some (DArr (take i ds @ drop (Suc i) ds)) else None }
      | _ \<Rightarrow> None)"

text \<open>
  One operation.  Removing the whole document is not an operation of the RFC; move, copy and test
  are not generated.
\<close>

definition operate :: "bytes \<Rightarrow> bytes list \<Rightarrow> doc option \<Rightarrow> doc \<Rightarrow> doc option" where
  "operate opn ts v d =
     (if opn = ''replace'' then do { x \<leftarrow> v; under ts (\<lambda>_. Some x) d }
      else if opn = ''add''
      then do { x \<leftarrow> v; if ts = [] then Some x else under (butlast ts) (add_at (last ts) x) d }
      else if opn = ''remove''
      then (if ts = [] then None else under (butlast ts) (remove_at (last ts)) d)
      else None)"

text \<open>A patch is an object with an operation, a pointer and perhaps a value.\<close>

definition member :: "bytes \<Rightarrow> cJSON \<Rightarrow> cJSON option" where
  "member n p = List.find (\<lambda>x. item_string x = Some n) (child p)"

definition patch_tokens :: "bytes \<Rightarrow> bytes list option" where
  "patch_tokens p = (if p = [] \<or> hd p = CHR ''/'' then those (map unescape_token (tokens p)) else None)"

definition apply_ref :: "cJSON \<Rightarrow> doc \<Rightarrow> doc option" where
  "apply_ref p d =
     do { opn \<leftarrow> member ''op'' p; opn \<leftarrow> valuestring opn;
          path \<leftarrow> member ''path'' p; path \<leftarrow> valuestring path; ts \<leftarrow> patch_tokens path;
          operate opn ts (map_option meaning (member ''value'' p)) d }"

fun apply_all :: "cJSON list \<Rightarrow> doc \<Rightarrow> doc option" where
  "apply_all [] d = Some d"
| "apply_all (p # ps) d = do { d \<leftarrow> apply_ref p d; apply_all ps d }"

text \<open>\<open>create_patches\<close> takes numbers for equal that differ by at most \<open>CJSON_DOUBLE_PRECISION\<close>.\<close>

inductive agree :: "doc \<Rightarrow> doc \<Rightarrow> bool" where
  agree_refl: "agree d d"
| agree_number: "compare_double x y \<Longrightarrow> agree (DNum i x) (DNum i y)"
| agree_array: "list_all2 agree xs ys \<Longrightarrow> agree (DArr xs) (DArr ys)"
| agree_object: "\<forall>k. rel_option agree (m k) (n k) \<Longrightarrow> agree (DObj m) (DObj n)"
  monos list.rel_mono option.rel_mono

subsection \<open>Places\<close>

lemma apply_all_append: "apply_all (ps @ qs) d = Option.bind (apply_all ps d) (apply_all qs)"
  by (induction ps d rule: apply_all.induct) (auto split: bind_splits)

lemma locate_append: "locate (ts @ us) d = Option.bind (locate ts d) (locate us)"
  by (induction ts d rule: locate.induct) (auto split: bind_splits)

lemma under_append: "under (ts @ us) f d = under ts (under us f) d"
  by (induction ts f d rule: under.induct) (auto split: bind_splits)

lemma under_locate:
  "locate ts d = Some x \<Longrightarrow> under ts f d = Option.bind (f x) (\<lambda>y. under ts (\<lambda>_. Some y) d)"
  by (induction ts f d rule: under.induct) (auto split: bind_splits if_splits)

lemma under_keep: "locate ts d = Some x \<Longrightarrow> under ts (\<lambda>_. Some x) d = Some d"
  by (induction ts "\<lambda>_ :: doc. Some x" d rule: under.induct) (auto split: bind_splits if_splits simp: fun_upd_idem)

lemma under_put:
  "locate ts d = Some x \<Longrightarrow> \<exists>d'. under ts (\<lambda>_. Some y) d = Some d' \<and> locate ts d' = Some y \<and>
     (\<forall>z. under ts (\<lambda>_. Some z) d' = under ts (\<lambda>_. Some z) d)"
proof (induction ts "\<lambda>_ :: doc. Some y" d rule: under.induct)
  case (2 t ts m)
  then obtain z where z: "m t = Some z" "locate ts z = Some x" by (auto split: bind_splits)
  from 2(1) [OF z] obtain d' where "under ts (\<lambda>_. Some y) z = Some d'" "locate ts d' = Some y"
    "\<forall>u. under ts (\<lambda>_. Some u) d' = under ts (\<lambda>_. Some u) z" by auto
  then show ?case using z(1) by auto
next
  case (3 t ts ds)
  then obtain i where i: "array_index t = Some i" "i < length ds" "locate ts (ds ! i) = Some x"
    by (auto split: bind_splits if_splits)
  from 3(1) [OF i] obtain d' where "under ts (\<lambda>_. Some y) (ds ! i) = Some d'" "locate ts d' = Some y"
    "\<forall>u. under ts (\<lambda>_. Some u) d' = under ts (\<lambda>_. Some u) (ds ! i)" by auto
  then show ?case using i(1,2) by auto
qed auto

text \<open>\<open>leads qs ts x y\<close>: in any document with \<open>x\<close> at the place \<open>ts\<close>, the patches put \<open>y\<close> there.\<close>

definition leads :: "cJSON list \<Rightarrow> bytes list \<Rightarrow> doc \<Rightarrow> doc \<Rightarrow> bool" where
  "leads qs ts x y \<longleftrightarrow> (\<forall>d. locate ts d = Some x \<longrightarrow> apply_all qs d = under ts (\<lambda>_. Some y) d)"

lemma leads_Nil [simp]: "leads [] ts x x"
  by (simp add: leads_def under_keep)

lemma leads_append:
  assumes "leads qs ts x y" and "leads rs ts y z"
  shows "leads (qs @ rs) ts x z"
  unfolding leads_def
proof (intro allI impI)
  fix d
  assume d: "locate ts d = Some x"
  then obtain d' where "under ts (\<lambda>_. Some y) d = Some d'" "locate ts d' = Some y"
    "under ts (\<lambda>_. Some z) d' = under ts (\<lambda>_. Some z) d" using under_put [of ts d x y] by blast
  then show "apply_all (qs @ rs) d = under ts (\<lambda>_. Some z) d"
    using assms d by (simp add: leads_def apply_all_append)
qed

lemma leads_below:
  assumes "leads qs (ts @ [t]) x y" and "locate [t] c = Some x" and "under [t] (\<lambda>_. Some y) c = Some c'"
  shows "leads qs ts c c'"
  unfolding leads_def
proof (intro allI impI)
  fix d
  assume d: "locate ts d = Some c"
  have "apply_all qs d = under ts (under [t] (\<lambda>_. Some y)) d"
    using assms(1,2) d by (simp add: leads_def locate_append under_append)
  also have "\<dots> = under ts (\<lambda>_. Some c') d" using under_locate [OF d, of "under [t] (\<lambda>_. Some y)"] assms(3) by simp
  finally show "apply_all qs d = under ts (\<lambda>_. Some c') d" .
qed

lemma leads_operation:
  assumes "\<And>d. apply_ref p d = under ts f d" and "f x = Some y"
  shows "leads [p] ts x y"
  unfolding leads_def
proof (intro allI impI)
  fix d
  assume d: "locate ts d = Some x"
  show "apply_all [p] d = under ts (\<lambda>_. Some y) d"
    using assms under_locate [OF d, of f] by (cases "under ts (\<lambda>_. Some y) d") simp_all
qed

subsection \<open>Paths\<close>

text \<open>Tokens that hold neither a slash nor a tilde stand for themselves.\<close>

definition plain_token :: "bytes \<Rightarrow> bool" where
  "plain_token t \<longleftrightarrow> CHR ''/'' \<notin> set t \<and> CHR ''~'' \<notin> set t \<and> NUL \<notin> set t"

definition path_of :: "bytes list \<Rightarrow> bytes" where
  "path_of ts = concat (map (Cons CHR ''/'') ts)"

lemma path_of_snoc: "path_of (ts @ [t]) = path_of ts @ CHR ''/'' # t"
  by (simp add: path_of_def)

lemma token_followed: "CHR ''/'' \<notin> set t \<Longrightarrow> token (t @ path_of ts) = t \<and> dropWhile (\<lambda>c. c \<noteq> CHR ''/'') (t @ path_of ts) = path_of ts"
  by (cases ts) (auto simp: token_def path_of_def takeWhile_append dropWhile_append)

lemma tokens_path: "list_all plain_token ts \<Longrightarrow> tokens (path_of ts) = ts"
proof (induction ts)
  case Nil
  then show ?case by (simp add: path_of_def tokens.simps first_char_def)
next
  case (Cons t ts)
  have p: "path_of (t # ts) = CHR ''/'' # t @ path_of ts" by (simp add: path_of_def)
  show ?case using Cons token_followed [of t ts]
    by (subst tokens.simps) (simp add: p first_char_def plain_token_def)
qed

lemma unescape_plain: "CHR ''~'' \<notin> set t \<Longrightarrow> unescape_token t = Some t"
  by (induction t) auto

lemma patch_tokens_path: "list_all plain_token ts \<Longrightarrow> patch_tokens (path_of ts) = Some ts"
proof -
  assume plain: "list_all plain_token ts"
  have "path_of ts = [] \<or> hd (path_of ts) = CHR ''/''" by (cases ts) (auto simp: path_of_def)
  moreover have "those (map unescape_token ts) = Some ts"
    using plain by (induction ts) (auto simp: unescape_plain plain_token_def)
  ultimately show ?thesis using tokens_path [OF plain] by (simp add: patch_tokens_def)
qed

lemma path_no_NUL: "list_all plain_token ts \<Longrightarrow> c_str (path_of ts) = path_of ts"
  by (rule c_str_no_NUL) (auto simp: path_of_def list_all_iff plain_token_def)

lemma plain_token_index: "plain_token (show_nat i)"
proof -
  have "\<not> is_digit CHR ''/''" "\<not> is_digit CHR ''~''" by (simp_all add: is_digit_def)
  then show ?thesis using show_nat_digits [of i] by (auto simp: plain_token_def)
qed

lemma show_nat_hd: "hd (show_nat i) = CHR ''0'' \<Longrightarrow> tl (show_nat i) = []"
proof (induction i rule: show_nat.induct)
  case (1 n)
  show ?case
  proof (cases "n < 10")
    case True
    then show ?thesis by (simp add: show_nat.simps [of n])
  next
    case False
    then have hd: "hd (show_nat (n div 10)) = CHR ''0''" using 1(2) by (simp add: show_nat.simps [of n])
    with 1(1) [OF False] have "tl (show_nat (n div 10)) = []" .
    then have "show_nat (n div 10) = ''0''" using hd by (cases "show_nat (n div 10)") auto
    then have "n div 10 = 0" using digits_val_show_nat [of "n div 10"] by (simp add: digits_val_def digit_val_def)
    then show ?thesis using False by simp
  qed
qed

lemma array_index_show [simp]: "array_index (show_nat i) = Some i"
  using show_nat_digits [of i] show_nat_hd [of i] by (auto simp: array_index_def list_all_iff)

lemma index_not_dash: "show_nat i \<noteq> ''-''"
  using show_nat_digits [of i] by (auto simp: is_digit_def)

lemma pointer_length_plain: "plain_token t \<Longrightarrow> pointer_encoded_length t = length t"
  by (induction t) (auto simp: plain_token_def)

lemma encoded_plain: "plain_token t \<Longrightarrow> encoded junk t = t"
  by (induction junk t rule: encoded.induct) (auto simp: plain_token_def)

subsection \<open>When no allocation fails\<close>

abbreviation plenty :: "heap \<Rightarrow> bool" where
  "plenty h \<equiv> oom h = (\<lambda>_. False)"

lemma new_item_plenty:
  assumes "plenty h"
  obtains h' where "cJSON_New_Item h = (Some zero_item, h')" "plenty h'" "live h' = live h + 1"
  using assms by (cases h rule: new_item_cases) auto

lemma strdup_plenty:
  assumes "plenty h"
  obtains h' where "cJSON_strdup (Some v) h = (Some (c_str v), h')" "plenty h'" "live h' = live h + 1"
  using assms by (cases v h rule: strdup_cases) auto

lemma extended_path_plain:
  assumes "plenty h" and "list_all plain_token ts" and "plain_token (c_str n)"
  obtains b h' where "extended_path junk (path_of ts) n h = Some (b, h')" "c_str b = path_of (ts @ [c_str n])"
    "plenty h'" "live h' = live h + 1"
proof -
  let ?p = "path_of ts" and ?n = "c_str n"
  obtain h' where m: "malloc h = (True, h')" "plenty h'" "live h' = live h + 1"
    using assms(1) malloc_never_fails [of h] by (cases h rule: malloc_cases) auto
  let ?m = "length ?p + length ?n + 2"
  let ?junk = "NUL # drop (length ?p + 2) (map (junk (allocs h)) [0..<?m])"
  have e: "encode_string_as_pointer ((?p @ [CHR ''/'']) @ ?junk) (length (?p @ [CHR ''/''])) ?n
      = Some ((?p @ [CHR ''/'']) @ encoded ?junk ?n @ NUL # drop (Suc (pointer_encoded_length ?n)) ?junk)"
    by (rule encode_fits) (simp add: pointer_length_plain [OF assms(3)])
  show ?thesis
  proof (rule that)
    show "extended_path junk ?p n h
        = Some (?p @ CHR ''/'' # ?n @ NUL # drop (Suc (pointer_encoded_length ?n)) ?junk, h')"
      using e m encoded_plain [OF assms(3), of ?junk]
      by (simp add: extended_path_def malloc_block_def path_no_NUL [OF assms(2)] pointer_length_plain [OF assms(3)])
    have "NUL \<notin> set (?p @ CHR ''/'' # ?n)" using assms(2,3) by (auto simp: path_of_def list_all_iff plain_token_def)
    then have "c_str ((?p @ CHR ''/'' # ?n) @ NUL # r) = ?p @ CHR ''/'' # ?n" for r
      by (simp only: c_str_append_NUL) (rule c_str_no_NUL)
    then show "c_str (?p @ CHR ''/'' # ?n @ NUL # drop (Suc (pointer_encoded_length ?n)) ?junk) = path_of (ts @ [?n])"
      by (simp only: path_of_snoc append_assoc append_Cons)
  qed (use m in simp_all)
qed

subsection \<open>The patches that are composed\<close>

lemma duplicate_plenty:
  assumes "plenty h"
  obtains h' where "cJSON_Duplicate (Some x) True h = (Some (copy x), h')" "plenty h'" "live h' = live h + blocks [copy x]"
proof -
  obtain r h' where d: "duplicate x True h = (r, h')" by fastforce
  then have "copied (copy x) h (r, h')" using duplicate_copies(1) [of True x h] by simp
  with assms d that show ?thesis by (auto simp: copied_def cJSON_Duplicate_def split: option.splits)
qed

definition string_item :: "bytes \<Rightarrow> cJSON" where
  "string_item v = set_valuestring (Some v) (set_ctype cJSON_String zero_item)"

lemma create_string_plenty:
  assumes "plenty h"
  obtains h' where "cJSON_CreateString (Some v) h = (Some (string_item (c_str v)), h')" "plenty h'"
    "live h' = live h + blocks [string_item (c_str v)]"
proof -
  obtain h1 where 1: "cJSON_New_Item h = (Some zero_item, h1)" "plenty h1" "live h1 = live h + 1"
    using new_item_plenty [OF assms] .
  obtain h2 where 2: "cJSON_strdup (Some v) h1 = (Some (c_str v), h2)" "plenty h2" "live h2 = live h1 + 1"
    using strdup_plenty [OF 1(2)] .
  show ?thesis using that [of h2] 1 2
    by (simp add: cJSON_CreateString_def string_item_def Let_def zero_item_def has_flag_def ctype_defs)
qed

definition named :: "bytes \<Rightarrow> cJSON \<Rightarrow> cJSON" where
  "named n x = set_ctype (ctype x AND NOT cJSON_StringIsConst) (set_item_string (Some n) x)"

lemma flags_of_named:
  "has_flag (t AND NOT cJSON_StringIsConst) cJSON_IsReference \<longleftrightarrow> has_flag t cJSON_IsReference"
  "has_flag (t AND NOT cJSON_StringIsConst) cJSON_StringIsConst \<longleftrightarrow> False"
  "kind (t AND NOT cJSON_StringIsConst) = kind t"
proof -
  have "NOT 512 AND 256 = (256 :: 32 word)" "NOT 512 AND 512 = (0 :: 32 word)" "NOT 512 AND 0xFF = (0xFF :: 32 word)" by simp_all
  then show "has_flag (t AND NOT cJSON_StringIsConst) cJSON_IsReference \<longleftrightarrow> has_flag t cJSON_IsReference"
    "has_flag (t AND NOT cJSON_StringIsConst) cJSON_StringIsConst \<longleftrightarrow> False"
    "kind (t AND NOT cJSON_StringIsConst) = kind t"
    by (simp_all only: has_flag_def kind_def ctype_defs and.assoc) simp_all
qed

lemma blocks_named:
  "blocks [named n x] = blocks [x] + 1 - of_bool (\<not> has_flag (ctype x) cJSON_StringIsConst \<and> item_string x \<noteq> None)"
  by (cases x) (auto simp: named_def flags_of_named)

lemma add_to_object_plenty:
  assumes "plenty h"
  obtains h' where "add_to_object obj n (Some x) h = (set_child (child obj @ [named (c_str n) x]) obj, h')" "plenty h'"
    "live h' = live h + blocks [named (c_str n) x] - blocks [x]"
proof -
  obtain h1 where "cJSON_strdup (Some n) h = (Some (c_str n), h1)" "plenty h1" "live h1 = live h + 1"
    using strdup_plenty [OF assms] .
  then show ?thesis
    using that [of "if \<not> has_flag (ctype x) cJSON_StringIsConst \<and> item_string x \<noteq> None then dealloc h1 else h1"]
    by (simp add: add_to_object_def Let_def named_def [symmetric] blocks_named split: if_splits)
qed

text \<open>The patch that \<open>compose_patch\<close> builds.\<close>

definition patch_item :: "bytes \<Rightarrow> bytes \<Rightarrow> cJSON option \<Rightarrow> cJSON" where
  "patch_item opn path v =
     set_child ([named ''op'' (string_item opn), named ''path'' (string_item path)] @
         (case v of None \<Rightarrow> [] | Some x \<Rightarrow> [named ''value'' (copy x)]))
       (set_ctype cJSON_Object zero_item)"

definition emits :: "cJSON option \<Rightarrow> heap \<Rightarrow> cJSON list \<Rightarrow> cJSON option \<times> heap \<Rightarrow> bool" where
  "emits ps h qs r \<longleftrightarrow> (case (ps, r) of
      (Some p, Some p', h') \<Rightarrow> p' = set_child (child p @ qs) p \<and> plenty h' \<and> live h' = live h + blocks qs
    | _ \<Rightarrow> False)"

lemma blocks_patch_item:
  "blocks [patch_item opn path v] = 1 + blocks [named ''op'' (string_item opn)] + blocks [named ''path'' (string_item path)]
     + (case v of None \<Rightarrow> 0 | Some x \<Rightarrow> blocks [named ''value'' (copy x)])"
proof -
  have eq: "set_child c (set_ctype cJSON_Object zero_item) = CJson cJSON_Object c None 0 (DFin False 0) None" for c
    by (simp add: zero_item_def)
  have flags: "\<not> has_flag cJSON_Object cJSON_IsReference" "\<not> has_flag cJSON_Object cJSON_StringIsConst"
    by (simp_all add: has_flag_def ctype_defs)
  have split: "blocks (x # y # zs) = blocks [x] + blocks [y] + blocks zs" for x y zs
    using blocks_append [of "[x]" "y # zs"] blocks_append [of "[y]" zs] by simp
  show ?thesis
    using flags split by (simp add: patch_item_def eq split: option.splits)
qed

lemma add_path_plenty:
  assumes "plenty h" and "case sfx of None \<Rightarrow> c_str path = full
      | Some n \<Rightarrow> \<exists>b h'. extended_path junk path n h = Some (b, h') \<and> c_str b = full \<and> plenty h' \<and> live h' = live h + 1"
  obtains h' where "add_path junk path sfx obj h = Some (set_child (child obj @ [named ''path'' (string_item full)]) obj, h')"
    "plenty h'" "live h' = live h + blocks [named ''path'' (string_item full)]"
proof (cases sfx)
  case None
  obtain h1 where 1: "cJSON_CreateString (Some path) h = (Some (string_item full), h1)" "plenty h1"
    "live h1 = live h + blocks [string_item full]" using create_string_plenty [OF assms(1), of path] assms(2) None by auto
  obtain h2 where "add_to_object obj ''path'' (Some (string_item full)) h1
      = (set_child (child obj @ [named (c_str ''path'') (string_item full)]) obj, h2)" "plenty h2"
    "live h2 = live h1 + blocks [named (c_str ''path'') (string_item full)] - blocks [string_item full]"
    using add_to_object_plenty [OF 1(2)] .
  with 1 that None show ?thesis by (simp add: add_path_def)
next
  case (Some n)
  then obtain b h0 where 0: "extended_path junk path n h = Some (b, h0)" "c_str b = full" "plenty h0" "live h0 = live h + 1"
    using assms(2) by auto
  obtain h1 where 1: "cJSON_CreateString (Some b) h0 = (Some (string_item full), h1)" "plenty h1"
    "live h1 = live h0 + blocks [string_item full]" using create_string_plenty [OF 0(3), of b] 0(2) by auto
  obtain h2 where "add_to_object obj ''path'' (Some (string_item full)) h1
      = (set_child (child obj @ [named (c_str ''path'') (string_item full)]) obj, h2)" "plenty h2"
    "live h2 = live h1 + blocks [named (c_str ''path'') (string_item full)] - blocks [string_item full]"
    using add_to_object_plenty [OF 1(2)] .
  with 0 1 that Some show ?thesis by (simp add: add_path_def)
qed

lemma add_value_plenty:
  assumes "plenty h"
  obtains h' where "add_value v obj h
      = (set_child (child obj @ (case v of None \<Rightarrow> [] | Some x \<Rightarrow> [named ''value'' (copy x)])) obj, h')"
    "plenty h'" "live h' = live h + (case v of None \<Rightarrow> 0 | Some x \<Rightarrow> blocks [named ''value'' (copy x)])"
proof (cases v)
  case None
  moreover have "set_child (child obj) obj = obj" by (cases obj) simp
  ultimately show ?thesis using that assms by (simp add: add_value_def)
next
  case (Some x)
  obtain h1 where 1: "cJSON_Duplicate (Some x) True h = (Some (copy x), h1)" "plenty h1" "live h1 = live h + blocks [copy x]"
    using duplicate_plenty [OF assms] .
  obtain h2 where "add_to_object obj ''value'' (Some (copy x)) h1
      = (set_child (child obj @ [named (c_str ''value'') (copy x)]) obj, h2)" "plenty h2"
    "live h2 = live h1 + blocks [named (c_str ''value'') (copy x)] - blocks [copy x]"
    using add_to_object_plenty [OF 1(2)] .
  with 1 that Some show ?thesis by (simp add: add_value_def)
qed

lemma compose_patch_emits:
  assumes "plenty h" and path: "\<And>h. plenty h \<Longrightarrow> case sfx of None \<Rightarrow> c_str path = full
      | Some n \<Rightarrow> \<exists>b h'. extended_path junk path n h = Some (b, h') \<and> c_str b = full \<and> plenty h' \<and> live h' = live h + 1"
  shows "\<exists>r. compose_patch junk (Some ps) (Some opn) (Some path) sfx v h = Some r \<and>
    emits (Some ps) h [patch_item (c_str opn) full v] r"
proof -
  let ?o = "set_ctype cJSON_Object zero_item"
  obtain h0 where 0: "cJSON_New_Item h = (Some zero_item, h0)" "plenty h0" "live h0 = live h + 1"
    using new_item_plenty [OF assms(1)] .
  obtain h1 where 1: "cJSON_CreateString (Some opn) h0 = (Some (string_item (c_str opn)), h1)" "plenty h1"
    "live h1 = live h0 + blocks [string_item (c_str opn)]" using create_string_plenty [OF 0(2)] .
  obtain h2 where 2: "add_to_object ?o ''op'' (Some (string_item (c_str opn))) h1
      = (set_child (child ?o @ [named (c_str ''op'') (string_item (c_str opn))]) ?o, h2)" "plenty h2"
    "live h2 = live h1 + blocks [named (c_str ''op'') (string_item (c_str opn))] - blocks [string_item (c_str opn)]"
    using add_to_object_plenty [OF 1(2)] .
  obtain h3 where 3: "add_path junk path sfx (set_child [named ''op'' (string_item (c_str opn))] ?o) h2
      = Some (set_child (child (set_child [named ''op'' (string_item (c_str opn))] ?o) @ [named ''path'' (string_item full)])
          (set_child [named ''op'' (string_item (c_str opn))] ?o), h3)"
    "plenty h3" "live h3 = live h2 + blocks [named ''path'' (string_item full)]"
    using add_path_plenty [OF 2(2) path [OF 2(2)]] .
  let ?q = "set_child [named ''op'' (string_item (c_str opn)), named ''path'' (string_item full)] ?o"
  obtain h4 where 4: "add_value v ?q h3
      = (set_child (child ?q @ (case v of None \<Rightarrow> [] | Some x \<Rightarrow> [named ''value'' (copy x)])) ?q, h4)"
    "plenty h4" "live h4 = live h3 + (case v of None \<Rightarrow> 0 | Some x \<Rightarrow> blocks [named ''value'' (copy x)])"
    using add_value_plenty [OF 3(2)] .
  have set2: "set_child c (set_child d x) = set_child c x" for c d x by (cases x) simp
  have "cJSON_CreateObject h = (Some ?o, h0)" using 0 by (simp add: cJSON_CreateObject_def)
  moreover have "child ?o = []" by (simp add: zero_item_def)
  ultimately have "compose_patch junk (Some ps) (Some opn) (Some path) sfx v h
      = Some (Some (add_to_array ps (patch_item (c_str opn) full v)), h4)"
    using 1 2 3 4 by (simp add: compose_patch_def patch_item_def set2)
  then show ?thesis using 0 1 2 3 4 by (simp add: emits_def add_to_array_def blocks_patch_item)
qed

subsection \<open>What one patch does\<close>

lemma sel_copy_named [simp]:
  "ctype (named n x) = ctype x AND NOT cJSON_StringIsConst" "child (named n x) = child x" "valuestring (named n x) = valuestring x"
  "valueint (named n x) = valueint x" "valuedouble (named n x) = valuedouble x" "item_string (named n x) = Some n"
  by (simp_all add: named_def)

lemma meaning_sel:
  "meaning x = (if kind (ctype x) = cJSON_Number then DNum (valueint x) (valuedouble x)
      else if kind (ctype x) = cJSON_String then DStr (c_str (the (valuestring x)))
      else if kind (ctype x) = cJSON_Array then DArr (map meaning (child x))
      else if kind (ctype x) = cJSON_Object then DObj (map_of (map (\<lambda>x. (name x, meaning x)) (child x)))
      else DLit (kind (ctype x)))"
  by (cases x) simp

lemma meaning_named [simp]: "meaning (named n x) = meaning x"
  by (simp add: meaning_sel flags_of_named)

lemma meaning_copy [simp]: "meaning (copy x) = meaning x"
proof (induction x)
  case (CJson t c s i d k)
  have s: "c_str (the (map_option c_str v)) = c_str (the v)" for v by (cases v) simp_all
  then have n: "name (copy y) = name y" for y by (cases y) (simp add: name_def)
  have "map meaning (map copy c) = map meaning c"
    "map (\<lambda>y. (name y, meaning y)) (map copy c) = map (\<lambda>y. (name y, meaning y)) c"
    using CJson.IH n by simp_all
  with s show ?case by (simp only: copy.simps meaning.simps kind_without_reference)
qed

lemma apply_patch_item:
  assumes "list_all plain_token ts"
  shows "apply_ref (patch_item opn (path_of ts) v) d = operate opn ts (map_option meaning v) d"
  using patch_tokens_path [OF assms]
  by (auto simp: apply_ref_def patch_item_def member_def string_item_def zero_item_def split: option.splits)

lemma leads_replace:
  "list_all plain_token ts \<Longrightarrow> leads [patch_item ''replace'' (path_of ts) (Some y)] ts x (meaning y)"
  by (rule leads_operation [where f = "\<lambda>_. Some (meaning y)"]) (simp_all add: apply_patch_item operate_def)

lemma leads_add:
  assumes "list_all plain_token (ts @ [t])" and "add_at t (meaning y) c = Some c'"
  shows "leads [patch_item ''add'' (path_of (ts @ [t])) (Some y)] ts c c'"
  by (rule leads_operation [where f = "add_at t (meaning y)"])
    (simp_all add: apply_patch_item [OF assms(1)] operate_def assms(2))

lemma leads_remove:
  assumes "list_all plain_token (ts @ [t])" and "remove_at t c = Some c'"
  shows "leads [patch_item ''remove'' (path_of (ts @ [t])) None] ts c c'"
  by (rule leads_operation [where f = "remove_at t"])
    (simp_all add: apply_patch_item [OF assms(1)] operate_def assms(2))

lemma emits_append:
  "emits (Some p) h qs (Some p', h') \<Longrightarrow> emits (Some p') h' rs r \<Longrightarrow> emits (Some p) h (qs @ rs) r"
  by (cases p) (auto simp: emits_def split: option.splits prod.splits)

lemma emits_Nil: "plenty h \<Longrightarrow> emits (Some p) h [] (Some p, h)"
  by (cases p) (simp add: emits_def)

lemma emits_cases:
  assumes "emits (Some p) h qs r"
  obtains p' h' where "r = (Some p', h')" "emits (Some p) h qs (Some p', h')" "plenty h'" "live h' = live h + blocks qs"
  using assms by (cases r; cases "fst r") (auto simp: emits_def)

lemma compose_plain:
  assumes "plenty h" and "c_str path = path_of ts"
  obtains p' h' where "compose_patch junk (Some p) (Some opn) (Some path) None v h = Some (Some p', h')"
    "emits (Some p) h [patch_item (c_str opn) (path_of ts) v] (Some p', h')" "plenty h'"
proof -
  have "\<exists>r. compose_patch junk (Some p) (Some opn) (Some path) None v h = Some r \<and>
      emits (Some p) h [patch_item (c_str opn) (path_of ts) v] r"
    by (rule compose_patch_emits) (use assms in simp_all)
  then show ?thesis using that by (auto elim: emits_cases)
qed

lemma extended_path_c_str: "extended_path junk path n h = extended_path junk (c_str path) n h"
  by (simp add: extended_path_def)

lemma compose_below:
  assumes "plenty h" and "c_str path = path_of ts" and "list_all plain_token ts" and "plain_token (c_str n)"
  obtains p' h' where "compose_patch junk (Some p) (Some opn) (Some path) (Some n) v h = Some (Some p', h')"
    "emits (Some p) h [patch_item (c_str opn) (path_of (ts @ [c_str n])) v] (Some p', h')" "plenty h'"
proof -
  have "\<exists>r. compose_patch junk (Some p) (Some opn) (Some path) (Some n) v h = Some r \<and>
      emits (Some p) h [patch_item (c_str opn) (path_of (ts @ [c_str n])) v] r"
  proof (rule compose_patch_emits [OF assms(1)])
    fix h :: heap
    assume h: "plenty h"
    obtain b h' where "extended_path junk (path_of ts) n h = Some (b, h')" "c_str b = path_of (ts @ [c_str n])"
      "plenty h'" "live h' = live h + 1" using extended_path_plain [OF h assms(3,4)] .
    then show "case Some n of None \<Rightarrow> c_str path = path_of (ts @ [c_str n])
      | Some n' \<Rightarrow> \<exists>b h'. extended_path junk path n' h = Some (b, h') \<and> c_str b = path_of (ts @ [c_str n]) \<and>
          plenty h' \<and> live h' = live h + 1"
      using assms(2) extended_path_c_str [of junk path n h] by simp
  qed
  then show ?thesis using that by (auto elim: emits_cases)
qed

subsection \<open>Arrays\<close>

text \<open>What is to be shown of two documents, for every path to them.\<close>

definition patched :: "garbage \<Rightarrow> cJSON \<Rightarrow> cJSON \<Rightarrow> bytes list \<Rightarrow> bytes \<Rightarrow> cJSON \<Rightarrow> heap \<Rightarrow> bool" where
  "patched junk a b ts path p h \<longleftrightarrow> (\<exists>qs p' a' b' h' d.
     create_patches junk True (Some p) path a b h = Some (Some p', a', b', h') \<and>
     emits (Some p) h qs (Some p', h') \<and> leads qs ts (meaning a) d \<and> agree d (meaning b) \<and>
     meaning a' = meaning a \<and> item_string a' = item_string a \<and>
     meaning b' = meaning b \<and> item_string b' = item_string b)"

definition correct :: "garbage \<Rightarrow> cJSON \<Rightarrow> cJSON \<Rightarrow> bool" where
  "correct junk a b \<longleftrightarrow> (\<forall>ts path p h. list_all plain_token ts \<longrightarrow> c_str path = path_of ts \<longrightarrow> plenty h \<longrightarrow>
     patched junk a b ts path p h)"

lemma correctD:
  assumes "correct junk a b" and "list_all plain_token ts" and "c_str path = path_of ts" and "plenty h"
  obtains qs p' a' b' h' d where "create_patches junk True (Some p) path a b h = Some (Some p', a', b', h')"
    "emits (Some p) h qs (Some p', h')" "leads qs ts (meaning a) d" "agree d (meaning b)"
    "meaning a' = meaning a" "item_string a' = item_string a" "meaning b' = meaning b" "item_string b' = item_string b"
  using assms unfolding correct_def patched_def by blast

lemma emits_plenty: "emits p h qs (p', h') \<Longrightarrow> plenty h'"
  by (auto simp: emits_def split: option.splits)

lemma array_step:
  assumes "length done = i" and "leads qs (ts @ [show_nat i]) x d"
  shows "leads qs ts (DArr (done @ x # ms)) (DArr (done @ d # ms))"
  by (rule leads_below [OF assms(2)]) (use assms(1) in \<open>simp_all add: nth_append list_update_append\<close>)

definition array_patched :: "garbage \<Rightarrow> bytes list \<Rightarrow> bytes \<Rightarrow> nat \<Rightarrow> cJSON list \<Rightarrow> cJSON list \<Rightarrow> cJSON \<Rightarrow> heap \<Rightarrow> bool" where
  "array_patched junk ts path i xs ys p h \<longleftrightarrow> (\<exists>qs p' xs' ys' h' ds.
     array_patches junk True (Some p) path (Some (length (c_str path) + 22)) i xs ys h = Some (Some p', xs', ys', h') \<and>
     emits (Some p) h qs (Some p', h') \<and>
     (\<forall>done. length done = i \<longrightarrow> leads qs ts (DArr (done @ map meaning xs)) (DArr (done @ ds))) \<and>
     list_all2 agree ds (map meaning ys) \<and> map meaning xs' = map meaning xs \<and> map meaning ys' = map meaning ys)"

lemma array_patchedI:
  assumes "array_patches junk True (Some p) path (Some (length (c_str path) + 22)) i xs ys h = Some (Some p', xs', ys', h')"
    and "emits (Some p) h qs (Some p', h')"
    and "\<And>done. length done = i \<Longrightarrow> leads qs ts (DArr (done @ map meaning xs)) (DArr (done @ ds))"
    and "list_all2 agree ds (map meaning ys)" "map meaning xs' = map meaning xs" "map meaning ys' = map meaning ys"
  shows "array_patched junk ts path i xs ys p h"
  using assms unfolding array_patched_def by blast

lemma array_patchedE:
  assumes "array_patched junk ts path i xs ys p h"
  obtains qs p' xs' ys' h' ds where
    "array_patches junk True (Some p) path (Some (length (c_str path) + 22)) i xs ys h = Some (Some p', xs', ys', h')"
    "emits (Some p) h qs (Some p', h')"
    "\<And>done. length done = i \<Longrightarrow> leads qs ts (DArr (done @ map meaning xs)) (DArr (done @ ds))"
    "list_all2 agree ds (map meaning ys)" "map meaning xs' = map meaning xs" "map meaning ys' = map meaning ys"
  using assms unfolding array_patched_def by blast

lemma array_removes:
  assumes "list_all plain_token ts" and "c_str path = path_of ts" and "plenty h" and "i + length xs \<le> 10 ^ 20"
  shows "array_patched junk ts path i xs [] p h"
  using assms(3,4)
proof (induction xs arbitrary: p h)
  case Nil
  show ?case by (rule array_patchedI [where qs = "[]" and ds = "[]"]) (use Nil emits_Nil in auto)
next
  case (Cons x xs)
  let ?q = "patch_item ''remove'' (path_of (ts @ [show_nat i])) None"
  have len: "length (show_nat i) < length (c_str path) + 22"
    using length_show_nat_le [of i 20] Cons.prems by simp
  obtain p1 h1 where 1: "compose_patch junk (Some p) (Some ''remove'') (Some path) (Some (show_nat i)) None h = Some (Some p1, h1)"
    "emits (Some p) h [?q] (Some p1, h1)" "plenty h1"
    using compose_below [OF Cons.prems(1) assms(2,1), of "show_nat i" junk p "''remove''" None] plain_token_index [of i]
    by (auto simp: c_str_no_NUL)
  obtain qs p' xs' ys' h' ds where 2:
    "array_patches junk True (Some p1) path (Some (length (c_str path) + 22)) i xs [] h1 = Some (Some p', xs', ys', h')"
    "emits (Some p1) h1 qs (Some p', h')"
    "\<And>done. length done = i \<Longrightarrow> leads qs ts (DArr (done @ map meaning xs)) (DArr (done @ ds))"
    "list_all2 agree ds (map meaning [])" "map meaning xs' = map meaning xs" "map meaning ys' = map meaning []"
    using Cons.IH [of h1 p1] 1(3) Cons.prems by (auto elim: array_patchedE)
  show ?case
  proof (rule array_patchedI)
    show "array_patches junk True (Some p) path (Some (length (c_str path) + 22)) i (x # xs) [] h = Some (Some p', x # xs', ys', h')"
      using 1(1) 2(1) len by (simp add: print_index_def)
    show "emits (Some p) h ([?q] @ qs) (Some p', h')" by (rule emits_append [OF 1(2) 2(2)])
    show "leads ([?q] @ qs) ts (DArr (done @ map meaning (x # xs))) (DArr (done @ ds))" if "length done = i" for "done"
    proof (rule leads_append [OF leads_remove 2(3) [OF that]])
      show "list_all plain_token (ts @ [show_nat i])" using assms(1) plain_token_index by simp
      show "remove_at (show_nat i) (DArr (done @ map meaning (x # xs))) = Some (DArr (done @ map meaning xs))"
        using that by (simp add: remove_at_def)
    qed
  qed (use 2 in simp_all)
qed

lemma array_adds:
  assumes "list_all plain_token ts" and "c_str path = path_of ts" and "plenty h"
  shows "array_patched junk ts path i [] ys p h"
  using assms(3)
proof (induction ys arbitrary: i p h)
  case Nil
  show ?case by (rule array_patchedI [where qs = "[]" and ds = "[]"]) (use Nil emits_Nil in auto)
next
  case (Cons y ys)
  let ?q = "patch_item ''add'' (path_of (ts @ [''-''])) (Some y)"
  obtain p1 h1 where 1: "compose_patch junk (Some p) (Some ''add'') (Some path) (Some ''-'') (Some y) h = Some (Some p1, h1)"
    "emits (Some p) h [?q] (Some p1, h1)" "plenty h1"
    using compose_below [OF Cons.prems assms(2,1), of "''-''" junk p "''add''" "Some y"] by (auto simp: plain_token_def)
  obtain qs p' xs' ys' h' ds where 2:
    "array_patches junk True (Some p1) path (Some (length (c_str path) + 22)) (i + 1) [] ys h1 = Some (Some p', xs', ys', h')"
    "emits (Some p1) h1 qs (Some p', h')"
    "\<And>done. length done = i + 1 \<Longrightarrow> leads qs ts (DArr (done @ map meaning [])) (DArr (done @ ds))"
    "list_all2 agree ds (map meaning ys)" "map meaning xs' = map meaning []" "map meaning ys' = map meaning ys"
    using array_patchedE [OF Cons.IH [OF 1(3), of "i + 1" p1]] by metis
  show ?case
  proof (rule array_patchedI)
    show "array_patches junk True (Some p) path (Some (length (c_str path) + 22)) i [] (y # ys) h = Some (Some p', xs', y # ys', h')"
      using 1(1) 2(1) by simp
    show "emits (Some p) h ([?q] @ qs) (Some p', h')" by (rule emits_append [OF 1(2) 2(2)])
    show "leads ([?q] @ qs) ts (DArr (done @ map meaning [])) (DArr (done @ meaning y # ds))" if "length done = i" for "done"
    proof (rule leads_append [OF leads_add])
      show "list_all plain_token (ts @ [''-''])" using assms(1) by (simp add: plain_token_def)
      show "add_at ''-'' (meaning y) (DArr (done @ map meaning [])) = Some (DArr (done @ [meaning y]))"
        by (simp add: add_at_def)
      show "leads qs ts (DArr (done @ [meaning y])) (DArr (done @ meaning y # ds))"
        using 2(3) [of "done @ [meaning y]"] that by simp
    qed
  qed (use 2 agree_refl in simp_all)
qed

lemma array_patches_correct:
  assumes "\<forall>x \<in> set xs. \<forall>y \<in> set ys. correct junk x y"
    and "list_all plain_token ts" and "c_str path = path_of ts" and "plenty h" and "i + length xs \<le> 10 ^ 20"
  shows "array_patched junk ts path i xs ys p h"
  using assms(1,4,5)
proof (induction xs ys arbitrary: i p h rule: list_induct2')
  case (2 x xs)
  then show ?case using array_removes [OF assms(2,3)] by blast
next
  case (4 x xs y ys)
  have len: "length (c_str path @ CHR ''/'' # show_nat i) < length (c_str path) + 22"
    using length_show_nat_le [of i 20] 4(4) by simp
  have new: "c_str (c_str path @ CHR ''/'' # show_nat i) = path_of (ts @ [show_nat i])"
    using assms(3) NUL_notin_c_str [of path] by (subst c_str_no_NUL) (auto simp: path_of_snoc)
  have plain: "list_all plain_token (ts @ [show_nat i])" using assms(2) plain_token_index by simp
  have xy: "correct junk x y" using 4(2) by simp
  obtain qs1 p1 x' y' h1 d where 1:
    "create_patches junk True (Some p) (c_str path @ CHR ''/'' # show_nat i) x y h = Some (Some p1, x', y', h1)"
    "emits (Some p) h qs1 (Some p1, h1)" "leads qs1 (ts @ [show_nat i]) (meaning x) d" "agree d (meaning y)"
    "meaning x' = meaning x" "meaning y' = meaning y"
    using correctD [OF xy plain new 4(3)] by metis
  have rest: "array_patched junk ts path (i + 1) xs ys p1 h1"
    by (rule 4(1)) (use 4(2,4) emits_plenty [OF 1(2)] in auto)
  obtain qs p' xs' ys' h' ds where 2:
    "array_patches junk True (Some p1) path (Some (length (c_str path) + 22)) (i + 1) xs ys h1 = Some (Some p', xs', ys', h')"
    "emits (Some p1) h1 qs (Some p', h')"
    "\<And>done. length done = i + 1 \<Longrightarrow> leads qs ts (DArr (done @ map meaning xs)) (DArr (done @ ds))"
    "list_all2 agree ds (map meaning ys)" "map meaning xs' = map meaning xs" "map meaning ys' = map meaning ys"
    using array_patchedE [OF rest] by metis
  show ?case
  proof (rule array_patchedI)
    show "array_patches junk True (Some p) path (Some (length (c_str path) + 22)) i (x # xs) (y # ys) h = Some (Some p', x' # xs', y' # ys', h')"
      using 1(1) 2(1) len by (simp add: print_index_def)
    show "emits (Some p) h (qs1 @ qs) (Some p', h')" by (rule emits_append [OF 1(2) 2(2)])
    show "leads (qs1 @ qs) ts (DArr (done @ map meaning (x # xs))) (DArr (done @ d # ds))" if "length done = i" for "done"
      using leads_append [OF array_step [OF that 1(3)]] 2(3) [of "done @ [d]"] that by simp
  qed (use 1 2 in simp_all)
qed (use array_adds [OF assms(2,3)] in blast)+


subsection \<open>Objects\<close>

definition below :: "cJSON \<Rightarrow> cJSON \<Rightarrow> bool" where
  "below x y \<longleftrightarrow> strcmp_aux (name x) (name y) < 0"

lemma name_no_NUL: "NUL \<notin> set (name x)"
  by (simp add: name_def)

lemma name_diff_name:
  "item_string x \<noteq> None \<Longrightarrow> item_string y \<noteq> None \<Longrightarrow> name_diff True x y = strcmp_aux (name x) (name y)"
  by (simp add: name_diff_key order_key_def name_def)

lemma same_name_iff: "strcmp_aux (name x) (name y) = 0 \<longleftrightarrow> name x = name y"
  by (rule strcmp_aux_eq_0_iff) (rule name_no_NUL)+

lemma below_trans: "below x y \<Longrightarrow> below y z \<Longrightarrow> below x z"
proof -
  assume xy: "below x y" and yz: "below y z"
  then have "strcmp_aux (name x) (name z) \<le> 0"
    using strcmp_aux_trans [of "name x" "name y" "name z"] name_no_NUL by (simp add: below_def)
  moreover have "strcmp_aux (name x) (name z) \<noteq> 0"
  proof
    assume "strcmp_aux (name x) (name z) = 0"
    then have "name x = name z" by (simp add: same_name_iff)
    then show False using xy yz strcmp_aux_anti [of "name x" "name y"] by (simp add: below_def)
  qed
  ultimately show ?thesis by (simp add: below_def)
qed

lemma below_name: "below x y \<Longrightarrow> name x \<noteq> name y"
  using same_name_iff [of x y] by (auto simp: below_def)

lemma sorted_below:
  assumes "\<forall>x \<in> set xs. item_string x \<noteq> None" and "distinct (map name xs)"
  shows "sorted_wrt below (sort_list True xs)"
proof -
  let ?ys = "sort_list True xs"
  have m: "mset ?ys = mset xs" by (rule mset_sort_list)
  then have "mset (map name ?ys) = mset (map name xs)" by (metis mset_map)
  then have d: "distinct (map name ?ys)" using assms(2) by (metis mset_eq_imp_distinct_iff)
  have s: "sorted_wrt (name_le True) ?ys" by (rule sorted_sort_list [OF assms(1)])
  have set: "set ?ys = set xs" using m by (metis set_mset_mset)
  have below: "below (?ys ! i) (?ys ! j)" if "i < j" "j < length ?ys" for i j
  proof -
    have n: "item_string (?ys ! i) \<noteq> None" "item_string (?ys ! j) \<noteq> None"
      using assms(1) set that nth_mem [of i ?ys] nth_mem [of j ?ys] by auto
    have "name (?ys ! i) \<noteq> name (?ys ! j)" using d that by (auto simp: distinct_conv_nth)
    moreover have "strcmp_aux (name (?ys ! i)) (name (?ys ! j)) \<le> 0"
      using sorted_wrt_nth_less [OF s that] n by (simp add: name_le_def order_key_def name_def)
    ultimately show ?thesis using same_name_iff by (simp add: below_def less_le)
  qed
  show ?thesis by (auto simp: sorted_wrt_iff_nth_less below)
qed

text \<open>What the patches for two lists of members do to an object that has the members of the first.\<close>

definition edits :: "cJSON list \<Rightarrow> bytes list \<Rightarrow> cJSON list \<Rightarrow> cJSON list \<Rightarrow> bool" where
  "edits qs ts xs ys \<longleftrightarrow> (\<forall>m. (\<forall>x \<in> set xs. m (name x) = Some (meaning x)) \<longrightarrow>
     (\<exists>m'. leads qs ts (DObj m) (DObj m') \<and> (\<forall>y \<in> set ys. rel_option agree (m' (name y)) (Some (meaning y))) \<and>
        (\<forall>k. k \<notin> name ` set ys \<longrightarrow> m' k = (if k \<in> name ` set xs then None else m k))))"

definition object_patched :: "garbage \<Rightarrow> bytes list \<Rightarrow> bytes \<Rightarrow> cJSON list \<Rightarrow> cJSON list \<Rightarrow> cJSON \<Rightarrow> heap \<Rightarrow> bool" where
  "object_patched junk ts path xs ys p h \<longleftrightarrow> (\<exists>qs p' xs' ys' h'.
     object_patches junk True (Some p) path xs ys h = Some (Some p', xs', ys', h') \<and>
     emits (Some p) h qs (Some p', h') \<and> edits qs ts xs ys \<and>
     map meaning xs' = map meaning xs \<and> map item_string xs' = map item_string xs \<and>
     map meaning ys' = map meaning ys \<and> map item_string ys' = map item_string ys)"

lemma object_patchedI:
  assumes "object_patches junk True (Some p) path xs ys h = Some (Some p', xs', ys', h')"
    and "emits (Some p) h qs (Some p', h')" and "edits qs ts xs ys"
    and "map meaning xs' = map meaning xs" "map item_string xs' = map item_string xs"
    and "map meaning ys' = map meaning ys" "map item_string ys' = map item_string ys"
  shows "object_patched junk ts path xs ys p h"
  using assms unfolding object_patched_def by blast

lemma object_patchedE:
  assumes "object_patched junk ts path xs ys p h"
  obtains qs p' xs' ys' h' where
    "object_patches junk True (Some p) path xs ys h = Some (Some p', xs', ys', h')"
    "emits (Some p) h qs (Some p', h')" "edits qs ts xs ys"
    "map meaning xs' = map meaning xs" "map item_string xs' = map item_string xs"
    "map meaning ys' = map meaning ys" "map item_string ys' = map item_string ys"
  using assms unfolding object_patched_def by blast

lemma editsE:
  assumes "edits qs ts xs ys" and "\<forall>x \<in> set xs. m (name x) = Some (meaning x)"
  obtains m' where "leads qs ts (DObj m) (DObj m')" "\<forall>y \<in> set ys. rel_option agree (m' (name y)) (Some (meaning y))"
    "\<And>k. k \<notin> name ` set ys \<Longrightarrow> m' k = (if k \<in> name ` set xs then None else m k)"
  using assms unfolding edits_def by blast

lemma remove_member:
  assumes path: "list_all plain_token ts" "c_str path = path_of ts" and "plenty h" and "plain_name x"
    and "member_order True (x # xs) ys < 0" and new: "name x \<notin> name ` set xs" "name x \<notin> name ` set ys"
    and rest: "\<And>p h. plenty h \<Longrightarrow> object_patched junk ts path xs ys p h"
  shows "object_patched junk ts path (x # xs) ys p h"
proof -
  let ?q = "patch_item ''remove'' (path_of (ts @ [name x])) None"
  obtain n where n: "item_string x = Some n" "c_str n = name x" using assms(4) by (auto simp: plain_name_def name_def)
  have t: "plain_token (name x)" using assms(4) name_no_NUL [of x] by (simp add: plain_name_def plain_token_def)
  obtain p1 h1 where 1: "compose_patch junk (Some p) (Some ''remove'') (Some path) (Some n) None h = Some (Some p1, h1)"
    "emits (Some p) h [?q] (Some p1, h1)" "plenty h1"
    using compose_below [OF assms(3) path(2,1), of n junk p "''remove''" None] n t by auto
  obtain qs p' xs' ys' h' where 2:
    "object_patches junk True (Some p1) path xs ys h1 = Some (Some p', xs', ys', h')" "emits (Some p1) h1 qs (Some p', h')"
    "edits qs ts xs ys"
    "map meaning xs' = map meaning xs" "map item_string xs' = map item_string xs"
    "map meaning ys' = map meaning ys" "map item_string ys' = map item_string ys"
    using object_patchedE [OF rest [OF 1(3)]] by metis
  show ?thesis
  proof (rule object_patchedI)
    show "object_patches junk True (Some p) path (x # xs) ys h = Some (Some p', x # xs', ys', h')"
      using 1(1) 2(1) n assms(5) by (subst object_patches.simps) simp
    show "emits (Some p) h ([?q] @ qs) (Some p', h')" by (rule emits_append [OF 1(2) 2(2)])
    show "edits ([?q] @ qs) ts (x # xs) ys" unfolding edits_def
    proof (intro allI impI)
    fix m
    assume m: "\<forall>z \<in> set (x # xs). m (name z) = Some (meaning z)"
    have step: "leads [?q] ts (DObj m) (DObj (m(name x := None)))"
      by (rule leads_remove) (use path(1) t m in \<open>simp_all add: remove_at_def\<close>)
    have keep: "\<forall>z \<in> set xs. (m(name x := None)) (name z) = Some (meaning z)" using m new(1) by (fastforce simp: image_iff)
    obtain m' where m': "leads qs ts (DObj (m(name x := None))) (DObj m')" "\<forall>y \<in> set ys. rel_option agree (m' (name y)) (Some (meaning y))"
      "\<And>k. k \<notin> name ` set ys \<Longrightarrow> m' k = (if k \<in> name ` set xs then None else (m(name x := None)) k)" using editsE [OF 2(3) keep] by metis
    show "\<exists>m'. leads ([?q] @ qs) ts (DObj m) (DObj m') \<and> (\<forall>y \<in> set ys. rel_option agree (m' (name y)) (Some (meaning y))) \<and>
          (\<forall>k. k \<notin> name ` set ys \<longrightarrow> m' k = (if k \<in> name ` set (x # xs) then None else m k))"
      using leads_append [OF step m'(1)] m'(2,3) by (intro exI [of _ m']) auto
    qed
  qed (use 2 in simp_all)
qed

lemma add_member:
  assumes path: "list_all plain_token ts" "c_str path = path_of ts" and "plenty h" and "plain_name y"
    and order: "member_order True xs (y # ys) \<noteq> 0" "\<not> member_order True xs (y # ys) < 0"
    and new: "name y \<notin> name ` set xs" "name y \<notin> name ` set ys"
    and rest: "\<And>p h. plenty h \<Longrightarrow> object_patched junk ts path xs ys p h"
  shows "object_patched junk ts path xs (y # ys) p h"
proof -
  let ?q = "patch_item ''add'' (path_of (ts @ [name y])) (Some y)"
  obtain n where n: "item_string y = Some n" "c_str n = name y" using assms(4) by (auto simp: plain_name_def name_def)
  have t: "plain_token (name y)" using assms(4) name_no_NUL [of y] by (simp add: plain_name_def plain_token_def)
  obtain p1 h1 where 1: "compose_patch junk (Some p) (Some ''add'') (Some path) (Some n) (Some y) h = Some (Some p1, h1)"
    "emits (Some p) h [?q] (Some p1, h1)" "plenty h1"
    using compose_below [OF assms(3) path(2,1), of n junk p "''add''" "Some y"] n t by auto
  obtain qs p' xs' ys' h' where 2:
    "object_patches junk True (Some p1) path xs ys h1 = Some (Some p', xs', ys', h')" "emits (Some p1) h1 qs (Some p', h')"
    "edits qs ts xs ys"
    "map meaning xs' = map meaning xs" "map item_string xs' = map item_string xs"
    "map meaning ys' = map meaning ys" "map item_string ys' = map item_string ys"
    using object_patchedE [OF rest [OF 1(3)]] by metis
  show ?thesis
  proof (rule object_patchedI)
    show "object_patches junk True (Some p) path xs (y # ys) h = Some (Some p', xs', y # ys', h')"
      using 1(1) 2(1) n order by (subst object_patches.simps) simp
    show "emits (Some p) h ([?q] @ qs) (Some p', h')" by (rule emits_append [OF 1(2) 2(2)])
    show "edits ([?q] @ qs) ts xs (y # ys)" unfolding edits_def
    proof (intro allI impI)
    fix m
    assume m: "\<forall>z \<in> set xs. m (name z) = Some (meaning z)"
    let ?m = "m(name y \<mapsto> meaning y)"
    have step: "leads [?q] ts (DObj m) (DObj ?m)"
      by (rule leads_add) (use path(1) t in \<open>simp_all add: add_at_def\<close>)
    have keep: "\<forall>z \<in> set xs. ?m (name z) = Some (meaning z)" using m new(1) by (fastforce simp: image_iff)
    obtain m' where m': "leads qs ts (DObj ?m) (DObj m')" "\<forall>y \<in> set ys. rel_option agree (m' (name y)) (Some (meaning y))"
      "\<And>k. k \<notin> name ` set ys \<Longrightarrow> m' k = (if k \<in> name ` set xs then None else ?m k)" using editsE [OF 2(3) keep] by metis
    have "m' (name y) = Some (meaning y)" using m'(3) new by simp
    then show "\<exists>m'. leads ([?q] @ qs) ts (DObj m) (DObj m') \<and> (\<forall>z \<in> set (y # ys). rel_option agree (m' (name z)) (Some (meaning z))) \<and>
          (\<forall>k. k \<notin> name ` set (y # ys) \<longrightarrow> m' k = (if k \<in> name ` set xs then None else m k))"
      using leads_append [OF step m'(1)] m'(2,3) agree_refl by (intro exI [of _ m']) auto
    qed
  qed (use 2 in simp_all)
qed

lemma patch_member:
  assumes path: "list_all plain_token ts" "c_str path = path_of ts" and "plenty h" and "plain_name x"
    and order: "member_order True (x # xs) (y # ys) = 0" and same: "name y = name x" and xy: "correct junk x y"
    and new: "name x \<notin> name ` set xs" "name x \<notin> name ` set ys"
    and rest: "\<And>p h. plenty h \<Longrightarrow> object_patched junk ts path xs ys p h"
  shows "object_patched junk ts path (x # xs) (y # ys) p h"
proof -
  obtain n where n: "item_string x = Some n" "c_str n = name x" using assms(4) by (auto simp: plain_name_def name_def)
  have t: "plain_token (name x)" using assms(4) name_no_NUL [of x] by (simp add: plain_name_def plain_token_def)
  obtain b h0 where 0: "extended_path junk (path_of ts) n h = Some (b, h0)" "c_str b = path_of (ts @ [c_str n])"
    "plenty h0" "live h0 = live h + 1" using extended_path_plain [OF assms(3) path(1), of n junk] n(2) t by metis
  have plain: "list_all plain_token (ts @ [name x])" using path(1) t by simp
  obtain qs1 p1 x' y' h1 d where 1: "create_patches junk True (Some p) b x y h0 = Some (Some p1, x', y', h1)"
    "emits (Some p) h0 qs1 (Some p1, h1)" "leads qs1 (ts @ [name x]) (meaning x) d" "agree d (meaning y)"
    "meaning x' = meaning x" "item_string x' = item_string x" "meaning y' = meaning y" "item_string y' = item_string y"
    using correctD [OF xy plain _ 0(3)] 0(2) n(2) by metis
  have h1: "plenty (dealloc h1)" "emits (Some p) h qs1 (Some p1, dealloc h1)"
    using 1(2) 0 by (auto simp: emits_def)
  obtain qs p' xs' ys' h' where 2:
    "object_patches junk True (Some p1) path xs ys (dealloc h1) = Some (Some p', xs', ys', h')"
    "emits (Some p1) (dealloc h1) qs (Some p', h')"
    "edits qs ts xs ys"
    "map meaning xs' = map meaning xs" "map item_string xs' = map item_string xs"
    "map meaning ys' = map meaning ys" "map item_string ys' = map item_string ys"
    using object_patchedE [OF rest [OF h1(1)]] by metis
  show ?thesis
  proof (rule object_patchedI)
    show "object_patches junk True (Some p) path (x # xs) (y # ys) h = Some (Some p', x' # xs', y' # ys', h')"
      using 0(1) 1(1) 2(1) n order extended_path_c_str [of junk path n h] path(2) by (subst object_patches.simps) simp
    show "emits (Some p) h (qs1 @ qs) (Some p', h')" by (rule emits_append [OF h1(2) 2(2)])
    show "edits (qs1 @ qs) ts (x # xs) (y # ys)" unfolding edits_def
    proof (intro allI impI)
    fix m
    assume m: "\<forall>z \<in> set (x # xs). m (name z) = Some (meaning z)"
    let ?m = "m(name x \<mapsto> d)"
    have step: "leads qs1 ts (DObj m) (DObj ?m)"
      by (rule leads_below [OF 1(3)]) (use m in simp_all)
    have keep: "\<forall>z \<in> set xs. ?m (name z) = Some (meaning z)" using m new(1) by (fastforce simp: image_iff)
    obtain m' where m': "leads qs ts (DObj ?m) (DObj m')" "\<forall>y \<in> set ys. rel_option agree (m' (name y)) (Some (meaning y))"
      "\<And>k. k \<notin> name ` set ys \<Longrightarrow> m' k = (if k \<in> name ` set xs then None else ?m k)" using editsE [OF 2(3) keep] by metis
    have "m' (name y) = Some d" using m'(3) new same by simp
    then show "\<exists>m'. leads (qs1 @ qs) ts (DObj m) (DObj m') \<and> (\<forall>z \<in> set (y # ys). rel_option agree (m' (name z)) (Some (meaning z))) \<and>
          (\<forall>k. k \<notin> name ` set (y # ys) \<longrightarrow> m' k = (if k \<in> name ` set (x # xs) then None else m k))"
      using leads_append [OF step m'(1)] m'(2,3) 1(4) same by (intro exI [of _ m']) auto
    qed
  qed (use 1 2 in simp_all)
qed

lemma below_new: "sorted_wrt below (x # xs) \<Longrightarrow> name x \<notin> name ` set xs"
  using below_name by auto

lemma below_all: "below x y \<Longrightarrow> sorted_wrt below (y # ys) \<Longrightarrow> name x \<notin> name ` set (y # ys)"
  using below_name below_trans [of x y] by fastforce

lemma object_patches_correct:
  assumes "\<forall>x \<in> set xs. \<forall>y \<in> set ys. correct junk x y" and "\<forall>x \<in> set xs \<union> set ys. plain_name x"
    and "sorted_wrt below xs" "sorted_wrt below ys"
    and path: "list_all plain_token ts" "c_str path = path_of ts" and "plenty h"
  shows "object_patched junk ts path xs ys p h"
  using assms(1-4,7)
proof (induction "length xs + length ys" arbitrary: xs ys p h rule: less_induct)
  case less
  have IH: "object_patched junk ts path us vs p h"
    if "length us + length vs < length xs + length ys" "set us \<subseteq> set xs" "set vs \<subseteq> set ys"
      "sorted_wrt below us" "sorted_wrt below vs" "plenty h" for us vs p h
    using less(1) [OF that(1) _ _ that(4-6)] less(2,3) that(2,3) by blast
  have key: "name_diff True x y = strcmp_aux (name x) (name y)" if "x \<in> set xs" "y \<in> set ys" for x y
    using that less(3) by (intro name_diff_name) (auto simp: plain_name_def)
  show ?case
  proof (cases xs)
    case Nil
    show ?thesis
    proof (cases ys)
      case ys: Nil
      have "edits [] ts [] []" unfolding edits_def by simp (metis leads_Nil)
      then show ?thesis using Nil ys less(6) emits_Nil [of h p]
        by (intro object_patchedI [where qs = "[]" and xs' = "[]" and ys' = "[]"]) (simp_all add: object_patches.simps)
    next
      case (Cons y ys')
      show ?thesis unfolding Cons
        by (rule add_member [OF path less(6)])
          (use Nil Cons less(3,5) below_new IH [of "[]" ys'] subset_insertI [of "set ys'" y] in \<open>auto simp: member_order_def\<close>)
    qed
  next
    case xs: (Cons x xs')
    have nx: "name x \<notin> name ` set xs'" using less(4) below_new unfolding xs by blast
    show ?thesis
    proof (cases ys)
      case Nil
      show ?thesis unfolding xs
        by (rule remove_member [OF path less(6)])
          (use Nil xs less(3,4) nx IH [of xs' "[]"] subset_insertI [of "set xs'" x] in \<open>auto simp: member_order_def\<close>)
    next
      case ys: (Cons y ys')
      have ny: "name y \<notin> name ` set ys'" using less(5) below_new unfolding ys by blast
      have k: "member_order True (x # xs') (y # ys') = strcmp_aux (name x) (name y)"
        using key xs ys by (simp add: member_order_def)
      have sub: "sorted_wrt below xs'" "sorted_wrt below ys'" "sorted_wrt below (x # xs')" "sorted_wrt below (y # ys')"
        "plain_name x" "plain_name y" "correct junk x y"
        using less(2-5) xs ys by auto
      consider (less) "strcmp_aux (name x) (name y) < 0" | (eq) "strcmp_aux (name x) (name y) = 0" | (gt) "strcmp_aux (name x) (name y) > 0"
        by linarith
      then show ?thesis
      proof cases
        case less
        then have "name x \<notin> name ` set (y # ys')" using below_all sub(4) unfolding below_def by blast
        then show ?thesis unfolding xs ys
          by (intro remove_member [OF path \<open>plenty h\<close> sub(5) _ nx])
            (use less k IH [of xs' ys] xs ys sub in auto)
      next
        case eq
        then have same: "name y = name x" by (simp add: same_name_iff)
        show ?thesis unfolding xs ys
          by (rule patch_member [OF path \<open>plenty h\<close> sub(5) _ same sub(7) nx])
            (use eq k same ny IH [of xs' ys'] xs ys sub in auto)
      next
        case gt
        then have "below y x" using strcmp_aux_anti [of "name x" "name y"] by (simp add: below_def)
        then have "name y \<notin> name ` set (x # xs')" using below_all sub(3) by blast
        then show ?thesis unfolding xs ys
          by (intro add_member [OF path \<open>plenty h\<close> sub(6) _ _ _ ny])
            (use gt k IH [of xs ys'] xs ys sub in auto)
      qed
    qed
  qed
qed

lemma map_of_members:
  "distinct (map name xs) \<Longrightarrow> x \<in> set xs \<Longrightarrow> map_of (map (\<lambda>x. (name x, meaning x)) xs) (name x) = Some (meaning x)"
  by (rule map_of_is_SomeI) (auto simp: o_def)

lemma map_of_no_member: "k \<notin> name ` set xs \<Longrightarrow> map_of (map (\<lambda>x. (name x, meaning x)) xs) k = None"
  by (auto simp: map_of_eq_None_iff)

lemma map_of_sorted:
  assumes "distinct (map name xs)" and "mset ys = mset xs"
  shows "map_of (map (\<lambda>x. (name x, meaning x)) ys) = map_of (map (\<lambda>x. (name x, meaning x)) xs)"
proof -
  have d: "distinct (map name ys)" using assms by (metis mset_map mset_eq_imp_distinct_iff)
  have s: "set ys = set xs" using assms(2) by (metis set_mset_mset)
  show ?thesis
  proof
    fix k
    show "map_of (map (\<lambda>x. (name x, meaning x)) ys) k = map_of (map (\<lambda>x. (name x, meaning x)) xs) k"
      using map_of_members [OF d] map_of_members [OF assms(1)] map_of_no_member s
      by (cases "k \<in> name ` set xs") auto
  qed
qed

lemma map_of_same:
  assumes "map meaning xs' = map meaning xs" and "map item_string xs' = map item_string xs"
  shows "map_of (map (\<lambda>x. (name x, meaning x)) xs') = map_of (map (\<lambda>x. (name x, meaning x)) xs)"
proof -
  have "map (\<lambda>x. (name x, meaning x)) zs = zip (map (\<lambda>k. c_str (the k)) (map item_string zs)) (map meaning zs)" for zs
    by (induction zs) (simp_all add: name_def)
  then show ?thesis using assms by (simp del: map_map)
qed


lemma document_sel:
  "document x \<longleftrightarrow> kind (ctype x) \<in> {cJSON_False, cJSON_True, cJSON_NULL, cJSON_Number} \<or>
     kind (ctype x) = cJSON_String \<and> valuestring x \<noteq> None \<or>
     kind (ctype x) = cJSON_Array \<and> length (child x) < 10 ^ 20 \<and> (\<forall>y \<in> set (child x). document y) \<or>
     kind (ctype x) = cJSON_Object \<and> (\<forall>y \<in> set (child x). document y \<and> plain_name y) \<and> distinct (map name (child x))"
  by (cases x) simp

lemma patchedI:
  assumes "create_patches junk True (Some p) path a b h = Some (Some p', a', b', h')"
    and "emits (Some p) h qs (Some p', h')" and "leads qs ts (meaning a) d" and "agree d (meaning b)"
    and "meaning a' = meaning a" "item_string a' = item_string a" "meaning b' = meaning b" "item_string b' = item_string b"
  shows "patched junk a b ts path p h"
  using assms unfolding patched_def by blast

lemma silent_patched:
  assumes "create_patches junk True (Some p) path a b h = Some (Some p, a, b, h)" and "plenty h" and "agree (meaning a) (meaning b)"
  shows "patched junk a b ts path p h"
  by (rule patchedI [OF assms(1) emits_Nil [OF assms(2)] leads_Nil assms(3)]) simp_all

lemma replace_patched:
  assumes "create_patches junk True (Some p) path a b h
      = do { (ps, h) \<leftarrow> compose_patch junk (Some p) (Some ''replace'') (Some path) None (Some b) h; Some (ps, a, b, h) }"
    and "list_all plain_token ts" and "c_str path = path_of ts" and "plenty h"
  shows "patched junk a b ts path p h"
proof -
  obtain p' h' where "compose_patch junk (Some p) (Some ''replace'') (Some path) None (Some b) h = Some (Some p', h')"
    "emits (Some p) h [patch_item (c_str ''replace'') (path_of ts) (Some b)] (Some p', h')"
    using compose_plain [OF assms(4,3)] by metis
  then show ?thesis using assms(1) leads_replace [OF assms(2)] agree_refl
    by (intro patchedI [where d = "meaning b"]) simp_all
qed

lemma set_child_sel:
  "item_string (set_child c x) = item_string x" "kind (ctype (set_child c x)) = kind (ctype x)"
  by simp_all

lemma documents_patched:
  assumes "document a" and "document b"
  shows "correct junk a b"
  using assms
proof (induction "size a" arbitrary: a b rule: less_induct)
  case less
  have IH: "\<forall>x \<in> set (child a). \<forall>y \<in> set (child b). document x \<longrightarrow> document y \<longrightarrow> correct junk x y"
    using less(1) child_size by blast
  show ?case unfolding correct_def
  proof (intro allI impI)
    fix ts path p and h :: heap
    assume ts: "list_all plain_token ts" and path: "c_str path = path_of ts" and h: "plenty h"
    note replace = replace_patched [OF _ ts path h]
    consider (differ) "kind (ctype a) \<noteq> kind (ctype b)"
      | (number) "kind (ctype a) = cJSON_Number" "kind (ctype b) = cJSON_Number"
      | (str) v w where "kind (ctype a) = cJSON_String" "kind (ctype b) = cJSON_String" "valuestring a = Some v" "valuestring b = Some w"
      | (array) "kind (ctype a) = cJSON_Array" "kind (ctype b) = cJSON_Array"
      | (object) "kind (ctype a) = cJSON_Object" "kind (ctype b) = cJSON_Object"
      | (literal) "kind (ctype a) = kind (ctype b)" "kind (ctype a) \<in> {cJSON_False, cJSON_True, cJSON_NULL}"
      using less(2,3) unfolding document_sel [of a] document_sel [of b] by (auto simp: kind_defs)
    then show "patched junk a b ts path p h"
    proof cases
      case differ
      then show ?thesis by (intro replace) (simp add: create_patches.simps)
    next
      case number
      show ?thesis
      proof (cases "valueint a = valueint b \<and> compare_double (valuedouble a) (valuedouble b)")
        case True
        then have "agree (meaning a) (meaning b)" using number by (simp add: meaning_sel agree_number)
        then show ?thesis using True number by (intro silent_patched) (simp_all add: create_patches.simps h)
      next
        case False
        then show ?thesis using number by (intro replace) (simp add: create_patches.simps)
      qed
    next
      case str
      show ?thesis
      proof (cases "strcmp v w = 0")
        case True
        then have "meaning a = meaning b" using str by (simp add: meaning_sel kind_defs strcmp_eq_0_iff)
        then show ?thesis using True str agree_refl by (intro silent_patched) (simp_all add: create_patches.simps h kind_defs)
      next
        case False
        then show ?thesis using str by (intro replace) (simp add: create_patches.simps kind_defs)
      qed
    next
      case literal
      then have "meaning a = meaning b" by (auto simp: meaning_sel kind_defs)
      then show ?thesis using literal agree_refl by (intro silent_patched) (auto simp: create_patches.simps h kind_defs)
    next
      case array
      obtain h0 where m: "malloc h = (True, h0)" "plenty h0" "live h0 = live h + 1"
        using h malloc_never_fails [of h] by (cases h rule: malloc_cases) auto
      have docs: "\<forall>x \<in> set (child a). document x" "\<forall>y \<in> set (child b). document y" "length (child a) \<le> 10 ^ 20"
        using less(2,3) array by (auto simp: document_sel [of a] document_sel [of b] kind_defs)
      have all: "array_patched junk ts path 0 (child a) (child b) p h0"
        by (rule array_patches_correct [OF _ ts path m(2)]) (use IH docs in simp_all)
      obtain qs p' xs' ys' h' ds where r:
        "array_patches junk True (Some p) path (Some (length (c_str path) + 22)) 0 (child a) (child b) h0 = Some (Some p', xs', ys', h')"
        "emits (Some p) h0 qs (Some p', h')"
        "\<And>done. length done = 0 \<Longrightarrow> leads qs ts (DArr (done @ map meaning (child a))) (DArr (done @ ds))"
        "list_all2 agree ds (map meaning (child b))" "map meaning xs' = map meaning (child a)" "map meaning ys' = map meaning (child b)"
        using array_patchedE [OF all] by metis
      show ?thesis
      proof (rule patchedI)
        show "create_patches junk True (Some p) path a b h = Some (Some p', set_child xs' a, set_child ys' b, dealloc h')"
          using array m(1) r(1) by (simp add: create_patches.simps kind_defs)
        show "emits (Some p) h qs (Some p', dealloc h')" using r(2) m by (simp add: emits_def)
        show "leads qs ts (meaning a) (DArr ds)" using r(3) [of "[]"] array by (simp add: meaning_sel kind_defs)
        show "agree (DArr ds) (meaning b)" using r(4) array agree_array by (simp add: meaning_sel [of b] kind_defs)
        show "meaning (set_child xs' a) = meaning a" "meaning (set_child ys' b) = meaning b"
          using r(5,6) array by (simp_all add: meaning_sel kind_defs)
      qed simp_all
    next
      case object
      let ?xs = "sort_list True (child a)" and ?ys = "sort_list True (child b)"
      have docs: "\<forall>x \<in> set (child a). document x \<and> plain_name x" "\<forall>y \<in> set (child b). document y \<and> plain_name y"
        and distinct: "distinct (map name (child a))" "distinct (map name (child b))"
        using less(2,3) object by (auto simp: document_sel [of a] document_sel [of b] kind_defs)
      have set: "set (sort_list True us) = set us" for us by (metis mset_sort_list set_mset_mset)
      have "object_patched junk ts path ?xs ?ys p h"
        by (rule object_patches_correct [OF _ _ _ _ ts path h])
          (use IH docs distinct sorted_below [of "child a"] sorted_below [of "child b"] in \<open>auto simp: set plain_name_def\<close>)
      then obtain qs p' xs' ys' h' where r:
        "object_patches junk True (Some p) path ?xs ?ys h = Some (Some p', xs', ys', h')"
        "emits (Some p) h qs (Some p', h')" "edits qs ts ?xs ?ys"
        "map meaning xs' = map meaning ?xs" "map item_string xs' = map item_string ?xs"
        "map meaning ys' = map meaning ?ys" "map item_string ys' = map item_string ?ys" by (rule object_patchedE)
      let ?m = "\<lambda>us. map_of (map (\<lambda>x. (name x, meaning x)) us)"
      have all: "\<forall>x \<in> set ?xs. ?m (child a) (name x) = Some (meaning x)" using map_of_members [OF distinct(1)] set by simp
      obtain m' where m': "leads qs ts (DObj (?m (child a))) (DObj m')"
        "\<forall>y \<in> set ?ys. rel_option agree (m' (name y)) (Some (meaning y))"
        "\<And>k. k \<notin> name ` set ?ys \<Longrightarrow> m' k = (if k \<in> name ` set ?xs then None else ?m (child a) k)"
        by (rule editsE [OF r(3) all]) blast
      have "rel_option agree (m' k) (?m (child b) k)" for k
      proof (cases "k \<in> name ` set (child b)")
        case True
        then obtain y where "y \<in> set (child b)" "k = name y" by blast
        then show ?thesis using m'(2) set map_of_members [OF distinct(2)] by simp
      next
        case False
        then have "m' k = None" using m'(3) [of k] set map_of_no_member [of k "child a"] by (simp split: if_splits)
        then show ?thesis using False map_of_no_member by simp
      qed
      then have agree: "agree (DObj m') (DObj (?m (child b)))" using agree_object by blast
      have same: "?m xs' = ?m (child a)" "?m ys' = ?m (child b)"
        using map_of_same [OF r(4,5)] map_of_same [OF r(6,7)] map_of_sorted [OF distinct(1) mset_sort_list]
          map_of_sorted [OF distinct(2) mset_sort_list] by simp_all
      show ?thesis
      proof (rule patchedI)
        show "create_patches junk True (Some p) path a b h = Some (Some p', set_child xs' a, set_child ys' b, h')"
          using object r(1) by (simp add: create_patches.simps kind_defs)
        show "leads qs ts (meaning a) (DObj m')" using m'(1) object by (simp add: meaning_sel kind_defs)
        show "agree (DObj m') (meaning b)" using agree object by (simp add: meaning_sel [of b] kind_defs)
        show "meaning (set_child xs' a) = meaning a" "meaning (set_child ys' b) = meaning b"
          using same object by (simp_all add: meaning_sel [of "set_child xs' a"] meaning_sel [of a]
            meaning_sel [of "set_child ys' b"] meaning_sel [of b] kind_defs)
      qed (use r(2) in simp_all)
    qed
  qed
qed

text \<open>
  C8. Generated patches lead from the one document to the other.  For two documents without raw
  items, whose member names differ and hold neither a slash nor a tilde,
  \<open>cJSONUtils_GeneratePatchesCaseSensitive\<close> yields, when no allocation fails, an array of patches that
  owns every block that was allocated, and applying those patches one after the other as RFC 6902
  says turns the meaning of the first document into that of the second, up to numbers that
  \<open>compare_double\<close> takes for equal; the two documents keep their meaning.
\<close>

theorem generated_patches_transform:
  assumes "document a" and "document b" and "oom h = (\<lambda>_. False)"
  shows "\<exists>p a' b' h' d. cJSONUtils_GeneratePatchesCaseSensitive junk (Some a) (Some b) h = Some (Some p, Some a', Some b', h') \<and>
    cJSON_IsArray (Some p) \<and> live h' = live h + blocks [p] \<and>
    apply_all (child p) (meaning a) = Some d \<and> agree d (meaning b) \<and> meaning a' = meaning a \<and> meaning b' = meaning b"
proof -
  obtain h0 where 0: "cJSON_New_Item h = (Some zero_item, h0)" "plenty h0" "live h0 = live h + 1"
    using new_item_plenty [OF assms(3)] .
  let ?p = "set_ctype cJSON_Array zero_item"
  have "patched junk a b [] [] ?p h0"
    using documents_patched [OF assms(1,2), of junk] 0(2) by (simp add: correct_def path_of_def)
  then obtain qs p' a' b' h' d where r: "create_patches junk True (Some ?p) [] a b h0 = Some (Some p', a', b', h')"
    "emits (Some ?p) h0 qs (Some p', h')" "leads qs [] (meaning a) d" "agree d (meaning b)"
    "meaning a' = meaning a" "meaning b' = meaning b" unfolding patched_def by blast
  have p': "p' = CJson cJSON_Array qs None 0 (DFin False 0) None" "live h' = live h0 + blocks qs"
    using r(2) by (simp_all add: emits_def zero_item_def)
  then have "blocks [p'] = 1 + blocks qs" by (simp add: has_flag_def ctype_defs)
  moreover have "cJSON_CreateArray h = (Some ?p, h0)" using 0 by (simp add: cJSON_CreateArray_def)
  moreover have "apply_all qs (meaning a) = Some d" using r(3) by (simp add: leads_def)
  ultimately show ?thesis using r 0 p'
    by (simp add: cJSONUtils_GeneratePatchesCaseSensitive_def cJSON_IsArray_def type_is_def kind_def ctype_defs)
qed

subsection \<open>Samples\<close>

definition sample_from :: cJSON where
  "sample_from = CJson cJSON_Object [CJson cJSON_True [] None 1 (DFin False 0) (Some ''b''),
     CJson cJSON_False [] None 0 (DFin False 0) (Some ''a'')] None 0 (DFin False 0) None"

definition sample_to :: cJSON where
  "sample_to = CJson cJSON_Object [CJson cJSON_NULL [] None 0 (DFin False 0) (Some ''a''),
     CJson cJSON_True [] None 1 (DFin False 0) (Some ''c'')] None 0 (DFin False 0) None"

lemma generated_patches_transform_witness:
  "\<exists>p a' b' h' d. cJSONUtils_GeneratePatchesCaseSensitive (\<lambda>_ _. NUL) (Some sample_from) (Some sample_to) fresh_heap
      = Some (Some p, Some a', Some b', h') \<and> length (child p) = 3 \<and>
    apply_all (child p) (meaning sample_from) = Some d \<and> agree d (meaning sample_to)"
proof -
  have "document sample_from" "document sample_to" "oom fresh_heap = (\<lambda>_. False)"
    by (simp_all add: sample_from_def sample_to_def plain_name_def name_def kind_def ctype_defs fresh_heap_def)
  from generated_patches_transform [OF this, of "\<lambda>_ _. NUL"] obtain p a' b' h' d where
    r: "cJSONUtils_GeneratePatchesCaseSensitive (\<lambda>_ _. NUL) (Some sample_from) (Some sample_to) fresh_heap
      = Some (Some p, Some a', Some b', h')" "apply_all (child p) (meaning sample_from) = Some d" "agree d (meaning sample_to)"
    by blast
  have "map_option (\<lambda>(p, _). map_option (length \<circ> child) p)
      (cJSONUtils_GeneratePatchesCaseSensitive (\<lambda>_ _. NUL) (Some sample_from) (Some sample_to) fresh_heap) = Some (Some 3)"
    by code_simp
  then show ?thesis using r by simp
qed


end
