(* ===== verification/Spec2Isabelle.thy ===== *)
theory Spec2Isabelle
  imports MgBuf DlcClaims DlcManifest CJsonRound CJsonLinkProps CJsonMinify DlcLock CUtilsPatchProps CUtilsGenerateProps
begin

text \<open>
  A verification library for \<open>dlc_server\<close>, the download client of an update system.

  \<^bold>\<open>The program.\<close>  \<open>dlc_server.c\<close> is a server between three parties: the DMC, which sends a
  manifest of packages over a socket; the HMI, which shows the user the state of an
  upgrade; and the orchestrator on the CGW, which is reached over HTTP.  A byte \<open>g_stat\<close> holds
  the state of the current upgrade, and \<open>core_state_handler\<close> decides which thread a state
  starts.  \<open>bs_dlc_utils.c\<close> reads manifests, \<open>cJSON\<close> is the JSON library both use, and
  \<open>mongoose\<close> is the networking library underneath.

  \<^bold>\<open>The server.\<close>  \<open>DlcState\<close> has the records for \<open>struct bs_context\<close> and its parts, the static
  buffers and the lock; \<open>DlcCore\<close> has \<open>init_context\<close>, the payload generators and
  \<open>core_state_handler\<close>; \<open>DlcDmc\<close>, \<open>DlcHmi\<close> and \<open>DlcCgw\<close> have the handlers of the three parties and
  the worker threads, one definition per C function, with every branch.  A handler returns
  \<open>None\<close> where the C code has no defined behaviour (a null or dangling pointer, an access outside
  an array).  \<open>DlcServer\<close> composes them: an event is one thing the environment does, and \<open>step\<close> is
  the transition of the whole world.  \<open>DlcProps\<close> shows what no event changes and interprets the
  transition-system locale of \<open>Prelude\<close>; \<open>DlcHmiProps\<close>, \<open>DlcFrame\<close> and \<open>DlcClaims\<close> have the
  behaviour of single handlers: messages and their length headers, bounds, closed connections,
  malformed requests, the end of a request.  \<open>DlcLock\<close> looks at the threads on a finer scale, one
  access to the lock byte at a time, and shows that the lock does not exclude anybody.

  \<^bold>\<open>Manifests.\<close>  \<open>DlcManifest\<close> has \<open>bs_parse_l1_manifest\<close> with its loop over the packages; it is
  total and safe on every text, and its success is characterised by the document.

  \<^bold>\<open>JSON.\<close>  \<open>CJsonItem\<close> has \<open>struct cJSON\<close> as a tree with the allocator's counters;
  \<open>CJsonQuery\<close> the predicates, lookups and constructors; \<open>CJsonUtf\<close>, \<open>CJsonText\<close>, \<open>CJsonString\<close> and
  \<open>CJsonParse\<close> the parser; \<open>CJsonPrint\<close> the printer on its growing buffer; \<open>CJsonMinify\<close> the in-place
  minifier; \<open>CJsonCopy\<close> duplication, comparison and the hooks.  \<open>CJsonParseProps\<close> proves the
  parser total, safe and leak-free; \<open>CJsonRender\<close> that the printer refines a rendering
  function; \<open>CJsonRound\<close> that parsing undoes printing.  \<open>CJsonLinks\<close> is the second model of the same
  structure, for the operations that rewire \<open>next\<close>, \<open>prev\<close> and \<open>child\<close>: a store of nodes where a
  freed node is noticed; \<open>CJsonLinkProps\<close> relates it to lists of children.  \<open>CDouble\<close>, \<open>CFormat\<close> and
  \<open>CString\<close> are the parts of the C library that the code relies on, as exact functions: binary64
  rounding, \<open>strtod\<close>, the conversion \<open>%g\<close>, string comparison.

  \<^bold>\<open>Patches.\<close>  \<open>CUtilsPointer\<close> and \<open>CUtilsSort\<close> have JSON pointers, the merge sort of members and
  the comparison of documents from \<open>cJSON_Utils.c\<close>.  \<open>CUtilsGenerate\<close> has the functions that compare
  two documents and write patches and merge patches (\<open>create_patches\<close>, \<open>generate_merge_patch\<close>), on
  trees; \<open>CUtilsGenerateProps\<close> applies the patches of two documents by a definition of RFC 6902 of
  its own and shows that they turn the one into the other.  \<open>CUtilsPatch\<close> has the functions that
  apply patches (\<open>apply_patch\<close>, \<open>merge_patch\<close>), on the store of nodes, with \<open>sort_list\<close> as the code
  relinks it; \<open>CUtilsPatchProps\<close> shows that a patch with a bad operation leaves every node as it
  was, that sorting the nodes sorts, and what the missing \<open>prev\<close> after sorting costs.

  \<^bold>\<open>Bounds and fuel.\<close>  The parser is called with the fuel \<open>CJSON_NESTING_LIMIT + 1\<close>: each nested call
  is one level deeper, and the code refuses a level beyond the limit, so the fuel is never
  used up (\<open>cJSON_ParseWithOpts_safe\<close> proves that there is always a result).  The wait for the lock
  has the fuel \<open>(timeout + 98) div 100 + 1\<close>, one more than the sleeps it can make.  Loops along
  pointers that may be cyclic are partial functions in the option monad, and the properties
  that speak of a result prove that there is one.  Sizes in the print buffer and the
  conversion of doubles to \<open>int\<close> are kept at their C width; array indices of JSON pointers are
  64-bit words.

  \<^bold>\<open>Environment.\<close>  Which allocations fail is the function \<open>oom\<close> of the heap; the hooks' choice of
  \<open>realloc\<close> and the content of fresh memory are arguments; the signedness of \<open>char\<close>, the log level
  and fresh bytes are the record \<open>config\<close>; popen, the sockets and the threads of the operating
  system appear as the events of \<open>DlcServer\<close>.

  \<^bold>\<open>Not modelled.\<close>  The networking library is used
  through its callbacks only; its event loop, its HTTP engine and the protocols the server
  does not use are not modelled, nor are the TFTP server (a separate C++ program) and the
  platform layers.
\<close>

end
